(* ===== verification/Dbx4_Prelude.thy ===== *)
theory Dbx4_Prelude
  imports Main "HOL-Library.Word" "HOL-Library.List_Lexorder" "HOL-Library.Char_ord"
begin

text \<open>
  Shared material of the development: the machine types of the C++ code, little-endian
  images of integers in byte buffers, \<open>memcpy\<close> into a buffer, the ordered \<open>std::map\<close>
  as a key-sorted association list, the byte stream behind \<open>std::ifstream\<close>, and the
  interfaces that several components share: a self-delimiting codec, an invariant of a
  transition system and a page of rows.
\<close>

named_theorems byte_simps \<open>lengths and round trips of byte images\<close>
named_theorems omap_simps \<open>lookups in ordered maps\<close>

section \<open>Machine types\<close>

text \<open>
  The code targets a little-endian LP64 platform: \<open>int\<close> and \<open>uint32_t\<close> have 32 bits,
  \<open>size_t\<close> and \<open>uint64_t\<close> have 64 bits.
\<close>

type_synonym u8 = "8 word"
type_synonym u16 = "16 word"
type_synonym u32 = "32 word"
type_synonym u64 = "64 word"
type_synonym i32 = "32 word"
type_synonym bytes = "u8 list"

section \<open>Little-endian images\<close>

fun le_nat :: "nat \<Rightarrow> nat \<Rightarrow> bytes" where
  "le_nat 0 v = []"
| "le_nat (Suc n) v = word_of_nat v # le_nat n (v div 256)"

fun nat_le :: "bytes \<Rightarrow> nat" where
  "nat_le [] = 0"
| "nat_le (b # bs) = unat b + 256 * nat_le bs"

definition le16 :: "u16 \<Rightarrow> bytes" where
  "le16 w = le_nat 2 (unat w)"

definition le32 :: "u32 \<Rightarrow> bytes" where
  "le32 w = le_nat 4 (unat w)"

definition rd16 :: "bytes \<Rightarrow> u16" where
  "rd16 bs = word_of_nat (nat_le (take 2 bs))"

definition rd32 :: "bytes \<Rightarrow> u32" where
  "rd32 bs = word_of_nat (nat_le (take 4 bs))"

lemma unat_u8_less [simp]: "unat (b :: u8) < 256"
  using unsigned_less [of b] by simp

lemma unat_u16_less [simp]: "unat (w :: u16) < 65536"
  using unsigned_less [of w] by simp

lemma unat_u32_less [simp]: "unat (w :: u32) < 4294967296"
  using unsigned_less [of w] by simp

lemma unat_add_u16: "unat a + unat b < 65536 \<Longrightarrow> unat (a + b :: u16) = unat a + unat b"
  by (simp add: unat_word_ariths)

lemma unat_ucast_u16_u32 [simp]: "unat (ucast (w :: u16) :: u32) = unat w"
  by (simp add: unsigned_ucast_eq take_bit_nat_eq_self less_trans [OF unat_u16_less])

lemma length_le_nat [simp, byte_simps]: "length (le_nat n v) = n"
  by (induction n arbitrary: v) auto

lemma unat_byte_mod: "unat (word_of_nat v :: u8) = v mod 256"
  by (simp add: unat_of_nat)

lemma nat_le_le_nat: "nat_le (le_nat n v) = v mod 256 ^ n"
proof (induction n arbitrary: v)
  case 0
  then show ?case by simp
next
  case (Suc n)
  have "v mod 256 ^ Suc n = v mod 256 + 256 * (v div 256 mod 256 ^ n)"
    by (simp add: mod_mult2_eq)
  with Suc show ?case by (simp add: unat_byte_mod)
qed

lemma nat_le_less: "nat_le bs < 256 ^ length bs"
proof (induction bs)
  case Nil
  then show ?case by simp
next
  case (Cons b bs)
  have "unat b < 256" by simp
  moreover from Cons have "256 * nat_le bs + 256 \<le> 256 * 256 ^ length bs" by simp
  ultimately show ?case by (simp del: unat_u8_less)
qed

lemma le_nat_nat_le: "le_nat (length bs) (nat_le bs) = bs"
proof (induction bs)
  case Nil
  then show ?case by simp
next
  case (Cons b bs)
  have b: "unat b < 256" by simp
  have "(unat b + 256 * nat_le bs) div 256 = nat_le bs"
    using b by simp
  moreover have "(word_of_nat (unat b + 256 * nat_le bs) :: u8) = b"
  proof (rule word_unat_eq_iff [THEN iffD2])
    have "unat (word_of_nat (unat b + 256 * nat_le bs) :: u8) = (unat b + 256 * nat_le bs) mod 256"
      by (rule unat_byte_mod)
    then show "unat (word_of_nat (unat b + 256 * nat_le bs) :: u8) = unat b"
      using b by simp
  qed
  ultimately show ?case using Cons by (simp only: nat_le.simps le_nat.simps list.size) simp
qed

lemma length_le32 [simp, byte_simps]: "length (le32 w) = 4"
  by (simp add: le32_def)

lemma length_le16 [simp, byte_simps]: "length (le16 w) = 2"
  by (simp add: le16_def)

lemma rd32_le32 [simp, byte_simps]: "rd32 (le32 w @ rest) = w"
proof -
  have "unat w < 256 ^ 4" by simp
  then show ?thesis by (simp add: rd32_def le32_def nat_le_le_nat)
qed

lemma rd32_le32_only [simp, byte_simps]: "rd32 (le32 w) = w"
  using rd32_le32 [of w "[]"] by simp

lemma rd16_le16 [simp, byte_simps]: "rd16 (le16 w @ rest) = w"
proof -
  have "unat w < 256 ^ 2" by simp
  then show ?thesis by (simp add: rd16_def le16_def nat_le_le_nat)
qed

lemma rd16_le16_only [simp, byte_simps]: "rd16 (le16 w) = w"
  using rd16_le16 [of w "[]"] by simp

lemma le32_rd32: "length bs = 4 \<Longrightarrow> le32 (rd32 bs) = bs"
  using nat_le_less [of bs] le_nat_nat_le [of bs]
  by (simp add: le32_def rd32_def unat_of_nat)

lemma le16_rd16: "length bs = 2 \<Longrightarrow> le16 (rd16 bs) = bs"
  using nat_le_less [of bs] le_nat_nat_le [of bs]
  by (simp add: le16_def rd16_def unat_of_nat)

lemma rd32_take: "4 \<le> n \<Longrightarrow> rd32 (take n bs) = rd32 bs"
  by (simp add: rd32_def min_def)

section \<open>Buffers\<close>

text \<open>
  \<open>memcpy (buf + off, src, length src)\<close> for a copy that stays inside the buffer, and the
  slice that a copy out of the buffer reads.
\<close>

definition mem_write :: "nat \<Rightarrow> bytes \<Rightarrow> bytes \<Rightarrow> bytes" where
  "mem_write off src buf = take off buf @ src @ drop (off + length src) buf"

definition mem_read :: "nat \<Rightarrow> nat \<Rightarrow> bytes \<Rightarrow> bytes" where
  "mem_read off n buf = take n (drop off buf)"

lemma length_mem_write [simp, byte_simps]:
  "off + length src \<le> length buf \<Longrightarrow> length (mem_write off src buf) = length buf"
  by (simp add: mem_write_def)

lemma length_mem_read [simp, byte_simps]:
  "off + n \<le> length buf \<Longrightarrow> length (mem_read off n buf) = n"
  by (simp add: mem_read_def)

lemma mem_read_write_same [byte_simps]:
  "off + length src \<le> length buf \<Longrightarrow> mem_read off (length src) (mem_write off src buf) = src"
  by (simp add: mem_read_def mem_write_def)

lemma nth_mem_write:
  assumes "off + length src \<le> length buf" "i < length buf"
  shows "mem_write off src buf ! i =
    (if off \<le> i \<and> i < off + length src then src ! (i - off) else buf ! i)"
  using assms by (auto simp: mem_write_def nth_append min_def)

lemma mem_read_eqI:
  assumes "length a = length b" "off + n \<le> length a"
    and "\<And>i. off \<le> i \<Longrightarrow> i < off + n \<Longrightarrow> a ! i = b ! i"
  shows "mem_read off n a = mem_read off n b"
  using assms by (auto simp: mem_read_def intro: nth_equalityI)

text \<open>A write leaves every disjoint slice of the buffer alone.\<close>

lemma mem_read_write_disjoint [byte_simps]:
  assumes "off + length src \<le> length buf" "o2 + n \<le> length buf"
    and "o2 + n \<le> off \<or> off + length src \<le> o2"
  shows "mem_read o2 n (mem_write off src buf) = mem_read o2 n buf"
  by (rule mem_read_eqI) (use assms in \<open>auto simp: nth_mem_write\<close>)

lemma mem_write_same [byte_simps]:
  "off + n \<le> length buf \<Longrightarrow> mem_write off (mem_read off n buf) buf = buf"
  by (simp add: mem_write_def mem_read_def min_def)
    (metis append_take_drop_id drop_drop add.commute)

lemma mem_write_write_same [byte_simps]:
  assumes "length a = length b" "off + length a \<le> length buf"
  shows "mem_write off a (mem_write off b buf) = mem_write off a buf"
proof -
  from assms have "take off (mem_write off b buf) = take off buf"
    and "drop (off + length a) (mem_write off b buf) = drop (off + length a) buf"
    by (simp_all add: mem_write_def)
  then show ?thesis by (simp add: mem_write_def)
qed

text \<open>Integer fields at fixed offsets of a buffer.\<close>

definition get16 :: "nat \<Rightarrow> bytes \<Rightarrow> u16" where
  "get16 off buf = rd16 (mem_read off 2 buf)"

definition get32 :: "nat \<Rightarrow> bytes \<Rightarrow> u32" where
  "get32 off buf = rd32 (mem_read off 4 buf)"

definition put16 :: "nat \<Rightarrow> u16 \<Rightarrow> bytes \<Rightarrow> bytes" where
  "put16 off w buf = mem_write off (le16 w) buf"

definition put32 :: "nat \<Rightarrow> u32 \<Rightarrow> bytes \<Rightarrow> bytes" where
  "put32 off w buf = mem_write off (le32 w) buf"

lemma length_put [simp, byte_simps]:
  "off + 2 \<le> length buf \<Longrightarrow> length (put16 off w buf) = length buf"
  "off + 4 \<le> length buf \<Longrightarrow> length (put32 off v buf) = length buf"
  by (simp_all add: put16_def put32_def)

lemma get_put_same [simp, byte_simps]:
  "off + 2 \<le> length buf \<Longrightarrow> get16 off (put16 off w buf) = w"
  "off + 4 \<le> length buf \<Longrightarrow> get32 off (put32 off v buf) = v"
  using mem_read_write_same [of off "le16 w" buf] mem_read_write_same [of off "le32 v" buf]
  by (simp_all add: get16_def put16_def get32_def put32_def)

text \<open>A field does not see a write to a disjoint part of the buffer.\<close>

lemma mem_read_put [simp, byte_simps]:
  "off + 2 \<le> length buf \<Longrightarrow> o2 + n \<le> length buf \<Longrightarrow> o2 + n \<le> off \<or> off + 2 \<le> o2 \<Longrightarrow>
     mem_read o2 n (put16 off w buf) = mem_read o2 n buf"
  "off + 4 \<le> length buf \<Longrightarrow> o2 + n \<le> length buf \<Longrightarrow> o2 + n \<le> off \<or> off + 4 \<le> o2 \<Longrightarrow>
     mem_read o2 n (put32 off v buf) = mem_read o2 n buf"
  by (simp_all add: put16_def put32_def mem_read_write_disjoint)

lemma get_put_other [simp, byte_simps]:
  "off + 2 \<le> length buf \<Longrightarrow> o2 + 2 \<le> length buf \<Longrightarrow> o2 + 2 \<le> off \<or> off + 2 \<le> o2 \<Longrightarrow>
     get16 o2 (put16 off w buf) = get16 o2 buf"
  "off + 4 \<le> length buf \<Longrightarrow> o2 + 2 \<le> length buf \<Longrightarrow> o2 + 2 \<le> off \<or> off + 4 \<le> o2 \<Longrightarrow>
     get16 o2 (put32 off v buf) = get16 o2 buf"
  "off + 2 \<le> length buf \<Longrightarrow> o2 + 4 \<le> length buf \<Longrightarrow> o2 + 4 \<le> off \<or> off + 2 \<le> o2 \<Longrightarrow>
     get32 o2 (put16 off w buf) = get32 o2 buf"
  "off + 4 \<le> length buf \<Longrightarrow> o2 + 4 \<le> length buf \<Longrightarrow> o2 + 4 \<le> off \<or> off + 4 \<le> o2 \<Longrightarrow>
     get32 o2 (put32 off v buf) = get32 o2 buf"
  by (simp_all add: get16_def get32_def)

lemma get_mem_write [simp, byte_simps]:
  "off + length src \<le> length buf \<Longrightarrow> o2 + 2 \<le> length buf \<Longrightarrow>
     o2 + 2 \<le> off \<or> off + length src \<le> o2 \<Longrightarrow> get16 o2 (mem_write off src buf) = get16 o2 buf"
  "off + length src \<le> length buf \<Longrightarrow> o2 + 4 \<le> length buf \<Longrightarrow>
     o2 + 4 \<le> off \<or> off + length src \<le> o2 \<Longrightarrow> get32 o2 (mem_write off src buf) = get32 o2 buf"
  by (simp_all add: get16_def get32_def mem_read_write_disjoint)

section \<open>std::map as a key-sorted association list\<close>

text \<open>
  A \<open>std::map\<close> that the code iterates over is kept as the list of its entries in key
  order: \<open>map_of\<close> looks a key up (\<open>find\<close>), \<open>omap_insert\<close> is \<open>m[k] = v\<close>,
  \<open>omap_erase\<close> is \<open>m.erase(k)\<close>. Maps that are only looked up are plain HOL maps.
\<close>

type_synonym ('k, 'v) omap = "('k \<times> 'v) list"

fun omap_insert :: "'k::linorder \<Rightarrow> 'v \<Rightarrow> ('k, 'v) omap \<Rightarrow> ('k, 'v) omap" where
  "omap_insert k v [] = [(k, v)]"
| "omap_insert k v ((k', v') # m) =
     (if k < k' then (k, v) # (k', v') # m
      else if k = k' then (k, v) # m
      else (k', v') # omap_insert k v m)"

definition omap_erase :: "'k \<Rightarrow> ('k, 'v) omap \<Rightarrow> ('k, 'v) omap" where
  "omap_erase k m = filter (\<lambda>e. fst e \<noteq> k) m"

definition omap_ok :: "('k::linorder, 'v) omap \<Rightarrow> bool" where
  "omap_ok m \<longleftrightarrow> sorted_wrt (<) (map fst m)"

lemma map_of_omap_insert [simp, omap_simps]:
  "map_of (omap_insert k v m) = (map_of m)(k \<mapsto> v)"
  by (induction m) (auto simp: fun_eq_iff)

lemma set_keys_omap_insert [omap_simps]:
  "set (map fst (omap_insert k v m)) = insert k (set (map fst m))"
proof (induction m)
  case (Cons e m)
  then show ?case by (cases e) auto
qed simp

lemma omap_ok_Nil [simp]: "omap_ok []"
  by (simp add: omap_ok_def)

lemma omap_ok_insert [simp]: "omap_ok m \<Longrightarrow> omap_ok (omap_insert k v m)"
proof (induction m)
  case Nil
  then show ?case by (simp add: omap_ok_def)
next
  case (Cons e m)
  obtain k' v' where e: "e = (k', v')" by (cases e)
  have ok: "omap_ok m" and gt: "\<forall>x \<in> set (map fst m). k' < x"
    using Cons.prems by (auto simp: omap_ok_def e)
  have IH: "sorted_wrt (<) (map fst (omap_insert k v m))"
    using Cons.IH [OF ok] by (simp add: omap_ok_def)
  show ?case
  proof (cases "k' < k")
    case True
    then have "\<forall>x \<in> set (map fst (omap_insert k v m)). k' < x"
      using gt by (simp add: set_keys_omap_insert del: set_map)
    with True IH show ?thesis by (auto simp: omap_ok_def e)
  next
    case False
    with ok gt show ?thesis by (auto simp: omap_ok_def e intro: less_trans)
  qed
qed

lemma set_omap_insert_subset: "set (omap_insert k v m) \<subseteq> insert (k, v) (set m)"
  by (induction k v m rule: omap_insert.induct) auto

lemma omap_ok_distinct: "omap_ok m \<Longrightarrow> distinct (map fst m)"
  unfolding omap_ok_def using strict_sorted_iff by blast

lemma length_omap_card: "omap_ok m \<Longrightarrow> length m = card (set (map fst m))"
  using distinct_card [OF omap_ok_distinct, of m] by (simp del: set_map)

text \<open>How many entries satisfy a predicate after an assignment.\<close>

lemma length_filter_omap_insert:
  "omap_ok m \<Longrightarrow> length (filter P (omap_insert k v m)) +
     (case map_of m k of None \<Rightarrow> 0 | Some w \<Rightarrow> if P (k, w) then 1 else 0) =
   length (filter P m) + (if P (k, v) then 1 else 0)"
proof (induction m)
  case Nil
  then show ?case by simp
next
  case (Cons e m)
  obtain k' v' where e: "e = (k', v')" by (cases e)
  have ok: "omap_ok m" using Cons.prems by (simp add: omap_ok_def)
  have above: "map_of m k = None" if "k < k'"
    using Cons.prems that by (auto simp: omap_ok_def e map_of_eq_None_iff dest: less_trans)
  show ?case using Cons.IH [OF ok] above by (auto simp: e)
qed

lemma map_of_omap_erase [simp, omap_simps]:
  "map_of (omap_erase k m) = (map_of m)(k := None)"
  by (induction m) (auto simp: omap_erase_def fun_eq_iff)

lemma omap_ok_erase [simp]: "omap_ok m \<Longrightarrow> omap_ok (omap_erase k m)"
  by (induction m) (auto simp: omap_ok_def omap_erase_def)

text \<open>Assignments to different keys, to the greatest key and to a key that is present.\<close>

lemma omap_insert_commute:
  "k \<noteq> l \<Longrightarrow> omap_ok m \<Longrightarrow> omap_insert k v (omap_insert l w m) = omap_insert l w (omap_insert k v m)"
proof (induction m)
  case (Cons e m)
  then show ?case by (cases e) (auto simp: omap_ok_def)
qed auto

lemma omap_insert_last: "\<forall>k' \<in> fst ` set m. k' < k \<Longrightarrow> omap_insert k v m = m @ [(k, v)]"
  by (induction m) auto

lemma omap_insert_update:
  "omap_ok m \<Longrightarrow> map_of m k = Some w \<Longrightarrow>
   omap_insert k v m = map (\<lambda>(l, x). (l, if l = k then v else x)) m"
proof (induction m)
  case (Cons a m)
  obtain l x where a: "a = (l, x)" by (cases a)
  have gt: "\<forall>l' \<in> fst ` set m. l < l'" and ok: "omap_ok m"
    using Cons.prems by (auto simp: omap_ok_def a)
  show ?case
  proof (cases "l = k")
    case True
    with gt show ?thesis by (auto simp: a intro!: map_idI [symmetric])
  next
    case False
    with Cons.prems have "map_of m k = Some w" by (simp add: a)
    moreover from this gt have "l < k" by (force dest: map_of_SomeD)
    ultimately show ?thesis using Cons.IH ok False by (simp add: a)
  qed
qed simp

section \<open>std::ifstream\<close>

text \<open>
  An input stream opened on a byte sequence. \<open>stream_read n\<close> is \<open>in.read(p, n)\<close>: it
  delivers \<open>n\<close> bytes, or consumes what is left and puts the stream into a failed state,
  in which \<open>good()\<close> is false and every later read fails.
\<close>

record istream =
  in_rest :: bytes
  in_good :: bool

definition stream_open :: "bytes \<Rightarrow> istream" where
  "stream_open bs = \<lparr>in_rest = bs, in_good = True\<rparr>"

definition stream_read :: "nat \<Rightarrow> istream \<Rightarrow> bytes option \<times> istream" where
  "stream_read n s =
     (if in_good s \<and> n \<le> length (in_rest s)
      then (Some (take n (in_rest s)), s\<lparr>in_rest := drop n (in_rest s)\<rparr>)
      else (None, \<lparr>in_rest = [], in_good = False\<rparr>))"

lemma stream_read_shrinks:
  "stream_read n s = (Some bs, s') \<Longrightarrow>
     length (in_rest s') + n = length (in_rest s) \<and> length bs = n \<and> in_good s'"
  by (auto simp: stream_read_def split: if_splits)

lemma stream_read_append [simp]:
  "length bs = n \<Longrightarrow>
     stream_read n (stream_open (bs @ rest)) = (Some bs, stream_open rest)"
  by (simp add: stream_read_def stream_open_def)

lemma stream_read_all [simp]:
  "length bs = n \<Longrightarrow> stream_read n (stream_open bs) = (Some bs, stream_open [])"
  using stream_read_append [of bs n "[]"] by simp

lemma stream_read_short [simp]:
  "length bs < n \<Longrightarrow> stream_read n (stream_open bs) = (None, \<lparr>in_rest = [], in_good = False\<rparr>)"
  by (simp add: stream_read_def stream_open_def)

section \<open>Shared interfaces\<close>

text \<open>
  A self-delimiting codec: decoding looks at the front of a buffer and says what it read
  and how many bytes that took; \<open>Dec_UB\<close> is a decoder that reads outside its buffer
  (undefined behaviour in C++). The laws are the round trip and that a proper prefix of an
  encoding is rejected, so a log that is cut at an arbitrary byte is still read correctly.
\<close>

datatype 'a dec_result = Dec_Fail | Dec_UB | Dec_OK 'a nat

locale codec =
  fixes enc :: "'a \<Rightarrow> 'b list"
    and dec :: "'b list \<Rightarrow> 'a dec_result"
    and ok :: "'a \<Rightarrow> bool"
  assumes dec_enc: "ok x \<Longrightarrow> dec (enc x @ rest) = Dec_OK x (length (enc x))"
    and enc_nonempty: "enc x \<noteq> []"
    and dec_torn: "ok x \<Longrightarrow> k < length (enc x) \<Longrightarrow> dec (take k (enc x)) = Dec_Fail"
begin

lemma enc_inj: "ok x \<Longrightarrow> ok y \<Longrightarrow> enc x @ r = enc y @ r' \<Longrightarrow> x = y \<and> r = r'"
  using dec_enc [of x r] dec_enc [of y r'] by auto

end

text \<open>
  A log reader calls the decoder on the rest of the buffer until the buffer is empty or the
  decoder fails. It has no result when the decoder misbehaves or makes no progress.
\<close>

locale log_reader = codec +
  fixes scan :: "'b list \<Rightarrow> 'a list option"
  assumes scan_unfold: "scan bs =
    (if bs = [] then Some []
     else case dec bs of
       Dec_Fail \<Rightarrow> Some []
     | Dec_UB \<Rightarrow> None
     | Dec_OK x n \<Rightarrow>
         if n = 0 then None else map_option ((#) x) (scan (drop n bs)))"
begin

lemma scan_enc: "ok x \<Longrightarrow> scan (enc x @ rest) = map_option ((#) x) (scan rest)"
  by (subst scan_unfold) (simp add: dec_enc enc_nonempty)

lemma scan_Nil: "scan [] = Some []"
  by (subst scan_unfold) simp

lemma scan_torn_tail: "ok x \<Longrightarrow> k < length (enc x) \<Longrightarrow> scan (take k (enc x)) = Some []"
  by (subst scan_unfold) (simp add: dec_torn)

lemma scan_concat_app:
  "\<forall>x\<in>set xs. ok x \<Longrightarrow> scan (concat (map enc xs) @ rest) = map_option ((@) xs) (scan rest)"
proof (induction xs)
  case Nil
  then show ?case by (simp add: option.map_ident)
next
  case (Cons x xs)
  then show ?case by (simp add: scan_enc option.map_comp comp_def)
qed

lemma scan_concat: "\<forall>x\<in>set xs. ok x \<Longrightarrow> scan (concat (map enc xs)) = Some xs"
  using scan_concat_app [of xs "[]"] by (simp add: scan_Nil)

text \<open>A log cut at byte \<open>k\<close>: exactly the records that are complete are read.\<close>

lemma scan_torn:
  assumes "\<forall>x\<in>set xs. ok x"
  shows "\<exists>m \<le> length xs. scan (take k (concat (map enc xs))) = Some (take m xs)
    \<and> length (concat (map enc (take m xs))) \<le> k
    \<and> (m < length xs \<longrightarrow> k < length (concat (map enc (take (Suc m) xs))))"
  using assms
proof (induction xs arbitrary: k)
  case Nil
  then show ?case by (simp add: scan_Nil)
next
  case (Cons x xs)
  show ?case
  proof (cases "k < length (enc x)")
    case True
    then show ?thesis using Cons.prems by (intro exI [of _ 0]) (simp add: scan_torn_tail)
  next
    case False
    let ?k = "k - length (enc x)"
    obtain m where m: "m \<le> length xs"
      "scan (take ?k (concat (map enc xs))) = Some (take m xs)"
      "length (concat (map enc (take m xs))) \<le> ?k"
      "m < length xs \<longrightarrow> ?k < length (concat (map enc (take (Suc m) xs)))"
      using Cons.IH [of ?k] Cons.prems by auto
    have "scan (take k (concat (map enc (x # xs)))) = Some (take (Suc m) (x # xs))"
      using Cons.prems False m(2) by (simp add: scan_enc)
    with m False show ?thesis by (intro exI [of _ "Suc m"]) auto
  qed
qed

end

text \<open>
  An invariant of a transition system: what holds initially and is kept by every step holds
  after every sequence of steps.
\<close>

fun run_steps :: "('s \<Rightarrow> 'op \<Rightarrow> 's) \<Rightarrow> 's \<Rightarrow> 'op list \<Rightarrow> 's" where
  "run_steps step s [] = s"
| "run_steps step s (x # xs) = run_steps step (step s x) xs"

lemma run_steps_append: "run_steps step s (xs @ ys) = run_steps step (run_steps step s xs) ys"
  by (induction xs arbitrary: s) auto

locale step_invariant =
  fixes step :: "'s \<Rightarrow> 'op \<Rightarrow> 's"
    and inv :: "'s \<Rightarrow> bool"
  assumes step_inv: "inv s \<Longrightarrow> inv (step s x)"
begin

lemma run_inv: "inv s \<Longrightarrow> inv (run_steps step s xs)"
  by (induction xs arbitrary: s) (auto intro: step_inv)

end

section \<open>Interleaved threads\<close>

text \<open>
  A program of several threads is a relation that says which state a step of a thread leads to; a
  run interleaves steps of any threads. What every step keeps, every run keeps.
\<close>

definition interleave :: "('t \<Rightarrow> 's \<Rightarrow> 's \<Rightarrow> bool) \<Rightarrow> 's \<Rightarrow> 's \<Rightarrow> bool" where
  "interleave tstep = (\<lambda>s s'. \<exists>t. tstep t s s')\<^sup>*\<^sup>*"

locale interleaving =
  fixes tstep :: "'t \<Rightarrow> 's \<Rightarrow> 's \<Rightarrow> bool"
    and tinv :: "'s \<Rightarrow> bool"
  assumes tstep_inv: "tstep t s s' \<Longrightarrow> tinv s \<Longrightarrow> tinv s'"
begin

lemma runs_inv: "interleave tstep s s' \<Longrightarrow> tinv s \<Longrightarrow> tinv s'"
  unfolding interleave_def by (induction rule: rtranclp_induct) (auto intro: tstep_inv)

lemma runs_induct [consumes 2, case_names start step]:
  assumes "interleave tstep s s'" and "tinv s" and "P s"
    and "\<And>t a b. tinv a \<Longrightarrow> P a \<Longrightarrow> tstep t a b \<Longrightarrow> P b"
  shows "P s'"
proof -
  have "tinv s' \<and> P s'"
    using assms(1) unfolding interleave_def
    by (induction rule: rtranclp_induct) (auto intro: assms tstep_inv)
  then show ?thesis by blast
qed

end

lemma interleave_refl [simp, intro]: "interleave tstep s s"
  by (simp add: interleave_def)

lemma interleave_trans [trans]:
  "interleave tstep a b \<Longrightarrow> interleave tstep b c \<Longrightarrow> interleave tstep a c"
  unfolding interleave_def by (rule rtranclp_trans)

lemma interleave_step: "tstep t a b \<Longrightarrow> interleave tstep b c \<Longrightarrow> interleave tstep a c"
  unfolding interleave_def by (blast intro: converse_rtranclp_into_rtranclp)

section \<open>The contract of a page\<close>

text \<open>
  What a client of a page relies on: an insertion appends one row or changes nothing, and a
  read by slot number delivers that row. Inserting a sequence of rows and reading them back
  is then a fact about any page.
\<close>

fun insert_all ::
  "(bytes \<Rightarrow> 'p \<Rightarrow> bool \<times> 'p) \<Rightarrow> bytes list \<Rightarrow> 'p \<Rightarrow> bytes list \<times> 'p" where
  "insert_all ins [] p = ([], p)"
| "insert_all ins (r # rs) p =
     (let (b, p') = ins r p; (stored, q) = insert_all ins rs p' in
      (if b then r # stored else stored, q))"

locale row_page =
  fixes insert :: "bytes \<Rightarrow> 'p \<Rightarrow> bool \<times> 'p"
    and read :: "nat \<Rightarrow> 'p \<Rightarrow> bytes option"
    and content :: "'p \<Rightarrow> bytes list"
    and fits :: "bytes \<Rightarrow> bool"
    and ok :: "'p \<Rightarrow> bool"
  assumes insert_ok: "ok p \<Longrightarrow> fits r \<Longrightarrow> ok (snd (insert r p))"
    and insert_content: "ok p \<Longrightarrow> fits r \<Longrightarrow>
      content (snd (insert r p)) = (if fst (insert r p) then content p @ [r] else content p)"
    and read_content: "ok p \<Longrightarrow> read i p = (if i < length (content p) then Some (content p ! i) else None)"
begin

lemma insert_all_content:
  assumes "ok p" and "list_all fits rs" and "insert_all insert rs p = (stored, q)"
  shows "ok q \<and> content q = content p @ stored"
  using assms
proof (induction rs arbitrary: p stored)
  case Nil
  then show ?case by simp
next
  case (Cons r rs)
  obtain b p' where ins: "insert r p = (b, p')" by (cases "insert r p")
  obtain st q' where rec: "insert_all insert rs p' = (st, q')"
    by (cases "insert_all insert rs p'")
  from Cons.prems have "ok p'" "content p' = (if b then content p @ [r] else content p)"
    using insert_ok [of p r] insert_content [of p r] by (simp_all add: ins)
  moreover have "stored = (if b then r # st else st)" "q = q'"
    using Cons.prems(3) by (simp_all add: ins rec)
  ultimately show ?case using Cons.IH [of p' st] Cons.prems(2) rec by auto
qed

lemma insert_all_read:
  assumes "ok p" and "list_all fits rs" and "insert_all insert rs p = (stored, q)" and "i < length stored"
  shows "read (length (content p) + i) q = Some (stored ! i)"
  using insert_all_content [OF assms(1-3)] assms(4) by (simp add: read_content nth_append)

end

end
