(* ===== verification/Wal_Manager.thy ===== *)
theory Wal_Manager
  imports Dbx4_Prelude
begin

text \<open>
  The write-ahead log of \<open>src/recovery_wal.cpp\<close>: \<open>WALEntry\<close>, the binary codec, the
  three writers and the two-pass \<open>recover\<close>, and the small \<open>SchemaManager\<close> of the same
  file. The log file is a byte list (\<open>None\<close> while it does not exist); appending is
  assumed to succeed. A result \<open>None\<close> of a reader is undefined behaviour: a read outside
  the buffer.
\<close>

section \<open>Entries and their binary image\<close>

record wal_entry =
  we_txn_id :: i32
  we_entry_type :: i32
  we_data :: bytes

definition encode_entry :: "wal_entry \<Rightarrow> bytes" where
  "encode_entry e =
     le32 (we_txn_id e) @ le32 (we_entry_type e) @
     le32 (word_of_nat (length (we_data e))) @ we_data e"

text \<open>
  \<open>12 + len\<close> is computed in 32 bits, so the bounds check can pass for a length near
  \<open>2 ^ 32\<close>; the \<open>assign\<close> that follows then reads \<open>len\<close> bytes past the header.
\<close>

definition decode_entry :: "bytes \<Rightarrow> wal_entry dec_result" where
  "decode_entry buf =
     (if length buf < 12 then Dec_Fail
      else
        let txn = rd32 buf; ty = rd32 (drop 4 buf); len = rd32 (drop 8 buf)
        in if length buf < unat (12 + len) then Dec_Fail
           else if length buf < 12 + unat len then Dec_UB
           else Dec_OK \<lparr>we_txn_id = txn, we_entry_type = ty,
                        we_data = mem_read 12 (unat len) buf\<rparr> (unat (12 + len)))"

section \<open>The manager\<close>

record wal_manager =
  wal_file :: "bytes option"
  committed_txns :: "i32 \<rightharpoonup> bool"

definition wal_new :: wal_manager where
  "wal_new = \<lparr>wal_file = None, committed_txns = Map.empty\<rparr>"

definition wal_append :: "wal_entry \<Rightarrow> wal_manager \<Rightarrow> wal_manager" where
  "wal_append e w =
     w\<lparr>wal_file := Some ((case wal_file w of None \<Rightarrow> [] | Some bs \<Rightarrow> bs) @ encode_entry e)\<rparr>"

definition write_data :: "i32 \<Rightarrow> bytes \<Rightarrow> wal_manager \<Rightarrow> wal_manager" where
  "write_data txn d w = wal_append \<lparr>we_txn_id = txn, we_entry_type = 1, we_data = d\<rparr> w"

definition write_commit :: "i32 \<Rightarrow> wal_manager \<Rightarrow> wal_manager" where
  "write_commit txn w =
     (let w' = wal_append \<lparr>we_txn_id = txn, we_entry_type = 2, we_data = []\<rparr> w
      in w'\<lparr>committed_txns := (committed_txns w')(txn \<mapsto> True)\<rparr>)"

definition write_abort :: "i32 \<Rightarrow> wal_manager \<Rightarrow> wal_manager" where
  "write_abort txn w =
     (let w' = wal_append \<lparr>we_txn_id = txn, we_entry_type = 3, we_data = []\<rparr> w
      in w'\<lparr>committed_txns := (committed_txns w')(txn \<mapsto> False)\<rparr>)"

text \<open>
  \<open>recover\<close> clears the commit table, reads the whole file and walks over it twice. A
  decoder that reports no progress (a wrapped length in a file of 4 GiB or more) makes either
  loop run forever; like a read out of bounds it gives \<open>None\<close>.
\<close>

function recover_pass1 :: "bytes \<Rightarrow> (i32 \<rightharpoonup> bool) \<Rightarrow> (i32 \<rightharpoonup> bool) option" where
  "recover_pass1 buf cm =
     (if buf = [] then Some cm
      else case decode_entry buf of
        Dec_Fail \<Rightarrow> Some cm
      | Dec_UB \<Rightarrow> None
      | Dec_OK e n \<Rightarrow>
          if n = 0 then None
          else recover_pass1 (drop n buf)
                 (if we_entry_type e = 2 then cm(we_txn_id e \<mapsto> True)
                  else if we_entry_type e = 3 then cm(we_txn_id e \<mapsto> False)
                  else cm))"
  by pat_completeness auto
termination
  by (relation "measure (\<lambda>(buf, cm). length buf)") auto

function recover_pass2 ::
  "(i32 \<rightharpoonup> bool) \<Rightarrow> bytes \<Rightarrow> wal_entry list \<Rightarrow> wal_entry list option" where
  "recover_pass2 cm buf recovered =
     (if buf = [] then Some recovered
      else case decode_entry buf of
        Dec_Fail \<Rightarrow> Some recovered
      | Dec_UB \<Rightarrow> None
      | Dec_OK e n \<Rightarrow>
          if n = 0 then None
          else recover_pass2 cm (drop n buf)
                 (if we_entry_type e = 1 \<and> cm (we_txn_id e) = Some True
                  then recovered @ [e] else recovered))"
  by pat_completeness auto
termination
  by (relation "measure (\<lambda>(cm, buf, recovered). length buf)") auto

declare recover_pass1.simps [simp del] recover_pass2.simps [simp del]

definition recover :: "wal_manager \<Rightarrow> (wal_entry list \<times> wal_manager) option" where
  "recover w =
     (case wal_file w of
        None \<Rightarrow> Some ([], w\<lparr>committed_txns := Map.empty\<rparr>)
      | Some buf \<Rightarrow>
          (case recover_pass1 buf Map.empty of
             None \<Rightarrow> None
           | Some cm \<Rightarrow>
               map_option (\<lambda>recovered. (recovered, w\<lparr>committed_txns := cm\<rparr>))
                 (recover_pass2 cm buf [])))"

section \<open>The two passes over the decoded log\<close>

text \<open>Both loops are folds over the entries that one scan of the buffer decodes.\<close>

function wal_scan :: "bytes \<Rightarrow> wal_entry list option" where
  "wal_scan buf =
     (if buf = [] then Some []
      else case decode_entry buf of
        Dec_Fail \<Rightarrow> Some []
      | Dec_UB \<Rightarrow> None
      | Dec_OK e n \<Rightarrow> if n = 0 then None else map_option ((#) e) (wal_scan (drop n buf)))"
  by pat_completeness auto
termination
  by (relation "measure length") auto

declare wal_scan.simps [simp del]

definition mark :: "(i32 \<rightharpoonup> bool) \<Rightarrow> wal_entry \<Rightarrow> (i32 \<rightharpoonup> bool)" where
  "mark cm e =
     (if we_entry_type e = 2 then cm(we_txn_id e \<mapsto> True)
      else if we_entry_type e = 3 then cm(we_txn_id e \<mapsto> False) else cm)"

definition replayable :: "(i32 \<rightharpoonup> bool) \<Rightarrow> wal_entry \<Rightarrow> bool" where
  "replayable cm e \<longleftrightarrow> we_entry_type e = 1 \<and> cm (we_txn_id e) = Some True"

lemma mark_simps:
  "we_entry_type e = 2 \<Longrightarrow> mark cm e = cm(we_txn_id e \<mapsto> True)"
  "we_entry_type e = 3 \<Longrightarrow> mark cm e = cm(we_txn_id e \<mapsto> False)"
  "we_entry_type e \<noteq> 2 \<Longrightarrow> we_entry_type e \<noteq> 3 \<Longrightarrow> mark cm e = cm"
  by (simp_all add: mark_def)

lemma replayable_simps:
  "we_entry_type e = 1 \<Longrightarrow> cm (we_txn_id e) = Some True \<Longrightarrow> replayable cm e"
  "we_entry_type e \<noteq> 1 \<Longrightarrow> \<not> replayable cm e"
  "cm (we_txn_id e) \<noteq> Some True \<Longrightarrow> \<not> replayable cm e"
  by (simp_all add: replayable_def)

lemma recover_pass1_scan: "recover_pass1 buf cm = map_option (foldl mark cm) (wal_scan buf)"
proof (induction buf cm rule: recover_pass1.induct)
  case (1 buf cm)
  then show ?case
    by (subst recover_pass1.simps, subst wal_scan.simps)
      (auto simp: option.map_comp comp_def mark_simps split: dec_result.splits)
qed

lemma recover_pass2_scan:
  "recover_pass2 cm buf acc = map_option (\<lambda>es. acc @ filter (replayable cm) es) (wal_scan buf)"
proof (induction cm buf acc rule: recover_pass2.induct)
  case (1 cm buf acc)
  then show ?case
    by (subst recover_pass2.simps, subst wal_scan.simps)
      (auto simp: option.map_comp comp_def replayable_simps split: dec_result.splits)
qed

lemma recover_scan:
  "recover w =
     (case wal_file w of
        None \<Rightarrow> Some ([], w\<lparr>committed_txns := Map.empty\<rparr>)
      | Some buf \<Rightarrow>
          map_option (\<lambda>es. let cm = foldl mark Map.empty es in
              (filter (replayable cm) es, w\<lparr>committed_txns := cm\<rparr>)) (wal_scan buf))"
  by (auto simp: recover_def recover_pass1_scan recover_pass2_scan option.map_comp comp_def
      Let_def split: option.splits)

section \<open>The codec laws\<close>

definition entry_fits :: "wal_entry \<Rightarrow> bool" where
  "entry_fits e \<longleftrightarrow> 12 + length (we_data e) < 2 ^ 32"

lemma length_encode_entry [byte_simps]: "length (encode_entry e) = 12 + length (we_data e)"
  by (simp add: encode_entry_def)

lemma header_rd32:
  "rd32 (encode_entry e @ rest) = we_txn_id e"
  "rd32 (drop 4 (encode_entry e @ rest)) = we_entry_type e"
  "rd32 (drop 8 (encode_entry e @ rest)) = word_of_nat (length (we_data e))"
  by (simp_all add: encode_entry_def)

lemma header_rd32_take:
  assumes "12 \<le> k"
  shows "rd32 (drop 8 (take k (encode_entry e))) = word_of_nat (length (we_data e))"
  using assms by (simp add: drop_take rd32_take header_rd32(3) [of e "[]", simplified])

lemma entry_fits_len:
  assumes "entry_fits e"
  shows "unat (word_of_nat (length (we_data e)) :: u32) = length (we_data e)"
    and "unat (12 + word_of_nat (length (we_data e)) :: u32) = 12 + length (we_data e)"
proof -
  have "(12 + word_of_nat (length (we_data e)) :: u32) = word_of_nat (12 + length (we_data e))"
    by simp
  then show "unat (12 + word_of_nat (length (we_data e)) :: u32) = 12 + length (we_data e)"
    using assms by (simp only: entry_fits_def) (simp add: unat_of_nat del: of_nat_add)
  show "unat (word_of_nat (length (we_data e)) :: u32) = length (we_data e)"
    using assms by (simp add: entry_fits_def unat_of_nat)
qed

lemma decode_encode:
  assumes "entry_fits e"
  shows "decode_entry (encode_entry e @ rest) = Dec_OK e (length (encode_entry e))"
proof -
  have "mem_read 12 (length (we_data e)) (encode_entry e @ rest) = we_data e"
    by (simp add: mem_read_def encode_entry_def)
  then show ?thesis
    by (simp add: decode_entry_def Let_def header_rd32 entry_fits_len [OF assms]
        length_encode_entry del: drop_append)
qed

lemma decode_torn:
  assumes "entry_fits e" "k < length (encode_entry e)"
  shows "decode_entry (take k (encode_entry e)) = Dec_Fail"
  using assms by (simp add: decode_entry_def Let_def header_rd32_take entry_fits_len
      length_encode_entry)

interpretation wal: log_reader encode_entry decode_entry entry_fits wal_scan
proof unfold_locales
  fix e and rest
  show "entry_fits e \<Longrightarrow> decode_entry (encode_entry e @ rest) = Dec_OK e (length (encode_entry e))"
    by (rule decode_encode)
  show "encode_entry e \<noteq> []"
    using length_encode_entry [of e] by auto
  show "entry_fits e \<Longrightarrow> k < length (encode_entry e) \<Longrightarrow>
      decode_entry (take k (encode_entry e)) = Dec_Fail" for k
    by (rule decode_torn)
qed (rule wal_scan.simps)

section \<open>Histories of the manager\<close>

datatype wal_op = Wal_Data i32 bytes | Wal_Commit i32 | Wal_Abort i32

fun wal_step :: "wal_manager \<Rightarrow> wal_op \<Rightarrow> wal_manager" where
  "wal_step w (Wal_Data t d) = write_data t d w"
| "wal_step w (Wal_Commit t) = write_commit t w"
| "wal_step w (Wal_Abort t) = write_abort t w"

fun op_entry :: "wal_op \<Rightarrow> wal_entry" where
  "op_entry (Wal_Data t d) = \<lparr>we_txn_id = t, we_entry_type = 1, we_data = d\<rparr>"
| "op_entry (Wal_Commit t) = \<lparr>we_txn_id = t, we_entry_type = 2, we_data = []\<rparr>"
| "op_entry (Wal_Abort t) = \<lparr>we_txn_id = t, we_entry_type = 3, we_data = []\<rparr>"

text \<open>The bytes a history leaves in the log, and when every record of it fits the format.\<close>

definition wal_bytes :: "wal_op list \<Rightarrow> bytes" where
  "wal_bytes ops = concat (map encode_entry (map op_entry ops))"

definition ops_fit :: "wal_op list \<Rightarrow> bool" where
  "ops_fit ops \<longleftrightarrow> list_all entry_fits (map op_entry ops)"

text \<open>
  What recovery promises, in terms of the history alone: the last marker of the transaction
  decides, and the data records of the committed transactions come back in log order.
\<close>

definition committed_in :: "wal_op list \<Rightarrow> i32 \<Rightarrow> bool" where
  "committed_in ops t \<longleftrightarrow>
     find (\<lambda>x. x = Wal_Commit t \<or> x = Wal_Abort t) (rev ops) = Some (Wal_Commit t)"

fun is_data :: "wal_op \<Rightarrow> bool" where
  "is_data (Wal_Data t d) = True"
| "is_data (Wal_Commit t) = False"
| "is_data (Wal_Abort t) = False"

definition committed_data :: "wal_op list \<Rightarrow> wal_entry list" where
  "committed_data ops =
     map op_entry (filter (\<lambda>x. is_data x \<and> committed_in ops (we_txn_id (op_entry x))) ops)"

definition marker_table :: "wal_op list \<Rightarrow> (i32 \<rightharpoonup> bool)" where
  "marker_table ops = foldl mark Map.empty (map op_entry ops)"

lemma marker_table_snoc:
  "marker_table (ops @ [x]) =
     (case x of Wal_Data t d \<Rightarrow> marker_table ops
      | Wal_Commit t \<Rightarrow> (marker_table ops)(t \<mapsto> True)
      | Wal_Abort t \<Rightarrow> (marker_table ops)(t \<mapsto> False))"
  by (cases x) (simp_all add: marker_table_def mark_def)

lemma marker_table_committed: "marker_table ops t = Some True \<longleftrightarrow> committed_in ops t"
proof (induction ops rule: rev_induct)
  case Nil
  then show ?case by (simp add: marker_table_def committed_in_def)
next
  case (snoc x ops)
  then show ?case by (cases x) (auto simp: marker_table_snoc committed_in_def)
qed

lemma replayable_op:
  "replayable (marker_table ops) (op_entry x) \<longleftrightarrow>
     is_data x \<and> committed_in ops (we_txn_id (op_entry x))"
  by (cases x) (simp_all add: replayable_def marker_table_committed)

lemma committed_data_replay:
  "filter (replayable (marker_table ops)) (map op_entry ops) = committed_data ops"
  by (simp add: committed_data_def filter_map comp_def replayable_op)

lemma wal_step_file:
  "wal_file (wal_step w x) =
     Some ((case wal_file w of None \<Rightarrow> [] | Some bs \<Rightarrow> bs) @ encode_entry (op_entry x))"
  by (cases x) (simp_all add: write_data_def write_commit_def write_abort_def wal_append_def Let_def)

lemma wal_step_table:
  "committed_txns (wal_step w x) = mark (committed_txns w) (op_entry x)"
  by (cases x) (simp_all add: write_data_def write_commit_def write_abort_def wal_append_def
      mark_def Let_def)

text \<open>A manager after a history holds exactly the image of the history and its markers.\<close>

lemma run_wal_state:
  "run_steps wal_step wal_new ops =
     \<lparr>wal_file = (if ops = [] then None else Some (wal_bytes ops)),
      committed_txns = marker_table ops\<rparr>"
proof (induction ops rule: rev_induct)
  case Nil
  then show ?case by (simp add: wal_new_def marker_table_def)
next
  case (snoc x ops)
  let ?w = "run_steps wal_step wal_new ops"
  have "wal_file (wal_step ?w x) = Some (wal_bytes (ops @ [x]))"
    by (simp add: wal_step_file snoc wal_bytes_def)
  moreover have "committed_txns (wal_step ?w x) = marker_table (ops @ [x])"
    by (simp add: wal_step_table snoc marker_table_def)
  ultimately show ?case
    by (simp add: run_steps_append wal_manager.equality)
qed

lemma recover_of_scan:
  assumes "wal_scan bs = Some (map op_entry ops)"
  shows "recover \<lparr>wal_file = Some bs, committed_txns = cm\<rparr> =
    Some (committed_data ops, \<lparr>wal_file = Some bs, committed_txns = marker_table ops\<rparr>)"
  using assms
  by (simp add: recover_scan Let_def committed_data_replay marker_table_def [symmetric])

lemma ops_fit_entries: "ops_fit ops \<Longrightarrow> \<forall>e\<in>set (map op_entry ops). entry_fits e"
  by (auto simp: ops_fit_def list_all_iff)

section \<open>Recovery\<close>

text \<open>
  C1. Recovery of an intact log: after any history of \<open>write_data\<close>, \<open>write_commit\<close> and
  \<open>write_abort\<close> whose records fit the format, \<open>recover\<close> returns, in log order, exactly the
  data records of the transactions whose last marker is a commit, and rebuilds the commit
  table the writer had in memory.
\<close>

theorem recover_exact:
  assumes "ops_fit ops"
  shows "recover (run_steps wal_step wal_new ops) =
    Some (committed_data ops, run_steps wal_step wal_new ops)"
proof (cases "ops = []")
  case True
  then show ?thesis
    by (simp add: recover_def wal_new_def committed_data_def)
next
  case False
  have "wal_scan (wal_bytes ops) = Some (map op_entry ops)"
    unfolding wal_bytes_def by (rule wal.scan_concat [OF ops_fit_entries [OF assms]])
  with False show ?thesis by (simp add: run_wal_state recover_of_scan)
qed

theorem recover_exact_witness:
  "recover (run_steps wal_step wal_new [Wal_Data 1 [65], Wal_Data 2 [66], Wal_Commit 1]) =
    Some ([\<lparr>we_txn_id = 1, we_entry_type = 1, we_data = [65]\<rparr>],
      run_steps wal_step wal_new [Wal_Data 1 [65], Wal_Data 2 [66], Wal_Commit 1])"
proof -
  let ?ops = "[Wal_Data 1 [65], Wal_Data 2 [66], Wal_Commit 1]"
  have "ops_fit ?ops" by (simp add: ops_fit_def entry_fits_def)
  moreover have "committed_data ?ops = [\<lparr>we_txn_id = 1, we_entry_type = 1, we_data = [65]\<rparr>]"
    by (simp add: committed_data_def committed_in_def)
  ultimately show ?thesis using recover_exact [of ?ops] by simp
qed

text \<open>
  C2. Crash during a write: when the log is cut after \<open>k\<close> bytes, recovery is defined and
  gives what it would have given after the history of the \<open>m\<close> records that are complete in
  these \<open>k\<close> bytes; \<open>m\<close> is the greatest such number. In particular a commit whose marker is
  completely in the log survives, and a torn record is ignored.
\<close>

theorem recover_torn:
  assumes "ops_fit ops"
  shows "\<exists>m \<le> length ops.
    recover \<lparr>wal_file = Some (take k (wal_bytes ops)), committed_txns = cm\<rparr> =
      Some (committed_data (take m ops),
            \<lparr>wal_file = Some (take k (wal_bytes ops)), committed_txns = marker_table (take m ops)\<rparr>)
    \<and> length (wal_bytes (take m ops)) \<le> k
    \<and> (m < length ops \<longrightarrow> k < length (wal_bytes (take (Suc m) ops)))"
proof -
  obtain m where m: "m \<le> length ops"
    "wal_scan (take k (wal_bytes ops)) = Some (take m (map op_entry ops))"
    "length (concat (map encode_entry (take m (map op_entry ops)))) \<le> k"
    "m < length ops \<longrightarrow> k < length (concat (map encode_entry (take (Suc m) (map op_entry ops))))"
    using wal.scan_torn [OF ops_fit_entries [OF assms], of k] by (auto simp: wal_bytes_def)
  then show ?thesis
    by (intro exI [of _ m]) (simp add: recover_of_scan take_map wal_bytes_def)
qed

theorem recover_torn_witness:
  "\<exists>m \<le> 2.
    recover \<lparr>wal_file = Some (take 20 (wal_bytes [Wal_Data 1 [65], Wal_Commit 1])),
             committed_txns = Map.empty\<rparr> =
      Some (committed_data (take m [Wal_Data 1 [65], Wal_Commit 1]),
            \<lparr>wal_file = Some (take 20 (wal_bytes [Wal_Data 1 [65], Wal_Commit 1])),
             committed_txns = marker_table (take m [Wal_Data 1 [65], Wal_Commit 1])\<rparr>)
    \<and> length (wal_bytes (take m [Wal_Data 1 [65], Wal_Commit 1])) \<le> 20
    \<and> (m < 2 \<longrightarrow> 20 < length (wal_bytes (take (Suc m) [Wal_Data 1 [65], Wal_Commit 1])))"
proof -
  have "ops_fit [Wal_Data 1 [65], Wal_Commit 1]" by (simp add: ops_fit_def entry_fits_def)
  from recover_torn [OF this, of 20 Map.empty] show ?thesis by (simp add: numeral_2_eq_2)
qed

lemma decode_entry_wrap:
  assumes "2 ^ 32 \<le> 12 + unat len" and "length tail < unat len"
  shows "decode_entry (le32 t @ le32 ty @ le32 len @ tail) = Dec_UB"
proof -
  have "unat (12 + len) = (12 + unat len) mod 2 ^ 32"
    by (simp add: unat_word_ariths)
  also have "\<dots> = (12 + unat len - 2 ^ 32) mod 2 ^ 32"
    using assms(1) by (rule le_mod_geq)
  also have "\<dots> \<le> 12 + unat len - 2 ^ 32" by (rule mod_less_eq_dividend)
  also have "\<dots> = 12 + unat len - 4294967296" by simp
  also have "\<dots> < 12" using unat_u32_less [of len] by linarith
  finally have "unat (12 + len) < 12" .
  with assms(2) show ?thesis by (simp add: decode_entry_def Let_def)
qed

text \<open>
  A corrupted length field: when the log contains, after any well-formed history, a
  record header whose length is within 12 of \<open>2 ^ 32\<close>, the bounds check of
  \<open>decode_entry\<close> wraps around, and recovery reads outside its buffer (no defined result)
  unless that many bytes really follow.
\<close>

theorem recover_length_wrap:
  assumes "ops_fit ops" and "2 ^ 32 \<le> 12 + unat len" and "length tail < unat len"
  shows "recover \<lparr>wal_file = Some (wal_bytes ops @ le32 t @ le32 ty @ le32 len @ tail),
                  committed_txns = cm\<rparr> = None"
proof -
  let ?h = "le32 t @ le32 ty @ le32 len @ tail"
  have "?h \<noteq> []" using length_le32 [of t] by fastforce
  then have "wal_scan ?h = None"
    by (subst wal_scan.simps) (simp add: decode_entry_wrap [OF assms(2,3)])
  then have "wal_scan (wal_bytes ops @ ?h) = None"
    unfolding wal_bytes_def
    using wal.scan_concat_app [OF ops_fit_entries [OF assms(1)], of ?h] by simp
  then show ?thesis by (simp add: recover_scan)
qed

theorem recover_length_wrap_witness:
  "recover \<lparr>wal_file = Some (wal_bytes [Wal_Commit 7] @ le32 9 @ le32 1 @ le32 0xFFFFFFFF @ []),
            committed_txns = Map.empty\<rparr> = None"
  by (rule recover_length_wrap) (simp_all add: ops_fit_def entry_fits_def)

section \<open>Writing on after a crash\<close>

text \<open>
  \<open>recover\<close> does not cut a torn record off, and the writers open the file for appending, so a manager
  that goes on after a crash writes behind the torn bytes.
\<close>

lemma run_wal_from:
  "run_steps wal_step \<lparr>wal_file = Some bs, committed_txns = cm\<rparr> ops =
     \<lparr>wal_file = Some (bs @ wal_bytes ops), committed_txns = foldl mark cm (map op_entry ops)\<rparr>"
proof (induction ops rule: rev_induct)
  case Nil
  then show ?case by (simp add: wal_bytes_def)
next
  case (snoc x ops)
  let ?w = "\<lparr>wal_file = Some (bs @ wal_bytes ops), committed_txns = foldl mark cm (map op_entry ops)\<rparr>"
  have "wal_file (wal_step ?w x) = Some (bs @ wal_bytes (ops @ [x]))"
    by (simp add: wal_step_file wal_bytes_def)
  then show ?case
    by (simp add: run_steps_append snoc wal_manager.equality wal_step_table)
qed

text \<open>The length field of the torn record reaches into what is written later.\<close>

lemma decode_overlong:
  assumes "entry_fits e" "12 \<le> k" "k + length bs < length (encode_entry e)"
  shows "decode_entry (take k (encode_entry e) @ bs) = Dec_Fail"
proof -
  have "rd32 (drop 8 (take k (encode_entry e) @ bs)) = word_of_nat (length (we_data e))"
    using assms(2,3) rd32_take [of 4 "drop 8 (take k (encode_entry e))"]
      rd32_take [of 4 "drop 8 (take k (encode_entry e) @ bs)"] header_rd32_take [OF assms(2), of e]
    by (simp add: min_def)
  with assms show ?thesis
    by (simp add: decode_entry_def Let_def entry_fits_len length_encode_entry del: drop_append)
qed

text \<open>
  C3. Restart after a crash. When the crash left only complete records, recovery after a second
  history returns the committed data of both histories. When it left a torn record with its
  header, then as long as what is written later is shorter than the part of that record that is
  missing, recovery returns what was committed before the crash and nothing of the second history,
  whatever that history committed.
\<close>

theorem recover_after_restart:
  assumes "ops_fit h1" "ops_fit h2" "entry_fits e"
    and w: "w = run_steps wal_step
      \<lparr>wal_file = Some (wal_bytes h1 @ take k (encode_entry e)), committed_txns = cm\<rparr> h2"
  shows "(k = 0 \<longrightarrow> map_option fst (recover w) = Some (committed_data (h1 @ h2))) \<and>
    (12 \<le> k \<and> k + length (wal_bytes h2) < length (encode_entry e) \<longrightarrow>
       map_option fst (recover w) = Some (committed_data h1))"
proof -
  let ?tail = "take k (encode_entry e) @ wal_bytes h2"
  have state: "w = \<lparr>wal_file = Some (wal_bytes h1 @ ?tail), committed_txns = foldl mark cm (map op_entry h2)\<rparr>"
    by (simp add: w run_wal_from)
  have scan: "wal_scan (wal_bytes h1 @ ?tail) = map_option ((@) (map op_entry h1)) (wal_scan ?tail)"
    unfolding wal_bytes_def [of h1] by (rule wal.scan_concat_app [OF ops_fit_entries [OF assms(1)]])
  have "map_option fst (recover w) = Some (committed_data (h1 @ h2))" if "k = 0"
  proof -
    have "wal_scan (wal_bytes h2) = Some (map op_entry h2)"
      unfolding wal_bytes_def by (rule wal.scan_concat [OF ops_fit_entries [OF assms(2)]])
    with scan that have "wal_scan (wal_bytes h1 @ ?tail) = Some (map op_entry (h1 @ h2))" by simp
    from recover_of_scan [OF this] state show ?thesis by simp
  qed
  moreover have "map_option fst (recover w) = Some (committed_data h1)"
    if "12 \<le> k" "k + length (wal_bytes h2) < length (encode_entry e)"
  proof -
    have "wal_scan ?tail = Some []"
      by (subst wal_scan.simps) (simp add: decode_overlong [OF assms(3) that])
    with scan have "wal_scan (wal_bytes h1 @ ?tail) = Some (map op_entry h1)" by simp
    from recover_of_scan [OF this] state show ?thesis by simp
  qed
  ultimately show ?thesis by blast
qed

theorem recover_after_restart_witness:
  "map_option fst (recover (run_steps wal_step
      \<lparr>wal_file = Some (wal_bytes [Wal_Data 1 [65], Wal_Commit 1] @
         take 15 (encode_entry (op_entry (Wal_Data 2 (replicate 40 66))))), committed_txns = Map.empty\<rparr>
      [Wal_Data 3 [67], Wal_Commit 3])) = Some [\<lparr>we_txn_id = 1, we_entry_type = 1, we_data = [65]\<rparr>]"
proof -
  let ?h1 = "[Wal_Data 1 [65], Wal_Commit 1]" and ?h2 = "[Wal_Data 3 [67], Wal_Commit 3]"
  have "ops_fit ?h1" "ops_fit ?h2" "entry_fits (op_entry (Wal_Data 2 (replicate 40 66)))"
    by (simp_all add: ops_fit_def entry_fits_def)
  from recover_after_restart [OF this refl, of 15 Map.empty]
  show ?thesis by (simp add: wal_bytes_def length_encode_entry committed_data_def committed_in_def)
qed

section \<open>The schema registry of the same file\<close>

text \<open>
  \<open>files\<close> is the file system as far as \<open>persist_schema\<close> writes it: one file per table
  with one column name per line. \<open>reload_schema\<close> only clears the registry.
\<close>

type_synonym schema_registry = "(string, string list) omap"

definition sr_create_table ::
  "string \<Rightarrow> string list \<Rightarrow> schema_registry \<Rightarrow> bool \<times> schema_registry" where
  "sr_create_table table cols sr = (True, omap_insert table cols sr)"

definition sr_get_schema :: "string \<Rightarrow> schema_registry \<Rightarrow> string list option" where
  "sr_get_schema table sr = map_of sr table"

definition sr_persist_schema ::
  "string \<Rightarrow> schema_registry \<Rightarrow> (string \<rightharpoonup> string) \<Rightarrow> bool \<times> (string \<rightharpoonup> string)" where
  "sr_persist_schema dir sr files =
     (True, foldl (\<lambda>fs (table, cols).
        fs(dir @ ''/'' @ table @ ''.schema'' \<mapsto> concat (map (\<lambda>c. c @ [CHR 0x0A]) cols))) files sr)"

definition sr_reload_schema ::
  "string \<Rightarrow> (string \<rightharpoonup> string) \<Rightarrow> schema_registry \<Rightarrow> bool \<times> schema_registry" where
  "sr_reload_schema dir files sr = (True, [])"

end
