(* ===== verification/Wal_Readers.thy ===== *)
theory Wal_Readers
  imports Dbx4_Prelude
begin

text \<open>
  The stream readers of the framed log: \<open>HardenedWALParser\<close>
  (\<open>src/recovery_wal_hardened.cpp\<close>), \<open>QueryExecutor::recover_from_wal\<close>
  (\<open>src/query_executor.cpp\<close> and \<open>src/query_executor_public_api.cpp\<close>),
  \<open>TransactionIntegrityVerifier\<close> (\<open>src/transaction_integrity_e2e.cpp\<close>) and
  \<open>RobustWALCodec\<close> (\<open>src/wal_codec_robust.cpp\<close>). A file is a byte list, \<open>None\<close> when it
  cannot be opened. The \<open>int\<close> counters of the parser and of the public interface are 32-bit
  words that the code reads as signed; a signed overflow, undefined in C++, is a wrap-around
  here, and theorems that read a counter as a number assume a file below 2 GiB, where there is
  none. The counters of the verifier, which count transactions, are natural numbers: they would
  overflow only on a log of more than \<open>2 ^ 31\<close> frames. All four framed readers are shown to compute the same function of the
  bytes, the grammar \<open>log_entries\<close>.
\<close>

section \<open>The frame grammar\<close>

definition MAX_ENTRY_SIZE :: nat where
  "MAX_ENTRY_SIZE = 65536"

record raw_entry =
  raw_txn :: u32
  raw_committed :: u32
  raw_data :: bytes

abbreviation hdr_len :: "bytes \<Rightarrow> nat" where
  "hdr_len bs \<equiv> unat (rd32 (take 4 (drop 8 bs)))"

definition hdr_entry :: "bytes \<Rightarrow> raw_entry" where
  "hdr_entry bs = \<lparr>raw_txn = rd32 (take 4 bs), raw_committed = rd32 (take 4 (drop 4 bs)),
     raw_data = take (hdr_len bs) (drop 12 bs)\<rparr>"

text \<open>
  A frame is a 12-byte header and its payload. A header that announces more than
  \<open>MAX_ENTRY_SIZE\<close> bytes is skipped (the header only); a frame that is not complete ends
  the log.
\<close>

function log_entries :: "bytes \<Rightarrow> raw_entry list" where
  "log_entries bs =
     (if length bs < 12 then []
      else if MAX_ENTRY_SIZE < hdr_len bs then log_entries (drop 12 bs)
      else if length bs < 12 + hdr_len bs then []
      else hdr_entry bs # log_entries (drop (12 + hdr_len bs) bs))"
  by pat_completeness auto
termination
  by (relation "measure length") auto

declare log_entries.simps [simp del]

definition read_u32 :: "istream \<Rightarrow> u32 option \<times> istream" where
  "read_u32 s = (case stream_read 4 s of (b, s') \<Rightarrow> (map_option rd32 b, s'))"

lemma read_u32_open:
  "read_u32 (stream_open bs) =
     (if 4 \<le> length bs then (Some (rd32 (take 4 bs)), stream_open (drop 4 bs))
      else (None, \<lparr>in_rest = [], in_good = False\<rparr>))"
  by (simp add: read_u32_def stream_read_def stream_open_def)

lemma stream_read_open:
  "stream_read n (stream_open bs) =
     (if n \<le> length bs then (Some (take n bs), stream_open (drop n bs))
      else (None, \<lparr>in_rest = [], in_good = False\<rparr>))"
  by (simp add: stream_read_def stream_open_def)

lemma read_u32_shrinks:
  "read_u32 s = (Some w, s') \<Longrightarrow> length (in_rest s') + 4 = length (in_rest s)"
  by (auto simp: read_u32_def stream_read_def split: if_splits)

lemma read_u32_le: "read_u32 s = (r, s') \<Longrightarrow> length (in_rest s') \<le> length (in_rest s)"
  by (auto simp: read_u32_def stream_read_def split: if_splits)

lemma stream_read_le: "stream_read n s = (r, s') \<Longrightarrow> length (in_rest s') \<le> length (in_rest s)"
  by (auto simp: stream_read_def split: if_splits)

lemmas read_shrinks = read_u32_shrinks [OF sym] stream_read_le [OF sym]

text \<open>
  What a reader of the frame grammar is: how its loop treats a short header, an oversized
  header, a torn payload and a complete frame. \<open>view\<close> is the part of its result that
  depends on the frames, \<open>emit\<close> what one complete frame adds to it.
\<close>

locale framed_reader =
  fixes loop :: "istream \<Rightarrow> 'r \<Rightarrow> 'r"
    and view :: "'r \<Rightarrow> 'v"
    and emit :: "'v \<Rightarrow> raw_entry \<Rightarrow> 'v"
  assumes short: "length bs < 12 \<Longrightarrow> view (loop (stream_open bs) r) = view r"
    and oversize: "12 \<le> length bs \<Longrightarrow> MAX_ENTRY_SIZE < hdr_len bs \<Longrightarrow>
      \<exists>r'. loop (stream_open bs) r = loop (stream_open (drop 12 bs)) r' \<and> view r' = view r"
    and torn: "12 \<le> length bs \<Longrightarrow> hdr_len bs \<le> MAX_ENTRY_SIZE \<Longrightarrow>
      length bs < 12 + hdr_len bs \<Longrightarrow> view (loop (stream_open bs) r) = view r"
    and complete: "12 + hdr_len bs \<le> length bs \<Longrightarrow> hdr_len bs \<le> MAX_ENTRY_SIZE \<Longrightarrow>
      \<exists>r'. loop (stream_open bs) r = loop (stream_open (drop (12 + hdr_len bs) bs)) r'
        \<and> view r' = emit (view r) (hdr_entry bs)"
begin

lemma loop_log_entries:
  "view (loop (stream_open bs) r) = foldl emit (view r) (log_entries bs)"
proof (induction bs arbitrary: r rule: log_entries.induct)
  case (1 bs)
  consider "length bs < 12"
    | "12 \<le> length bs" "MAX_ENTRY_SIZE < hdr_len bs"
    | "12 \<le> length bs" "hdr_len bs \<le> MAX_ENTRY_SIZE" "length bs < 12 + hdr_len bs"
    | "hdr_len bs \<le> MAX_ENTRY_SIZE" "12 + hdr_len bs \<le> length bs"
    by linarith
  then show ?case
  proof cases
    case 1
    then show ?thesis by (simp add: log_entries.simps [of bs] short)
  next
    case 2
    obtain r' where "loop (stream_open bs) r = loop (stream_open (drop 12 bs)) r'"
      "view r' = view r" using oversize [OF 2, of r] by blast
    moreover have "view (loop (stream_open (drop 12 bs)) r') =
        foldl emit (view r') (log_entries (drop 12 bs))"
      using 2 by (intro "1.IH"(1)) auto
    ultimately show ?thesis using 2 by (simp add: log_entries.simps [of bs])
  next
    case 3
    then show ?thesis by (simp add: log_entries.simps [of bs] torn)
  next
    case 4
    let ?bs' = "drop (12 + hdr_len bs) bs"
    obtain r' where "loop (stream_open bs) r = loop (stream_open ?bs') r'"
      "view r' = emit (view r) (hdr_entry bs)" using complete [OF 4(2,1), of r] by blast
    moreover have "view (loop (stream_open ?bs') r') = foldl emit (view r') (log_entries ?bs')"
      using 4 by (intro "1.IH"(2)) auto
    ultimately show ?thesis using 4 by (simp add: log_entries.simps [of bs])
  qed
qed

end

text \<open>The six situations a loop of a reader can find at the front of the stream.\<close>

lemma frame_cases:
  fixes bs :: bytes
  obtains (nothing) "length bs < 4" | (one) "4 \<le> length bs" "length bs < 8"
    | (two) "8 \<le> length bs" "length bs < 12"
    | (oversized) "12 \<le> length bs" "MAX_ENTRY_SIZE < hdr_len bs"
    | (torn) "12 \<le> length bs" "hdr_len bs \<le> MAX_ENTRY_SIZE" "length bs < 12 + hdr_len bs"
    | (empty) "12 \<le> length bs" "hdr_len bs = 0"
    | (full) "12 \<le> length bs" "0 < hdr_len bs" "hdr_len bs \<le> MAX_ENTRY_SIZE"
        "12 + hdr_len bs \<le> length bs"
  by linarith

lemma hdr_len_word:
  "12 + hdr_len bs \<le> length bs \<Longrightarrow>
     (word_of_nat (length (take (hdr_len bs) (drop 12 bs))) :: u32) = rd32 (take 4 (drop 8 bs))"
  by (simp add: min_absorb2)

lemma header_reads:
  assumes "12 \<le> length bs"
  shows "read_u32 (stream_open bs) = (Some (rd32 (take 4 bs)), stream_open (drop 4 bs))"
    and "read_u32 (stream_open (drop 4 bs)) =
      (Some (rd32 (take 4 (drop 4 bs))), stream_open (drop 8 bs))"
    and "read_u32 (stream_open (drop 8 bs)) =
      (Some (rd32 (take 4 (drop 8 bs))), stream_open (drop 12 bs))"
  using assms by (simp_all add: read_u32_open)

lemma payload_reads:
  "12 + hdr_len bs \<le> length bs \<Longrightarrow> stream_read (hdr_len bs) (stream_open (drop 12 bs)) =
     (Some (take (hdr_len bs) (drop 12 bs)), stream_open (drop (12 + hdr_len bs) bs))"
  "12 \<le> length bs \<Longrightarrow> length bs < 12 + hdr_len bs \<Longrightarrow> stream_read (hdr_len bs) (stream_open (drop 12 bs)) =
     (None, \<lparr>in_rest = [], in_good = False\<rparr>)"
  by (auto simp: stream_read_open add.commute)

lemma header_reads_short:
  "length bs < 4 \<Longrightarrow> read_u32 (stream_open bs) = (None, \<lparr>in_rest = [], in_good = False\<rparr>)"
  "4 \<le> length bs \<Longrightarrow> read_u32 (stream_open bs) =
     (Some (rd32 (take 4 bs)), stream_open (drop 4 bs))"
  "4 \<le> length bs \<Longrightarrow> length bs < 8 \<Longrightarrow>
     read_u32 (stream_open (drop 4 bs)) = (None, \<lparr>in_rest = [], in_good = False\<rparr>)"
  "8 \<le> length bs \<Longrightarrow> read_u32 (stream_open (drop 4 bs)) =
     (Some (rd32 (take 4 (drop 4 bs))), stream_open (drop 8 bs))"
  "8 \<le> length bs \<Longrightarrow> length bs < 12 \<Longrightarrow>
     read_u32 (stream_open (drop 8 bs)) = (None, \<lparr>in_rest = [], in_good = False\<rparr>)"
  by (auto simp: read_u32_open)

lemma hdr_entry_sel:
  "raw_txn (hdr_entry bs) = rd32 (take 4 bs)"
  "raw_committed (hdr_entry bs) = rd32 (take 4 (drop 4 bs))"
  "raw_data (hdr_entry bs) = take (hdr_len bs) (drop 12 bs)"
  by (simp_all add: hdr_entry_def)

lemmas frame_simps = Let_def MAX_ENTRY_SIZE_def hdr_entry_sel hdr_len_word

section \<open>HardenedWALParser\<close>

record hard_entry =
  he_txn_id :: u32
  he_is_committed :: u32
  he_data_len :: u32
  he_data :: bytes
  he_is_valid :: bool
  he_checksum :: u32

record parse_result =
  entries :: "hard_entry list"
  recovered_entries :: i32
  skipped_corrupted :: i32
  total_bytes_read :: i32
  has_corruption :: bool

definition calculate_checksum :: "bytes \<Rightarrow> u32" where
  "calculate_checksum d = foldl (\<lambda>c b. xor (push_bit 5 c + c) (ucast b)) 0 d"

definition count_bytes :: "u32 \<Rightarrow> parse_result \<Rightarrow> parse_result" where
  "count_bytes n r = r\<lparr>total_bytes_read := total_bytes_read r + n\<rparr>"

definition count_corrupt :: "parse_result \<Rightarrow> parse_result" where
  "count_corrupt r = r\<lparr>skipped_corrupted := skipped_corrupted r + 1, has_corruption := True\<rparr>"

definition add_entry :: "hard_entry \<Rightarrow> parse_result \<Rightarrow> parse_result" where
  "add_entry e r = r\<lparr>entries := entries r @ [e], recovered_entries := recovered_entries r + 1\<rparr>"

function hard_loop :: "istream \<Rightarrow> parse_result \<Rightarrow> parse_result" where
  "hard_loop s r =
     (if \<not> in_good s then r
      else case read_u32 s of
        (None, s1) \<Rightarrow> r
      | (Some txn, s1) \<Rightarrow>
          let r1 = count_bytes 4 r in
          (case read_u32 s1 of
             (None, s2) \<Rightarrow> count_corrupt r1
           | (Some com, s2) \<Rightarrow>
               let r2 = count_bytes 4 r1 in
               (case read_u32 s2 of
                  (None, s3) \<Rightarrow> count_corrupt r2
                | (Some len, s3) \<Rightarrow>
                    let r3 = count_bytes 4 r2 in
                    if MAX_ENTRY_SIZE < unat len then hard_loop s3 (count_corrupt r3)
                    else
                      (case (if 0 < unat len then stream_read (unat len) s3 else (Some [], s3)) of
                         (None, s4) \<Rightarrow> hard_loop s4 (count_corrupt r3)
                       | (Some d, s4) \<Rightarrow>
                           hard_loop s4
                             (add_entry
                                \<lparr>he_txn_id = txn, he_is_committed = com, he_data_len = len,
                                 he_data = d, he_is_valid = True,
                                 he_checksum = calculate_checksum d\<rparr>
                                (count_bytes len r3))))))"
  by pat_completeness auto
termination
  by (relation "measure (\<lambda>(s, r). length (in_rest s))")
    (auto dest!: read_shrinks split: if_splits)

declare hard_loop.simps [simp del]

definition parse_init :: parse_result where
  "parse_init = \<lparr>entries = [], recovered_entries = 0, skipped_corrupted = 0,
     total_bytes_read = 0, has_corruption = False\<rparr>"

definition parse_wal_hardened :: "bytes option \<Rightarrow> parse_result" where
  "parse_wal_hardened wal =
     (case wal of None \<Rightarrow> parse_init | Some bs \<Rightarrow> hard_loop (stream_open bs) parse_init)"

definition hard_of_raw :: "raw_entry \<Rightarrow> hard_entry" where
  "hard_of_raw e =
     \<lparr>he_txn_id = raw_txn e, he_is_committed = raw_committed e,
      he_data_len = word_of_nat (length (raw_data e)), he_data = raw_data e,
      he_is_valid = True, he_checksum = calculate_checksum (raw_data e)\<rparr>"

text \<open>One iteration of the loop on the bytes that are left.\<close>

lemma good_open [simp]: "in_good (stream_open bs)" "in_rest (stream_open bs) = bs"
  by (simp_all add: stream_open_def)

lemma hard_loop_failed: "hard_loop \<lparr>in_rest = [], in_good = False\<rparr> r = r"
  by (simp add: hard_loop.simps)

lemma hard_loop_open:
  "hard_loop (stream_open bs) r =
     (if length bs < 4 then r
      else if length bs < 8 then count_corrupt (count_bytes 4 r)
      else if length bs < 12 then count_corrupt (count_bytes 4 (count_bytes 4 r))
      else
        let r3 = count_bytes 4 (count_bytes 4 (count_bytes 4 r)) in
        if MAX_ENTRY_SIZE < hdr_len bs
        then hard_loop (stream_open (drop 12 bs)) (count_corrupt r3)
        else if length bs < 12 + hdr_len bs then count_corrupt r3
        else hard_loop (stream_open (drop (12 + hdr_len bs) bs))
               (add_entry (hard_of_raw (hdr_entry bs)) (count_bytes (word_of_nat (hdr_len bs)) r3)))"
proof (cases bs rule: frame_cases)
  case oversized
  then show ?thesis by (subst hard_loop.simps) (simp add: frame_simps header_reads hard_loop_failed hard_of_raw_def)
next
  case torn
  then show ?thesis
    by (subst hard_loop.simps) (simp add: frame_simps header_reads payload_reads hard_loop_failed hard_of_raw_def)
next
  case empty
  then have "rd32 (take 4 (drop 8 bs)) = 0" by (simp add: unat_eq_zero)
  with empty show ?thesis by (subst hard_loop.simps) (simp add: frame_simps header_reads hard_loop_failed hard_of_raw_def)
next
  case full
  then show ?thesis
    by (subst hard_loop.simps) (simp add: frame_simps header_reads payload_reads hard_loop_failed hard_of_raw_def)
qed (subst hard_loop.simps, simp add: header_reads_short Let_def)+

lemma entries_count [simp]:
  "entries (count_bytes n r) = entries r" "entries (count_corrupt r) = entries r"
  "entries (add_entry e r) = entries r @ [e]"
  by (simp_all add: count_bytes_def count_corrupt_def add_entry_def)

interpretation hard: framed_reader hard_loop entries "\<lambda>es e. es @ [hard_of_raw e]"
proof unfold_locales
  fix bs :: bytes and r :: parse_result
  show "length bs < 12 \<Longrightarrow> entries (hard_loop (stream_open bs) r) = entries r"
    by (subst hard_loop_open) (simp add: Let_def)
  show "\<exists>r'. hard_loop (stream_open bs) r = hard_loop (stream_open (drop 12 bs)) r'
      \<and> entries r' = entries r"
    if "12 \<le> length bs" "MAX_ENTRY_SIZE < hdr_len bs"
    using that
    by (intro exI [of _ "count_corrupt (count_bytes 4 (count_bytes 4 (count_bytes 4 r)))"])
      (subst hard_loop_open, simp add: Let_def)
  show "entries (hard_loop (stream_open bs) r) = entries r"
    if "12 \<le> length bs" "hdr_len bs \<le> MAX_ENTRY_SIZE" "length bs < 12 + hdr_len bs"
    using that by (subst hard_loop_open) (simp add: Let_def)
  show "\<exists>r'. hard_loop (stream_open bs) r = hard_loop (stream_open (drop (12 + hdr_len bs) bs)) r'
      \<and> entries r' = entries r @ [hard_of_raw (hdr_entry bs)]"
    if "12 + hdr_len bs \<le> length bs" "hdr_len bs \<le> MAX_ENTRY_SIZE"
    using that
    by (intro exI [of _ "add_entry (hard_of_raw (hdr_entry bs)) (count_bytes (word_of_nat (hdr_len bs))
          (count_bytes 4 (count_bytes 4 (count_bytes 4 r))))"])
      (subst hard_loop_open, simp add: Let_def)
qed

lemma foldl_snoc_map: "foldl (\<lambda>es e. es @ [f e]) acc xs = acc @ map f xs"
  by (induction xs arbitrary: acc) auto

lemma hard_entries: "entries (hard_loop (stream_open bs) r) = entries r @ map hard_of_raw (log_entries bs)"
  by (simp add: hard.loop_log_entries foldl_snoc_map)

section \<open>QueryExecutor::recover_from_wal\<close>

text \<open>
  The loop of \<open>src/query_executor.cpp\<close>: the identifiers of the committed transactions are
  collected in \<open>committed_tx_ids\<close>.
\<close>

function qe_recover_loop :: "istream \<Rightarrow> u32 set \<Rightarrow> u32 set" where
  "qe_recover_loop s ids =
     (case read_u32 s of
        (None, s1) \<Rightarrow> ids
      | (Some txn, s1) \<Rightarrow>
          (case read_u32 s1 of
             (None, s2) \<Rightarrow> ids
           | (Some com, s2) \<Rightarrow>
               (case read_u32 s2 of
                  (None, s3) \<Rightarrow> ids
                | (Some len, s3) \<Rightarrow>
                    if 65536 < unat len then qe_recover_loop s3 ids
                    else
                      (case (if 0 < unat len then stream_read (unat len) s3 else (Some [], s3)) of
                         (None, s4) \<Rightarrow> ids
                       | (Some d, s4) \<Rightarrow>
                           qe_recover_loop s4 (if com \<noteq> 0 then insert txn ids else ids)))))"
  by pat_completeness auto
termination
  by (relation "measure (\<lambda>(s, r). length (in_rest s))")
    (auto dest!: read_shrinks split: if_splits)

declare qe_recover_loop.simps [simp del]

definition qe_recover_from_wal :: "bytes option \<Rightarrow> u32 set \<Rightarrow> u32 set" where
  "qe_recover_from_wal wal ids =
     (case wal of None \<Rightarrow> ids | Some bs \<Rightarrow> qe_recover_loop (stream_open bs) ids)"

lemma qe_recover_loop_open:
  "qe_recover_loop (stream_open bs) ids =
     (if length bs < 12 then ids
      else if MAX_ENTRY_SIZE < hdr_len bs then qe_recover_loop (stream_open (drop 12 bs)) ids
      else if length bs < 12 + hdr_len bs then ids
      else qe_recover_loop (stream_open (drop (12 + hdr_len bs) bs))
             (if raw_committed (hdr_entry bs) \<noteq> 0 then insert (raw_txn (hdr_entry bs)) ids else ids))"
proof (cases bs rule: frame_cases)
  case oversized
  then show ?thesis by (subst qe_recover_loop.simps) (simp add: frame_simps header_reads )
next
  case torn
  then show ?thesis
    by (subst qe_recover_loop.simps) (simp add: frame_simps header_reads payload_reads )
next
  case empty
  then show ?thesis by (subst qe_recover_loop.simps) (simp add: frame_simps header_reads )
next
  case full
  then show ?thesis
    by (subst qe_recover_loop.simps) (simp add: frame_simps header_reads payload_reads )
qed (subst qe_recover_loop.simps, simp add: header_reads_short Let_def)+

definition emit_id :: "u32 set \<Rightarrow> raw_entry \<Rightarrow> u32 set" where
  "emit_id ids e = (if raw_committed e \<noteq> 0 then insert (raw_txn e) ids else ids)"

interpretation qe: framed_reader qe_recover_loop "\<lambda>ids. ids" emit_id
proof unfold_locales
  fix bs :: bytes and r :: "u32 set"
  show "length bs < 12 \<Longrightarrow> qe_recover_loop (stream_open bs) r = r"
    by (subst qe_recover_loop_open) simp
  show "\<exists>r'. qe_recover_loop (stream_open bs) r = qe_recover_loop (stream_open (drop 12 bs)) r'
      \<and> r' = r" if "12 \<le> length bs" "MAX_ENTRY_SIZE < hdr_len bs"
    using that by (subst qe_recover_loop_open) simp
  show "qe_recover_loop (stream_open bs) r = r"
    if "12 \<le> length bs" "hdr_len bs \<le> MAX_ENTRY_SIZE" "length bs < 12 + hdr_len bs"
    using that by (subst qe_recover_loop_open) simp
  show "\<exists>r'. qe_recover_loop (stream_open bs) r =
        qe_recover_loop (stream_open (drop (12 + hdr_len bs) bs)) r' \<and> r' = emit_id r (hdr_entry bs)"
    if "12 + hdr_len bs \<le> length bs" "hdr_len bs \<le> MAX_ENTRY_SIZE"
    using that by (subst qe_recover_loop_open) (simp add: emit_id_def)
qed

text \<open>
  The loop of \<open>src/query_executor_public_api.cpp\<close>: the committed frames are only counted
  (and reported on standard output).
\<close>

function api_recover_loop :: "istream \<Rightarrow> i32 \<Rightarrow> i32" where
  "api_recover_loop s recovered =
     (case read_u32 s of
        (None, s1) \<Rightarrow> recovered
      | (Some txn, s1) \<Rightarrow>
          (case read_u32 s1 of
             (None, s2) \<Rightarrow> recovered
           | (Some com, s2) \<Rightarrow>
               (case read_u32 s2 of
                  (None, s3) \<Rightarrow> recovered
                | (Some len, s3) \<Rightarrow>
                    if 65536 < unat len then api_recover_loop s3 recovered
                    else
                      (case (if 0 < unat len then stream_read (unat len) s3 else (Some [], s3)) of
                         (None, s4) \<Rightarrow> recovered
                       | (Some d, s4) \<Rightarrow>
                           api_recover_loop s4 (if com \<noteq> 0 then recovered + 1 else recovered)))))"
  by pat_completeness auto
termination
  by (relation "measure (\<lambda>(s, r). length (in_rest s))")
    (auto dest!: read_shrinks split: if_splits)

declare api_recover_loop.simps [simp del]

definition api_recover_from_wal :: "bytes option \<Rightarrow> i32" where
  "api_recover_from_wal wal =
     (case wal of None \<Rightarrow> 0 | Some bs \<Rightarrow> api_recover_loop (stream_open bs) 0)"

lemma api_recover_loop_open:
  "api_recover_loop (stream_open bs) n =
     (if length bs < 12 then n
      else if MAX_ENTRY_SIZE < hdr_len bs then api_recover_loop (stream_open (drop 12 bs)) n
      else if length bs < 12 + hdr_len bs then n
      else api_recover_loop (stream_open (drop (12 + hdr_len bs) bs))
             (if raw_committed (hdr_entry bs) \<noteq> 0 then n + 1 else n))"
proof (cases bs rule: frame_cases)
  case oversized
  then show ?thesis by (subst api_recover_loop.simps) (simp add: frame_simps header_reads )
next
  case torn
  then show ?thesis
    by (subst api_recover_loop.simps) (simp add: frame_simps header_reads payload_reads )
next
  case empty
  then show ?thesis by (subst api_recover_loop.simps) (simp add: frame_simps header_reads )
next
  case full
  then show ?thesis
    by (subst api_recover_loop.simps) (simp add: frame_simps header_reads payload_reads )
qed (subst api_recover_loop.simps, simp add: header_reads_short Let_def)+

definition emit_count :: "i32 \<Rightarrow> raw_entry \<Rightarrow> i32" where
  "emit_count n e = (if raw_committed e \<noteq> 0 then n + 1 else n)"

interpretation api: framed_reader api_recover_loop "\<lambda>n. n" emit_count
proof unfold_locales
  fix bs :: bytes and r :: i32
  show "length bs < 12 \<Longrightarrow> api_recover_loop (stream_open bs) r = r"
    by (subst api_recover_loop_open) simp
  show "\<exists>r'. api_recover_loop (stream_open bs) r = api_recover_loop (stream_open (drop 12 bs)) r'
      \<and> r' = r" if "12 \<le> length bs" "MAX_ENTRY_SIZE < hdr_len bs"
    using that by (subst api_recover_loop_open) simp
  show "api_recover_loop (stream_open bs) r = r"
    if "12 \<le> length bs" "hdr_len bs \<le> MAX_ENTRY_SIZE" "length bs < 12 + hdr_len bs"
    using that by (subst api_recover_loop_open) simp
  show "\<exists>r'. api_recover_loop (stream_open bs) r =
        api_recover_loop (stream_open (drop (12 + hdr_len bs) bs)) r' \<and> r' = emit_count r (hdr_entry bs)"
    if "12 + hdr_len bs \<le> length bs" "hdr_len bs \<le> MAX_ENTRY_SIZE"
    using that by (subst api_recover_loop_open) (simp add: emit_count_def)
qed

section \<open>TransactionIntegrityVerifier\<close>

record ver_txn =
  vt_txn_id :: u32
  vt_is_committed :: u32
  vt_writes :: bytes
  vt_write_count :: u32
  vt_is_valid :: bool

record integrity_result =
  total_txns :: nat
  committed_count :: nat
  uncommitted_count :: nat
  write_operations :: nat
  all_valid :: bool
  acid_properties_hold :: bool

text \<open>
  Phase 1 keeps the transaction map, \<open>write_operations\<close> and \<open>all_valid\<close>. A frame with a torn
  payload only clears \<open>all_valid\<close>; its transaction is never stored.
\<close>

record ver_state =
  vs_map :: "(u32, ver_txn) omap"
  vs_writes :: nat
  vs_all_valid :: bool

function ver_loop :: "istream \<Rightarrow> ver_state \<Rightarrow> ver_state" where
  "ver_loop s v =
     (if \<not> in_good s then v
      else case read_u32 s of
        (None, s1) \<Rightarrow> v
      | (Some txn, s1) \<Rightarrow>
          (case read_u32 s1 of
             (None, s2) \<Rightarrow> v
           | (Some com, s2) \<Rightarrow>
               (case read_u32 s2 of
                  (None, s3) \<Rightarrow> v
                | (Some len, s3) \<Rightarrow>
                    if 65536 < unat len then ver_loop s3 v
                    else if 0 < unat len then
                      (case stream_read (unat len) s3 of
                         (None, s4) \<Rightarrow> ver_loop s4 (v\<lparr>vs_all_valid := False\<rparr>)
                       | (Some d, s4) \<Rightarrow>
                           ver_loop s4 (v\<lparr>vs_writes := vs_writes v + 1,
                             vs_map := omap_insert txn
                               \<lparr>vt_txn_id = txn, vt_is_committed = com, vt_writes = d,
                                vt_write_count = len, vt_is_valid = True\<rparr> (vs_map v)\<rparr>))
                    else
                      ver_loop s3 (v\<lparr>vs_map := omap_insert txn
                        \<lparr>vt_txn_id = txn, vt_is_committed = com, vt_writes = [],
                         vt_write_count = len, vt_is_valid = True\<rparr> (vs_map v)\<rparr>))))"
  by pat_completeness auto
termination
  by (relation "measure (\<lambda>(s, r). length (in_rest s))")
    (auto dest!: read_shrinks split: if_splits)

declare ver_loop.simps [simp del]

text \<open>Phase 2: the loop over the map in key order.\<close>

definition ver_analyze :: "integrity_result \<Rightarrow> u32 \<times> ver_txn \<Rightarrow> integrity_result" where
  "ver_analyze r kv =
     (let r = r\<lparr>total_txns := total_txns r + 1\<rparr>; t = snd kv in
      if \<not> vt_is_valid t then r\<lparr>acid_properties_hold := False\<rparr>
      else if vt_is_committed t \<noteq> 0 then r\<lparr>committed_count := committed_count r + 1\<rparr>
      else r\<lparr>uncommitted_count := uncommitted_count r + 1\<rparr>)"

definition verify_transaction_integrity :: "bytes option \<Rightarrow> integrity_result" where
  "verify_transaction_integrity wal =
     (let r0 = \<lparr>total_txns = 0, committed_count = 0, uncommitted_count = 0,
                write_operations = 0, all_valid = True, acid_properties_hold = True\<rparr> in
      case wal of
        None \<Rightarrow> r0\<lparr>all_valid := False\<rparr>
      | Some bs \<Rightarrow>
          let v = ver_loop (stream_open bs) \<lparr>vs_map = [], vs_writes = 0, vs_all_valid = True\<rparr>;
              r = foldl ver_analyze
                    (r0\<lparr>write_operations := vs_writes v, all_valid := vs_all_valid v\<rparr>) (vs_map v);
              atomicity = (0 < write_operations r \<and> 0 < committed_count r);
              consistency = (total_txns r = committed_count r + uncommitted_count r);
              isolation = (length (vs_map v) = total_txns r);
              durability = (0 \<le> committed_count r)
          in r\<lparr>acid_properties_hold := (atomicity \<and> consistency \<and> isolation \<and> durability)\<rparr>)"

definition ver_of_raw :: "raw_entry \<Rightarrow> ver_txn" where
  "ver_of_raw e =
     \<lparr>vt_txn_id = raw_txn e, vt_is_committed = raw_committed e, vt_writes = raw_data e,
      vt_write_count = word_of_nat (length (raw_data e)), vt_is_valid = True\<rparr>"

definition emit_ver :: "(u32, ver_txn) omap \<times> nat \<Rightarrow> raw_entry \<Rightarrow> (u32, ver_txn) omap \<times> nat" where
  "emit_ver mw e = (omap_insert (raw_txn e) (ver_of_raw e) (fst mw),
     if raw_data e = [] then snd mw else snd mw + 1)"

lemma ver_loop_failed: "ver_loop \<lparr>in_rest = [], in_good = False\<rparr> v = v"
  by (simp add: ver_loop.simps)

lemma ver_loop_open:
  "ver_loop (stream_open bs) v =
     (if length bs < 12 then v
      else if MAX_ENTRY_SIZE < hdr_len bs then ver_loop (stream_open (drop 12 bs)) v
      else if length bs < 12 + hdr_len bs then v\<lparr>vs_all_valid := False\<rparr>
      else ver_loop (stream_open (drop (12 + hdr_len bs) bs))
             (v\<lparr>vs_writes := (if hdr_len bs = 0 then vs_writes v else vs_writes v + 1),
                vs_map := omap_insert (raw_txn (hdr_entry bs)) (ver_of_raw (hdr_entry bs)) (vs_map v)\<rparr>))"
proof (cases bs rule: frame_cases)
  case oversized
  then show ?thesis by (subst ver_loop.simps) (simp add: frame_simps header_reads ver_loop_failed ver_of_raw_def)
next
  case torn
  then show ?thesis
    by (subst ver_loop.simps) (simp add: frame_simps header_reads payload_reads ver_loop_failed ver_of_raw_def)
next
  case empty
  then have "rd32 (take 4 (drop 8 bs)) = 0" by (simp add: unat_eq_zero)
  with empty show ?thesis by (subst ver_loop.simps) (simp add: frame_simps header_reads ver_loop_failed ver_of_raw_def)
next
  case full
  then show ?thesis
    by (subst ver_loop.simps) (simp add: frame_simps header_reads payload_reads ver_loop_failed ver_of_raw_def)
qed (subst ver_loop.simps, simp add: header_reads_short Let_def)+

interpretation ver: framed_reader ver_loop "\<lambda>v. (vs_map v, vs_writes v)" emit_ver
proof unfold_locales
  fix bs :: bytes and r :: ver_state
  let ?view = "\<lambda>v. (vs_map v, vs_writes v)"
  show "length bs < 12 \<Longrightarrow> ?view (ver_loop (stream_open bs) r) = ?view r"
    by (subst (1 2) ver_loop_open) simp
  show "\<exists>r'. ver_loop (stream_open bs) r = ver_loop (stream_open (drop 12 bs)) r'
      \<and> ?view r' = ?view r" if "12 \<le> length bs" "MAX_ENTRY_SIZE < hdr_len bs"
    using that by (intro exI [of _ r]) (subst ver_loop_open, simp)
  show "?view (ver_loop (stream_open bs) r) = ?view r"
    if "12 \<le> length bs" "hdr_len bs \<le> MAX_ENTRY_SIZE" "length bs < 12 + hdr_len bs"
    using that by (subst (1 2) ver_loop_open) simp
  show "\<exists>r'. ver_loop (stream_open bs) r = ver_loop (stream_open (drop (12 + hdr_len bs) bs)) r'
      \<and> ?view r' = emit_ver (?view r) (hdr_entry bs)"
    if h: "12 + hdr_len bs \<le> length bs" "hdr_len bs \<le> MAX_ENTRY_SIZE"
  proof (intro exI conjI)
    show "ver_loop (stream_open bs) r = ver_loop (stream_open (drop (12 + hdr_len bs) bs))
       (r\<lparr>vs_writes := (if hdr_len bs = 0 then vs_writes r else vs_writes r + 1),
          vs_map := omap_insert (raw_txn (hdr_entry bs)) (ver_of_raw (hdr_entry bs)) (vs_map r)\<rparr>)"
      using h by (subst ver_loop_open) simp
    have "raw_data (hdr_entry bs) = [] \<longleftrightarrow> hdr_len bs = 0"
      using h by (auto simp: hdr_entry_def)
    then show "?view (r\<lparr>vs_writes := (if hdr_len bs = 0 then vs_writes r else vs_writes r + 1),
          vs_map := omap_insert (raw_txn (hdr_entry bs)) (ver_of_raw (hdr_entry bs)) (vs_map r)\<rparr>)
        = emit_ver (?view r) (hdr_entry bs)"
      by (simp add: emit_ver_def)
  qed
qed

section \<open>RobustWALCodec\<close>

text \<open>
  \<open>read_entry\<close> fills an entry object of the caller. The object's data is only touched when
  the announced length is positive: \<open>resize\<close> keeps or zero-fills, and the read overwrites.
\<close>

record robust_entry =
  re_txn_id :: u32
  re_data_len :: u32
  re_data :: bytes

definition robust_write_entry :: "bytes \<Rightarrow> u32 \<Rightarrow> bytes \<Rightarrow> bool \<times> bytes" where
  "robust_write_entry file txn d =
     (if MAX_ENTRY_SIZE < length d then (False, file)
      else (True, file @ le32 txn @ le32 (word_of_nat (length d)) @ d))"

definition vec_resize :: "nat \<Rightarrow> bytes \<Rightarrow> bytes" where
  "vec_resize n d = take n d @ replicate (n - length d) 0"

definition robust_read_entry :: "istream \<Rightarrow> robust_entry \<Rightarrow> bool \<times> istream \<times> robust_entry" where
  "robust_read_entry s e =
     (case read_u32 s of
        (None, s1) \<Rightarrow> (False, s1, e)
      | (Some txn, s1) \<Rightarrow>
          (case read_u32 s1 of
             (None, s2) \<Rightarrow> (False, s2, e)
           | (Some len, s2) \<Rightarrow>
               if MAX_ENTRY_SIZE < unat len then (False, s2, e)
               else
                 let e' = e\<lparr>re_txn_id := txn, re_data_len := len\<rparr> in
                 if 0 < unat len then
                   let d = vec_resize (unat len) (re_data e') in
                   (case stream_read (unat len) s2 of
                      (None, s3) \<Rightarrow>
                        (False, s3, e'\<lparr>re_data := in_rest s2 @ drop (length (in_rest s2)) d\<rparr>)
                    | (Some bs, s3) \<Rightarrow> (True, s3, e'\<lparr>re_data := bs\<rparr>))
                 else (True, s2, e')))"

definition verify_roundtrip :: "bytes \<Rightarrow> bytes \<Rightarrow> bool" where
  "verify_roundtrip original recovered =
     (if length original \<noteq> length recovered then False
      else list_all (\<lambda>i. original ! i = recovered ! i) [0..<length original])"

lemma verify_roundtrip_iff: "verify_roundtrip a b \<longleftrightarrow> a = b"
  by (auto simp: verify_roundtrip_def list_all_iff intro: nth_equalityI)

section \<open>Properties of the readers\<close>

lemma foldl_emit_id:
  "foldl emit_id ids es = ids \<union> raw_txn ` {e \<in> set es. raw_committed e \<noteq> 0}"
  by (induction es arbitrary: ids) (auto simp: emit_id_def)

lemma foldl_emit_count:
  "foldl emit_count n es = n + word_of_nat (length (filter (\<lambda>e. raw_committed e \<noteq> 0) es))"
  by (induction es arbitrary: n) (auto simp: emit_count_def)

lemma foldl_emit_ver:
  "foldl emit_ver (m, n) es =
     (foldl (\<lambda>m e. omap_insert (raw_txn e) (ver_of_raw e) m) m es,
      n + length (filter (\<lambda>e. raw_data e \<noteq> []) es))"
  by (induction es arbitrary: m n) (auto simp: emit_ver_def)

lemma hard_of_raw_sel [simp]:
  "he_txn_id (hard_of_raw e) = raw_txn e" "he_is_committed (hard_of_raw e) = raw_committed e"
  "he_data (hard_of_raw e) = raw_data e"
  by (simp_all add: hard_of_raw_def)

lemma hard_raw: "entries (parse_wal_hardened (Some bs)) = map hard_of_raw (log_entries bs)"
  by (simp add: parse_wal_hardened_def hard_entries parse_init_def)

text \<open>
  C4. The readers agree: on every byte sequence, intact or corrupted, the engine's
  \<open>recover_from_wal\<close> adds exactly the identifiers of the frames that the hardened parser
  returns with a nonzero commit flag, and the public API counts exactly these frames (in 32 bits).
\<close>

theorem readers_agree:
  "qe_recover_from_wal (Some bs) ids =
     ids \<union> he_txn_id ` {e \<in> set (entries (parse_wal_hardened (Some bs))). he_is_committed e \<noteq> 0}
   \<and> api_recover_from_wal (Some bs) =
     word_of_nat (length (filter (\<lambda>e. he_is_committed e \<noteq> 0) (entries (parse_wal_hardened (Some bs)))))"
  by (force simp: hard_raw qe_recover_from_wal_def api_recover_from_wal_def qe.loop_log_entries
      api.loop_log_entries foldl_emit_id foldl_emit_count filter_map comp_def image_iff)

text \<open>
  Logs as the format is meant: complete frames, and headers whose length field was corrupted
  to an impossible value and which have no payload behind them.
\<close>

datatype frame = Good_Frame u32 u32 bytes | Oversized_Header u32 u32 u32

fun frame_bytes :: "frame \<Rightarrow> bytes" where
  "frame_bytes (Good_Frame t c d) = le32 t @ le32 c @ le32 (word_of_nat (length d)) @ d"
| "frame_bytes (Oversized_Header t c n) = le32 t @ le32 c @ le32 n"

fun frame_ok :: "frame \<Rightarrow> bool" where
  "frame_ok (Good_Frame t c d) = (length d \<le> MAX_ENTRY_SIZE)"
| "frame_ok (Oversized_Header t c n) = (MAX_ENTRY_SIZE < unat n)"

fun is_good :: "frame \<Rightarrow> bool" where
  "is_good (Good_Frame t c d) = True"
| "is_good (Oversized_Header t c n) = False"

fun frame_entry :: "frame \<Rightarrow> raw_entry" where
  "frame_entry (Good_Frame t c d) = \<lparr>raw_txn = t, raw_committed = c, raw_data = d\<rparr>"
| "frame_entry (Oversized_Header t c n) = \<lparr>raw_txn = t, raw_committed = c, raw_data = []\<rparr>"

definition log_bytes :: "frame list \<Rightarrow> bytes" where
  "log_bytes fs = concat (map frame_bytes fs)"

lemma hdr_of_header:
  "hdr_len (le32 t @ le32 c @ le32 n @ rest) = unat n"
  "hdr_entry (le32 t @ le32 c @ le32 n @ rest) =
     \<lparr>raw_txn = t, raw_committed = c, raw_data = take (unat n) rest\<rparr>"
  by (simp_all add: hdr_entry_def)

lemma hard_loop_good:
  assumes "length d \<le> MAX_ENTRY_SIZE"
  shows "hard_loop (stream_open (le32 t @ le32 c @ le32 (word_of_nat (length d)) @ d @ rest)) r =
    hard_loop (stream_open rest)
      (add_entry (hard_of_raw \<lparr>raw_txn = t, raw_committed = c, raw_data = d\<rparr>)
         (count_bytes (word_of_nat (12 + length d)) r))"
proof -
  have len: "unat (word_of_nat (length d) :: u32) = length d"
    using assms by (simp add: unat_of_nat MAX_ENTRY_SIZE_def)
  have "count_bytes (word_of_nat (length d)) (count_bytes 4 (count_bytes 4 (count_bytes 4 r))) =
      count_bytes (word_of_nat (12 + length d)) r"
    by (simp add: count_bytes_def)
  then show ?thesis
    using assms
    by (subst hard_loop_open)
      (simp add: hdr_of_header len Let_def del: take_append drop_append, simp)
qed

lemma hard_loop_oversized:
  assumes "MAX_ENTRY_SIZE < unat n"
  shows "hard_loop (stream_open (le32 t @ le32 c @ le32 n @ rest)) r =
    hard_loop (stream_open rest) (count_corrupt (count_bytes 12 r))"
proof -
  have "count_bytes 4 (count_bytes 4 (count_bytes 4 r)) = count_bytes 12 r"
    by (simp add: count_bytes_def)
  with assms show ?thesis
    by (subst hard_loop_open) (simp add: hdr_of_header Let_def del: take_append drop_append, simp)
qed

fun frame_effect :: "parse_result \<Rightarrow> frame \<Rightarrow> parse_result" where
  "frame_effect r (Good_Frame t c d) =
     add_entry (hard_of_raw \<lparr>raw_txn = t, raw_committed = c, raw_data = d\<rparr>)
       (count_bytes (word_of_nat (12 + length d)) r)"
| "frame_effect r (Oversized_Header t c n) = count_corrupt (count_bytes 12 r)"

lemma hard_loop_frames:
  "list_all frame_ok fs \<Longrightarrow> hard_loop (stream_open (log_bytes fs @ rest)) r =
     hard_loop (stream_open rest) (foldl frame_effect r fs)"
proof (induction fs arbitrary: r)
  case Nil
  then show ?case by (simp add: log_bytes_def)
next
  case (Cons f fs)
  then show ?case
    by (cases f) (auto simp: log_bytes_def hard_loop_good hard_loop_oversized)
qed

lemma foldl_frame_effect:
  "foldl frame_effect r fs =
     \<lparr>entries = entries r @ map (hard_of_raw \<circ> frame_entry) (filter is_good fs),
      recovered_entries = recovered_entries r + word_of_nat (length (filter is_good fs)),
      skipped_corrupted = skipped_corrupted r + word_of_nat (length (filter (Not \<circ> is_good) fs)),
      total_bytes_read = total_bytes_read r + word_of_nat (length (log_bytes fs)),
      has_corruption = (has_corruption r \<or> \<not> list_all is_good fs)\<rparr>"
proof (induction fs arbitrary: r)
  case Nil
  then show ?case by (simp add: log_bytes_def)
next
  case (Cons f fs)
  then show ?case
    by (cases f) (simp_all add: log_bytes_def add_entry_def count_bytes_def count_corrupt_def)
qed

lemma hard_loop_Nil: "hard_loop (stream_open []) r = r"
  by (subst hard_loop_open) simp

text \<open>
  What can be left at the end of a file: less than a header, or a header with a possible length
  and less than its payload.
\<close>

definition torn_tail :: "bytes \<Rightarrow> bool" where
  "torn_tail bs \<longleftrightarrow> length bs < 12 \<or> (hdr_len bs \<le> MAX_ENTRY_SIZE \<and> length bs < 12 + hdr_len bs)"

lemma frame_bytes_len [simp]:
  "length (frame_bytes f) = 12 + (case f of Good_Frame t c d \<Rightarrow> length d | Oversized_Header t c n \<Rightarrow> 0)"
  by (cases f) simp_all

lemma log_bytes_Cons [simp]: "log_bytes (f # fs) = frame_bytes f @ log_bytes fs" "log_bytes [] = []"
  by (simp_all add: log_bytes_def)

lemma header_bytes:
  assumes "12 \<le> length bs"
  shows "bs = le32 (rd32 (take 4 bs)) @ le32 (rd32 (take 4 (drop 4 bs))) @
    le32 (rd32 (take 4 (drop 8 bs))) @ drop 12 bs"
proof -
  have "take 4 (drop m bs) @ drop (4 + m) bs = drop m bs" for m by (simp only: append_take_drop_id flip: drop_drop)
  from this [of 0] this [of 4] this [of 8]
  have "bs = take 4 bs @ take 4 (drop 4 bs) @ take 4 (drop 8 bs) @ drop 12 bs" by simp
  also have "\<dots> = le32 (rd32 (take 4 bs)) @ le32 (rd32 (take 4 (drop 4 bs))) @
    le32 (rd32 (take 4 (drop 8 bs))) @ drop 12 bs" using assms by (simp add: le32_rd32)
  finally show ?thesis .
qed

lemma split_log: "\<exists>fs tail. bs = log_bytes fs @ tail \<and> list_all frame_ok fs \<and> torn_tail tail"
proof (induction bs rule: log_entries.induct)
  case (1 bs)
  let ?t = "rd32 (take 4 bs)" and ?c = "rd32 (take 4 (drop 4 bs))"
  have step: ?case if "bs = frame_bytes f @ rest" "frame_ok f"
    "\<exists>fs tail. rest = log_bytes fs @ tail \<and> list_all frame_ok fs \<and> torn_tail tail" for f rest
  proof -
    from that(3) obtain fs tail where "rest = log_bytes fs @ tail" "list_all frame_ok fs" "torn_tail tail"
      by blast
    with that(1,2) show ?thesis by (intro exI [of _ "f # fs"] exI [of _ tail]) simp
  qed
  show ?case
  proof (cases "torn_tail bs")
    case True
    then show ?thesis by (intro exI [of _ "[]"] exI [of _ bs]) simp
  next
    case False
    then have len: "12 \<le> length bs" by (simp add: torn_tail_def)
    note hdr = header_bytes [OF len]
    show ?thesis
    proof (cases "MAX_ENTRY_SIZE < hdr_len bs")
      case over: True
      have "bs = frame_bytes (Oversized_Header ?t ?c (rd32 (take 4 (drop 8 bs)))) @ drop 12 bs"
        unfolding frame_bytes.simps append_assoc by (rule hdr)
      from step [OF this] 1(1) len over show ?thesis by simp
    next
      case False
      with \<open>\<not> torn_tail bs\<close> len have all: "12 + hdr_len bs \<le> length bs" by (simp add: torn_tail_def)
      let ?d = "take (hdr_len bs) (drop 12 bs)"
      have "word_of_nat (length ?d) = rd32 (take 4 (drop 8 bs))" using all by (rule hdr_len_word)
      moreover have "?d @ drop (12 + hdr_len bs) bs = drop 12 bs"
        by (simp only: add.commute [of 12] append_take_drop_id flip: drop_drop)
      ultimately have "bs = frame_bytes (Good_Frame ?t ?c ?d) @ drop (12 + hdr_len bs) bs"
        unfolding frame_bytes.simps append_assoc by (simp only:) (rule hdr)
      from step [OF this] 1(2) False all show ?thesis by simp
    qed
  qed
qed

text \<open>The last round of the loop: whole words of the header are counted, and four bytes make it corrupt.\<close>

lemma hard_loop_tail:
  assumes "torn_tail tail"
  shows "hard_loop (stream_open tail) r = (if length tail < 4 then r
    else count_corrupt (count_bytes (word_of_nat (4 * min 3 (length tail div 4))) r))"
proof -
  have "count_bytes a (count_bytes b r) = count_bytes (b + a) r" for a b r
    by (simp add: count_bytes_def add.assoc)
  moreover have "length tail div 4 = 1" if "4 \<le> length tail" "length tail < 8" using that by simp
  moreover have "length tail div 4 = 2" if "8 \<le> length tail" "length tail < 12" using that by simp
  moreover have "3 \<le> length tail div 4" if "12 \<le> length tail" using that by simp
  ultimately show ?thesis
    using assms by (subst hard_loop_open) (auto simp: torn_tail_def Let_def not_less min_def)
qed

lemma frames_fit: "12 * length fs \<le> length (log_bytes fs)"
  by (induction fs) (auto split: frame.splits)

lemma sint_of_small: "n < 2 ^ 31 \<Longrightarrow> sint (word_of_nat n :: i32) = int n"
  by (simp add: signed_of_nat signed_take_bit_int_eq_self)

text \<open>
  C5. The hardened parser on arbitrary bytes. Every file is a sequence of complete frames and of headers
  with an impossible length, and a torn rest. On a file below 2 GiB the parser returns
  exactly the complete frames, in order and with their payloads, wherever the corrupted headers stand;
  its counters, \<open>int\<close>s that do not overflow there, are the number of these frames, the number of
  corrupted headers plus one for a torn rest of four bytes or more, and the bytes of the frames, of the
  corrupted headers and of the words of the torn header; corruption is reported iff something was
  skipped. (The checksum of an entry is computed from the payload and compared with nothing.)
\<close>

theorem hardened_sound:
  assumes "length bs < 2 ^ 31"
  shows "(\<exists>fs tail. bs = log_bytes fs @ tail \<and> list_all frame_ok fs \<and> torn_tail tail) \<and>
    (\<forall>fs tail. bs = log_bytes fs @ tail \<and> list_all frame_ok fs \<and> torn_tail tail \<longrightarrow>
      (let r = parse_wal_hardened (Some bs) in
       entries r = map (hard_of_raw \<circ> frame_entry) (filter is_good fs) \<and>
       sint (recovered_entries r) = int (length (filter is_good fs)) \<and>
       sint (skipped_corrupted r) =
         int (length (filter (Not \<circ> is_good) fs) + (if length tail < 4 then 0 else 1)) \<and>
       sint (total_bytes_read r) = int (length (log_bytes fs) + 4 * min 3 (length tail div 4)) \<and>
       (has_corruption r \<longleftrightarrow> 0 < sint (skipped_corrupted r))))"
proof (intro conjI allI impI)
  fix fs tail
  assume bs: "bs = log_bytes fs @ tail \<and> list_all frame_ok fs \<and> torn_tail tail"
  let ?good = "length (filter is_good fs)" and ?bad = "length (filter (Not \<circ> is_good) fs)"
  let ?skip = "?bad + (if length tail < 4 then 0 else 1)"
  let ?read = "length (log_bytes fs) + 4 * min 3 (length tail div 4)"
  define r where "r = parse_wal_hardened (Some bs)"
  have "r = hard_loop (stream_open tail) (foldl frame_effect parse_init fs)"
    using hard_loop_frames [of fs tail parse_init] bs by (simp add: r_def parse_wal_hardened_def)
  then have r: "r = \<lparr>entries = map (hard_of_raw \<circ> frame_entry) (filter is_good fs),
      recovered_entries = word_of_nat ?good, skipped_corrupted = word_of_nat ?skip,
      total_bytes_read = word_of_nat ?read, has_corruption = (0 < ?skip)\<rparr>"
    using hard_loop_tail bs
    by (auto simp: foldl_frame_effect parse_init_def count_bytes_def count_corrupt_def list_all_iff filter_empty_conv)
  have "4 * (length tail div 4) \<le> length tail" by simp
  then have small: "?read < 2 ^ 31" using assms bs by (auto simp: min_def)
  have "?good \<le> length fs" "?bad \<le> length fs" by (rule length_filter_le)+
  moreover have "12 * length fs + length tail < 2 ^ 31" using frames_fit [of fs] assms bs by simp
  ultimately have "?good < 2 ^ 31" "?skip < 2 ^ 31" by (simp_all only: split: if_split) linarith+
  with small show "let r = parse_wal_hardened (Some bs) in
       entries r = map (hard_of_raw \<circ> frame_entry) (filter is_good fs) \<and>
       sint (recovered_entries r) = int ?good \<and> sint (skipped_corrupted r) = int ?skip \<and>
       sint (total_bytes_read r) = int ?read \<and> (has_corruption r \<longleftrightarrow> 0 < sint (skipped_corrupted r))"
    unfolding r_def [symmetric] Let_def by (simp only: r parse_result.simps sint_of_small) simp
qed (rule split_log)

theorem hardened_sound_witness:
  "sint (recovered_entries (parse_wal_hardened (Some (log_bytes
      [Good_Frame 1 1 [7, 8], Oversized_Header 999 1 999999, Good_Frame 2 1 []] @ [1, 2, 3, 4, 5])))) = 2
   \<and> sint (skipped_corrupted (parse_wal_hardened (Some (log_bytes
      [Good_Frame 1 1 [7, 8], Oversized_Header 999 1 999999, Good_Frame 2 1 []] @ [1, 2, 3, 4, 5])))) = 2
   \<and> sint (total_bytes_read (parse_wal_hardened (Some (log_bytes
      [Good_Frame 1 1 [7, 8], Oversized_Header 999 1 999999, Good_Frame 2 1 []] @ [1, 2, 3, 4, 5])))) = 42"
proof -
  let ?fs = "[Good_Frame 1 1 [7, 8], Oversized_Header 999 1 999999, Good_Frame 2 1 []]"
  have "length (log_bytes ?fs @ [1, 2, 3, 4, 5]) < 2 ^ 31" "list_all frame_ok ?fs" "torn_tail [1, 2, 3, 4, 5]"
    by (simp_all add: MAX_ENTRY_SIZE_def torn_tail_def)
  note this(2,3) and result = hardened_sound [OF this(1), THEN conjunct2, THEN spec [of _ ?fs],
      THEN spec [of _ "[1, 2, 3, 4, 5]"], THEN mp]
  from result [unfolded Let_def] this show ?thesis by simp
qed

text \<open>
  Recovery around corrupted headers: on a log of complete frames and oversized headers,
  in any order, the parser returns every complete frame in order, counts every corrupted
  header as skipped and accounts for every byte.
\<close>

theorem hardened_skips_oversized:
  assumes "list_all frame_ok fs"
  shows "parse_wal_hardened (Some (log_bytes fs)) =
    \<lparr>entries = map (hard_of_raw \<circ> frame_entry) (filter is_good fs),
     recovered_entries = word_of_nat (length (filter is_good fs)),
     skipped_corrupted = word_of_nat (length (filter (Not \<circ> is_good) fs)),
     total_bytes_read = word_of_nat (length (log_bytes fs)),
     has_corruption = (\<not> list_all is_good fs)\<rparr>"
  using hard_loop_frames [OF assms, of "[]" parse_init]
  by (simp add: parse_wal_hardened_def hard_loop_Nil foldl_frame_effect parse_init_def)

theorem hardened_skips_oversized_witness:
  "recovered_entries (parse_wal_hardened (Some (log_bytes
      [Good_Frame 1 1 [7, 8], Oversized_Header 999 1 999999, Good_Frame 2 1 []]))) = 2
   \<and> skipped_corrupted (parse_wal_hardened (Some (log_bytes
      [Good_Frame 1 1 [7, 8], Oversized_Header 999 1 999999, Good_Frame 2 1 []]))) = 1"
  using hardened_skips_oversized
    [of "[Good_Frame 1 1 [7, 8], Oversized_Header 999 1 999999, Good_Frame 2 1 []]"]
  by (simp add: MAX_ENTRY_SIZE_def)

text \<open>
  A frame torn by a crash at byte \<open>k\<close>: everything before it is returned unchanged and the
  torn frame is reported as corruption, except that a rest of fewer than four bytes counts as
  a regular end of file.
\<close>

theorem hardened_torn:
  assumes "list_all frame_ok fs" and "length d \<le> MAX_ENTRY_SIZE"
    and "k < length (frame_bytes (Good_Frame t c d))"
  shows "let r = parse_wal_hardened (Some (log_bytes fs @ take k (frame_bytes (Good_Frame t c d))))
    in entries r = entries (parse_wal_hardened (Some (log_bytes fs)))
    \<and> skipped_corrupted r =
        skipped_corrupted (parse_wal_hardened (Some (log_bytes fs))) + (if k < 4 then 0 else 1)"
proof -
  let ?tail = "take k (le32 t @ le32 c @ le32 (word_of_nat (length d)) @ d)"
  have k: "length ?tail = k" "k < 12 + length d" using assms(3) by auto
  have hdr: "hdr_len ?tail = length d" if "12 \<le> k"
  proof -
    have "take 4 (drop 8 ?tail) = le32 (word_of_nat (length d))"
      using that by (simp add: drop_take)
    then show ?thesis using assms(2) by (simp add: unat_of_nat MAX_ENTRY_SIZE_def)
  qed
  have sk: "skipped_corrupted (count_bytes n r) = skipped_corrupted r" for n r
    by (simp add: count_bytes_def)
  have loop: "entries (hard_loop (stream_open ?tail) r0) = entries r0
      \<and> skipped_corrupted (hard_loop (stream_open ?tail) r0) =
        skipped_corrupted r0 + (if k < 4 then 0 else 1)" for r0
    using hdr k assms(2)
    by (subst (1 2) hard_loop_open)
      (auto simp: Let_def count_corrupt_def sk simp del: length_take take_append)
  have whole: "parse_wal_hardened (Some (log_bytes fs)) = foldl frame_effect parse_init fs"
    using hard_loop_frames [OF assms(1), of "[]" parse_init]
    by (simp add: parse_wal_hardened_def hard_loop_Nil)
  have "parse_wal_hardened (Some (log_bytes fs @ take k (frame_bytes (Good_Frame t c d)))) =
      hard_loop (stream_open ?tail) (foldl frame_effect parse_init fs)"
    using hard_loop_frames [OF assms(1), of ?tail parse_init]
    by (simp add: parse_wal_hardened_def)
  with loop [of "foldl frame_effect parse_init fs"] show ?thesis by (simp only: whole Let_def)
qed

theorem hardened_torn_witness:
  "skipped_corrupted (parse_wal_hardened
     (Some (log_bytes [Good_Frame 1 1 [5]] @ take 9 (frame_bytes (Good_Frame 2 0 [6]))))) =
   skipped_corrupted (parse_wal_hardened (Some (log_bytes [Good_Frame 1 1 [5]]))) + 1"
  using hardened_torn [of "[Good_Frame 1 1 [5]]" "[6]" 9 2 0]
  by (simp add: MAX_ENTRY_SIZE_def Let_def)

lemma ver_map_fold:
  "foldl (\<lambda>m e. omap_insert (raw_txn e) (ver_of_raw e) m) m es = m' \<Longrightarrow> omap_ok m \<Longrightarrow>
   list_all (\<lambda>kv. vt_is_valid (snd kv)) m \<Longrightarrow>
   omap_ok m' \<and> list_all (\<lambda>kv. vt_is_valid (snd kv)) m' \<and>
   set (map fst m') = set (map fst m) \<union> raw_txn ` set es"
proof (induction es arbitrary: m)
  case Nil
  then show ?case by simp
next
  case (Cons e es)
  let ?m = "omap_insert (raw_txn e) (ver_of_raw e) m"
  have "list_all (\<lambda>kv. vt_is_valid (snd kv)) ?m"
    using Cons.prems(3) set_omap_insert_subset [of "raw_txn e" "ver_of_raw e" m]
    by (auto simp: list_all_iff ver_of_raw_def)
  then show ?case
    using Cons.IH [of ?m] Cons.prems by (simp add: set_keys_omap_insert del: set_map)
qed

lemma ver_analyze_fold:
  "list_all (\<lambda>kv. vt_is_valid (snd kv)) m \<Longrightarrow> r' = foldl ver_analyze r m \<Longrightarrow>
   total_txns r' = total_txns r + length m \<and>
   committed_count r' + uncommitted_count r' = committed_count r + uncommitted_count r + length m \<and>
   write_operations r' = write_operations r \<and> all_valid r' = all_valid r"
proof (induction m arbitrary: r)
  case Nil
  then show ?case by simp
next
  case (Cons kv m)
  have "ver_analyze r kv =
      (if vt_is_committed (snd kv) \<noteq> 0
       then r\<lparr>total_txns := total_txns r + 1, committed_count := committed_count r + 1\<rparr>
       else r\<lparr>total_txns := total_txns r + 1, uncommitted_count := uncommitted_count r + 1\<rparr>)"
    using Cons.prems by (simp add: ver_analyze_def Let_def)
  then show ?case using Cons.IH [of "ver_analyze r kv"] Cons.prems by (auto split: if_splits)
qed

text \<open>
  The integrity verdict: for every log that can be opened, the number of transactions is
  the number of distinct identifiers in it, the consistency, isolation and durability tests
  always succeed, and \<open>acid_properties_hold\<close> is reported exactly when some frame had a
  payload and some transaction is committed; torn frames do not matter for it.
\<close>

theorem integrity_verdict:
  "let r = verify_transaction_integrity (Some bs) in
     total_txns r = card (raw_txn ` set (log_entries bs))
     \<and> total_txns r = committed_count r + uncommitted_count r
     \<and> write_operations r = length (filter (\<lambda>e. raw_data e \<noteq> []) (log_entries bs))
     \<and> acid_properties_hold r = (0 < write_operations r \<and> 0 < committed_count r)"
proof -
  define v where "v = ver_loop (stream_open bs) \<lparr>vs_map = [], vs_writes = 0, vs_all_valid = True\<rparr>"
  define r where "r = foldl ver_analyze
    \<lparr>total_txns = 0, committed_count = 0, uncommitted_count = 0, write_operations = vs_writes v,
     all_valid = vs_all_valid v, acid_properties_hold = True\<rparr> (vs_map v)"
  have "(vs_map v, vs_writes v) = foldl emit_ver ([], 0) (log_entries bs)"
    unfolding v_def by (simp add: ver.loop_log_entries)
  then have m: "vs_map v = foldl (\<lambda>m e. omap_insert (raw_txn e) (ver_of_raw e) m) [] (log_entries bs)"
    and w: "vs_writes v = length (filter (\<lambda>e. raw_data e \<noteq> []) (log_entries bs))"
    by (simp_all add: foldl_emit_ver)
  have ok: "omap_ok (vs_map v)" "list_all (\<lambda>kv. vt_is_valid (snd kv)) (vs_map v)"
    and keys: "set (map fst (vs_map v)) = raw_txn ` set (log_entries bs)"
    using ver_map_fold [OF m [symmetric]] by simp_all
  have "verify_transaction_integrity (Some bs) = r\<lparr>acid_properties_hold :=
      0 < write_operations r \<and> 0 < committed_count r \<and>
      total_txns r = committed_count r + uncommitted_count r \<and> length (vs_map v) = total_txns r\<rparr>"
    by (simp add: verify_transaction_integrity_def Let_def v_def [symmetric] r_def [symmetric])
  then show ?thesis
    using ver_analyze_fold [OF ok(2) r_def] length_omap_card [OF ok(1)] keys w
    by (simp add: Let_def del: set_map)
qed

text \<open>
  C6. The robust codec preserves every byte: a payload of 1 to \<open>MAX_ENTRY_SIZE\<close> bytes that was
  appended to a log is read back exactly, whatever follows it and whatever the entry object
  held before; larger payloads are refused and leave the file unchanged.
\<close>

theorem robust_roundtrip:
  assumes "d \<noteq> []" and "length d \<le> MAX_ENTRY_SIZE"
  shows "robust_write_entry file txn d = (True, file @ le32 txn @ le32 (word_of_nat (length d)) @ d)
    \<and> robust_read_entry (stream_open (le32 txn @ le32 (word_of_nat (length d)) @ d @ rest)) e =
        (True, stream_open rest,
         \<lparr>re_txn_id = txn, re_data_len = word_of_nat (length d), re_data = d\<rparr>)
    \<and> verify_roundtrip d (re_data (snd (snd (robust_read_entry
        (stream_open (le32 txn @ le32 (word_of_nat (length d)) @ d @ rest)) e))))"
proof -
  have len: "unat (word_of_nat (length d) :: u32) = length d"
    using assms by (simp add: unat_of_nat MAX_ENTRY_SIZE_def)
  have "robust_read_entry (stream_open (le32 txn @ le32 (word_of_nat (length d)) @ d @ rest)) e =
      (True, stream_open rest,
       \<lparr>re_txn_id = txn, re_data_len = word_of_nat (length d), re_data = d\<rparr>)"
    using assms len
    by (simp add: robust_read_entry_def read_u32_open stream_read_open Let_def)
  with assms show ?thesis by (simp add: robust_write_entry_def verify_roundtrip_iff)
qed

theorem robust_roundtrip_witness:
  "verify_roundtrip [65, 124, 10, 0] (re_data (snd (snd (robust_read_entry
     (stream_open (le32 1 @ le32 4 @ [65, 124, 10, 0]))
     \<lparr>re_txn_id = 0, re_data_len = 0, re_data = []\<rparr>))))"
  using robust_roundtrip [of "[65, 124, 10, 0]" "[]" 1 "[]"
      "\<lparr>re_txn_id = 0, re_data_len = 0, re_data = []\<rparr>"]
  by (simp add: MAX_ENTRY_SIZE_def verify_roundtrip_iff)

text \<open>
  An empty record does not clear the entry object: reading back a record that was written
  with an empty payload succeeds and reports length 0, but leaves the data of the previous
  record in the entry, so the round trip is broken whenever an entry object is reused.
\<close>

theorem robust_read_empty_stale:
  "robust_write_entry file txn [] = (True, file @ le32 txn @ le32 0)
   \<and> robust_read_entry (stream_open (le32 txn @ le32 0 @ rest)) e =
       (True, stream_open rest, e\<lparr>re_txn_id := txn, re_data_len := 0\<rparr>)
   \<and> verify_roundtrip [] (re_data (snd (snd (robust_read_entry
       (stream_open (le32 txn @ le32 0 @ rest)) e)))) = (re_data e = [])"
  by (auto simp: robust_write_entry_def robust_read_entry_def read_u32_open Let_def
      verify_roundtrip_iff MAX_ENTRY_SIZE_def)

end
