(* ===== verification/Wal_Selftests.thy ===== *)
theory Wal_Selftests
  imports Wal_Readers
begin

text \<open>
  The programs that test the readers of the log: the \<open>main\<close> functions of
  \<open>src/recovery_wal_hardened.cpp\<close>, \<open>src/transaction_integrity_e2e.cpp\<close> and
  \<open>src/wal_codec_robust.cpp\<close>, as functions that return the exit code. Their output and the
  creation of the temporary file are left out.

  The first two write more bytes than the string literals they write from have. What lies in memory
  behind a literal is undefined; it is the argument \<open>beyond\<close> of the model, and the results do not
  depend on it.
\<close>

section \<open>The code\<close>

definition write_literal :: "(string \<Rightarrow> nat \<Rightarrow> u8) \<Rightarrow> string \<Rightarrow> nat \<Rightarrow> bytes" where
  "write_literal beyond s n =
     take n (map of_char s @ [0] @ map (beyond s) [0..<n])"

definition test_frame :: "(string \<Rightarrow> nat \<Rightarrow> u8) \<Rightarrow> u32 \<Rightarrow> u32 \<Rightarrow> u32 \<Rightarrow> string \<Rightarrow> bytes" where
  "test_frame beyond txn committed len s =
     le32 txn @ le32 committed @ le32 len @ write_literal beyond s (unat len)"

definition hardened_test_log :: "(string \<Rightarrow> nat \<Rightarrow> u8) \<Rightarrow> bytes" where
  "hardened_test_log beyond =
     concat (map (\<lambda>i. test_frame beyond (word_of_nat i) 1 32 ''valid_entry_data_'') [0..<10])
     @ le32 999 @ le32 1 @ le32 999999
     @ concat (map (\<lambda>i. test_frame beyond (word_of_nat i) 1 32 ''valid_entry_data_'') [10..<15])"

definition hardened_main :: "(string \<Rightarrow> nat \<Rightarrow> u8) \<Rightarrow> int" where
  "hardened_main beyond =
     (let result = parse_wal_hardened (Some (hardened_test_log beyond));
          success = (recovered_entries result = 15 \<and> skipped_corrupted result = 1)
      in if success then 0 else 1)"

definition integrity_test_log :: "(string \<Rightarrow> nat \<Rightarrow> u8) \<Rightarrow> bytes" where
  "integrity_test_log beyond =
     test_frame beyond 1 1 96 ''write1_write2_write3_________''
     @ test_frame beyond 2 1 64 ''write1_write2______________''
     @ test_frame beyond 3 0 32 ''partial_write______________''
     @ test_frame beyond 4 1 32 ''single_write_______________''"

definition integrity_main :: "(string \<Rightarrow> nat \<Rightarrow> u8) \<Rightarrow> int" where
  "integrity_main beyond =
     (let result = verify_transaction_integrity (Some (integrity_test_log beyond));
          success = (total_txns result = 4 \<and> committed_count result = 3 \<and>
            uncommitted_count result = 1 \<and> acid_properties_hold result)
      in if success then 0 else 1)"

text \<open>
  The test of the robust codec writes and reads two logs; both reads fill the same entry object,
  whose initial value is an argument.
\<close>

definition robust_test_data :: bytes where
  "robust_test_data = [65, 124, 66, 10, 67, 0, 68]"

definition robust_binary_data :: bytes where
  "robust_binary_data = map word_of_nat [0..<256]"

definition robust_main :: "robust_entry \<Rightarrow> int" where
  "robust_main entry =
     (let wal = snd (robust_write_entry [] 1 robust_test_data);
          entry1 = snd (snd (robust_read_entry (stream_open wal) entry));
          match = verify_roundtrip robust_test_data (re_data entry1);
          wal2 = snd (robust_write_entry [] 2 robust_binary_data);
          entry2 = snd (snd (robust_read_entry (stream_open wal2) entry1));
          binary_match = verify_roundtrip robust_binary_data (re_data entry2)
      in if match \<and> binary_match then 0 else 1)"

section \<open>The test logs are logs of frames\<close>

lemma length_write_literal [simp]: "length (write_literal beyond s n) = n"
  by (simp add: write_literal_def)

lemma test_frame_frame:
  "unat len \<le> MAX_ENTRY_SIZE \<Longrightarrow>
   test_frame beyond t c len s = frame_bytes (Good_Frame t c (write_literal beyond s (unat len)))"
  by (simp add: test_frame_def)

definition good_frames :: "(string \<Rightarrow> nat \<Rightarrow> u8) \<Rightarrow> nat list \<Rightarrow> frame list" where
  "good_frames beyond is =
     map (\<lambda>i. Good_Frame (word_of_nat i) 1 (write_literal beyond ''valid_entry_data_'' 32)) is"

lemma concat_test_frames:
  "concat (map (\<lambda>i. test_frame beyond (word_of_nat i) 1 32 ''valid_entry_data_'') is) =
   log_bytes (good_frames beyond is)"
  by (induction "is") (simp_all add: good_frames_def log_bytes_def test_frame_def)

lemma log_bytes_append: "log_bytes (fs @ gs) = log_bytes fs @ log_bytes gs"
  by (simp add: log_bytes_def)

lemma hardened_test_log_frames:
  "hardened_test_log beyond =
   log_bytes (good_frames beyond [0..<10] @ [Oversized_Header 999 1 999999] @ good_frames beyond [10..<15])"
  unfolding hardened_test_log_def concat_test_frames log_bytes_append by (simp add: log_bytes_def)

lemma hardened_passes: "hardened_main beyond = 0"
proof -
  let ?fs = "good_frames beyond [0..<10] @ [Oversized_Header 999 1 999999] @ good_frames beyond [10..<15]"
  have good: "list_all is_good (good_frames beyond is)" "filter is_good (good_frames beyond is) = good_frames beyond is"
    "filter (Not \<circ> is_good) (good_frames beyond is) = []" "list_all frame_ok (good_frames beyond is)"
    "length (good_frames beyond is) = length is" for "is"
    by (induction "is") (simp_all add: good_frames_def MAX_ENTRY_SIZE_def)
  have ok: "list_all frame_ok ?fs" by (simp add: good MAX_ENTRY_SIZE_def)
  have "parse_wal_hardened (Some (hardened_test_log beyond)) = foldl frame_effect parse_init ?fs"
    using hard_loop_frames [OF ok, of "[]" parse_init]
    by (simp add: parse_wal_hardened_def hardened_test_log_frames hard_loop_Nil)
  then show ?thesis
    by (simp add: hardened_main_def foldl_frame_effect good parse_init_def count_corrupt_def count_bytes_def)
qed

lemma ver_loop_frame:
  assumes "0 < unat len" and "unat len \<le> MAX_ENTRY_SIZE"
  shows "ver_loop (stream_open (test_frame beyond t c len s @ rest)) v =
    ver_loop (stream_open rest) (v\<lparr>vs_writes := vs_writes v + 1,
      vs_map := omap_insert t (ver_of_raw \<lparr>raw_txn = t, raw_committed = c,
        raw_data = write_literal beyond s (unat len)\<rparr>) (vs_map v)\<rparr>)"
proof -
  have "test_frame beyond t c len s @ rest =
      le32 t @ le32 c @ le32 len @ (write_literal beyond s (unat len) @ rest)"
    by (simp add: test_frame_def)
  then show ?thesis using assms
    by (subst ver_loop_open) (simp add: hdr_of_header del: take_append drop_append, simp)
qed

lemma integrity_passes: "integrity_main beyond = 0"
proof -
  have "ver_loop (stream_open []) v = v" for v by (subst ver_loop_open) simp
  then have frames: "ver_loop (stream_open (test_frame beyond 4 1 32 s)) v =
      v\<lparr>vs_writes := vs_writes v + 1, vs_map := omap_insert 4 (ver_of_raw \<lparr>raw_txn = 4,
        raw_committed = 1, raw_data = write_literal beyond s 32\<rparr>) (vs_map v)\<rparr>" for s v
    using ver_loop_frame [of 32 beyond 4 1 s "[]" v] by (simp add: MAX_ENTRY_SIZE_def)
  show ?thesis
    by (simp add: integrity_main_def verify_transaction_integrity_def integrity_test_log_def
        ver_loop_frame MAX_ENTRY_SIZE_def frames ver_analyze_def ver_of_raw_def Let_def)
qed

lemma robust_read_written:
  assumes "d \<noteq> []" and "length d \<le> MAX_ENTRY_SIZE"
  shows "re_data (snd (snd (robust_read_entry (stream_open (snd (robust_write_entry [] txn d))) e))) = d"
proof -
  have "unat (word_of_nat (length d) :: u32) = length d"
    using assms by (simp add: unat_of_nat MAX_ENTRY_SIZE_def)
  with assms show ?thesis
    by (simp add: robust_write_entry_def robust_read_entry_def read_u32_open stream_read_open Let_def)
qed

lemma robust_passes: "robust_main entry = 0"
  by (simp add: robust_main_def Let_def robust_read_written verify_roundtrip_iff MAX_ENTRY_SIZE_def
      robust_test_data_def robust_binary_data_def)

section \<open>Properties\<close>

text \<open>
  The self-tests succeed: all three programs exit with 0, whatever bytes the first two read
  behind their string literals and whatever the entry object of the third held.
\<close>

theorem selftests_pass:
  "hardened_main beyond = 0 \<and> integrity_main beyond' = 0 \<and> robust_main entry = 0"
  by (simp add: hardened_passes integrity_passes robust_passes)

end
