(* ===== verification/Storage_Page.thy ===== *)
theory Storage_Page
  imports Dbx4_Prelude
begin

text \<open>
  The slotted page of \<open>src/storage_complete.cpp\<close>, modelled on its 8192 raw bytes: the
  header fields, the slot headers and the payload area are the byte offsets that the
  structs \<open>PageHeader\<close> and \<open>SlotHeader\<close> have in memory. Reading outside the page is a
  result of its own. The page refines a list of rows.
\<close>

section \<open>Layout\<close>

definition PAGE_SIZE :: nat where "PAGE_SIZE = 8192"
definition HEADER_SIZE :: nat where "HEADER_SIZE = 256"
definition SLOT_AREA_SIZE :: nat where "SLOT_AREA_SIZE = 2048"
definition PAYLOAD_START :: nat where "PAYLOAD_START = HEADER_SIZE + SLOT_AREA_SIZE"
definition PAYLOAD_SIZE :: nat where "PAYLOAD_SIZE = PAGE_SIZE - PAYLOAD_START"

lemmas layout = PAGE_SIZE_def HEADER_SIZE_def SLOT_AREA_SIZE_def PAYLOAD_START_def PAYLOAD_SIZE_def

text \<open>Fields of \<open>PageHeader\<close> and of the \<open>i\<close>-th \<open>SlotHeader\<close>.\<close>

abbreviation (input) off_page_num :: nat where "off_page_num \<equiv> 0"
abbreviation (input) off_page_type :: nat where "off_page_type \<equiv> 4"
abbreviation (input) off_num_slots :: nat where "off_num_slots \<equiv> 8"
abbreviation (input) off_free_offset :: nat where "off_free_offset \<equiv> 10"
abbreviation (input) off_checksum :: nat where "off_checksum \<equiv> 12"

definition num_slots :: "bytes \<Rightarrow> nat" where "num_slots p = unat (get16 off_num_slots p)"
definition free_offset :: "bytes \<Rightarrow> nat" where "free_offset p = unat (get16 off_free_offset p)"

definition slot_pos :: "nat \<Rightarrow> nat" where "slot_pos i = HEADER_SIZE + 8 * i"
definition slot_offset :: "nat \<Rightarrow> bytes \<Rightarrow> nat" where
  "slot_offset i p = unat (get32 (slot_pos i) p)"
definition slot_length :: "nat \<Rightarrow> bytes \<Rightarrow> nat" where
  "slot_length i p = unat (get16 (slot_pos i + 4) p)"

section \<open>Operations\<close>

definition page_new :: "u32 \<Rightarrow> bytes" where
  "page_new page_num_val =
     put32 off_checksum 0 (put16 off_free_offset 0 (put16 off_num_slots 0
       (put32 off_page_type 1 (put32 off_page_num page_num_val (replicate PAGE_SIZE 0)))))"

definition checksum_step :: "bool \<Rightarrow> u32 \<Rightarrow> nat \<times> u8 \<Rightarrow> u32" where
  "checksum_step exclude acc ib =
     (if exclude \<and> off_checksum \<le> fst ib \<and> fst ib < off_checksum + 4 then acc
      else xor (push_bit 1 acc) (ucast (snd ib)))"

definition compute_checksum :: "bool \<Rightarrow> bytes \<Rightarrow> u32" where
  "compute_checksum exclude p = foldl (checksum_step exclude) 0 (enumerate 0 p)"

definition insert_row :: "bytes \<Rightarrow> u16 \<Rightarrow> bytes \<Rightarrow> bool \<times> bytes" where
  "insert_row row_data row_len p =
     (if 256 \<le> num_slots p then (False, p)
      else if PAYLOAD_SIZE < free_offset p + unat row_len then (False, p)
      else
        let slot = slot_pos (num_slots p);
            p1 = put32 slot (ucast (get16 off_free_offset p)) p;
            p2 = put16 (slot + 4) row_len p1;
            p3 = put16 (slot + 6) 0 p2;
            p4 = mem_write (PAYLOAD_START + free_offset p3) (take (unat row_len) row_data) p3;
            p5 = put16 off_free_offset (get16 off_free_offset p4 + row_len) p4;
            p6 = put16 off_num_slots (get16 off_num_slots p5 + 1) p5
        in (True, p6))"

datatype read_result = Read_False | Read_UB | Read_OK bytes

definition read_row :: "u16 \<Rightarrow> bytes \<Rightarrow> read_result" where
  "read_row slot_idx p =
     (if num_slots p \<le> unat slot_idx then Read_False
      else if PAGE_SIZE < slot_pos (unat slot_idx) + 8 then Read_UB
      else
        let off = slot_offset (unat slot_idx) p; len = slot_length (unat slot_idx) p
        in if PAGE_SIZE < PAYLOAD_START + off + len then Read_UB
           else Read_OK (mem_read (PAYLOAD_START + off) len p))"

definition serialize :: "bytes \<Rightarrow> bytes \<times> bytes" where
  "serialize p =
     (let p1 = put32 off_checksum 0 p;
          p2 = put32 off_checksum (compute_checksum True p1) p1
      in (p2, p2))"

definition deserialize :: "bytes \<Rightarrow> bytes \<Rightarrow> bool \<times> bytes" where
  "deserialize serialized p =
     (if length serialized \<noteq> PAGE_SIZE then (False, p)
      else
        let p1 = serialized;
            stored = get32 off_checksum p1;
            p2 = put32 off_checksum 0 p1
        in (stored = compute_checksum True p2, p2))"

definition verify :: "bytes \<Rightarrow> bool" where
  "verify p \<longleftrightarrow> get32 off_checksum p = compute_checksum True p"

section \<open>The page as a list of rows\<close>

definition rows :: "bytes \<Rightarrow> bytes list" where
  "rows p = map (\<lambda>i. mem_read (PAYLOAD_START + slot_offset i p) (slot_length i p) p) [0..<num_slots p]"

text \<open>
  The invariant: the slots in use describe adjacent regions of the payload, in order, that
  end at the free offset.
\<close>

definition page_ok :: "bytes \<Rightarrow> bool" where
  "page_ok p \<longleftrightarrow>
     length p = PAGE_SIZE \<and> num_slots p \<le> 256 \<and> free_offset p \<le> PAYLOAD_SIZE
     \<and> (\<forall>i < num_slots p. slot_offset i p + slot_length i p =
          (if Suc i < num_slots p then slot_offset (Suc i) p else free_offset p))"

lemma slots_below_free:
  assumes "page_ok p" "i < num_slots p"
  shows "slot_offset i p + slot_length i p \<le> free_offset p"
  using assms(2)
proof (induction "num_slots p - i" arbitrary: i rule: less_induct)
  case less
  have eq: "slot_offset i p + slot_length i p =
      (if Suc i < num_slots p then slot_offset (Suc i) p else free_offset p)"
    using assms(1) less.prems by (simp add: page_ok_def)
  show ?case
  proof (cases "Suc i < num_slots p")
    case True
    with less.hyps [of "Suc i"] less.prems
    have "slot_offset (Suc i) p + slot_length (Suc i) p \<le> free_offset p" by simp
    with True eq show ?thesis by simp
  next
    case False
    with eq show ?thesis by simp
  qed
qed

lemma length_rows [simp]: "length (rows p) = num_slots p"
  by (simp add: rows_def)

lemma page_new_fields:
  "length (page_new n) = PAGE_SIZE" "num_slots (page_new n) = 0" "free_offset (page_new n) = 0"
  by (simp_all add: page_new_def num_slots_def free_offset_def layout)

lemma page_new_ok: "page_ok (page_new n)" "rows (page_new n) = []"
  by (simp_all add: page_ok_def rows_def page_new_fields)

text \<open>What a successful insertion does to every field.\<close>

definition page_insert :: "bytes \<Rightarrow> u16 \<Rightarrow> bytes \<Rightarrow> bytes" where
  "page_insert d n p =
     put16 off_num_slots (get16 off_num_slots p + 1)
       (put16 off_free_offset (get16 off_free_offset p + n)
         (mem_write (PAYLOAD_START + free_offset p) (take (unat n) d)
           (put16 (slot_pos (num_slots p) + 6) 0
             (put16 (slot_pos (num_slots p) + 4) n
               (put32 (slot_pos (num_slots p)) (ucast (get16 off_free_offset p)) p)))))"

lemma insert_row_eq:
  assumes "page_ok p" and "unat n \<le> length d"
  shows "insert_row d n p =
    (if 256 \<le> num_slots p \<or> PAYLOAD_SIZE < free_offset p + unat n then (False, p)
     else (True, page_insert d n p))"
proof (cases "256 \<le> num_slots p \<or> PAYLOAD_SIZE < free_offset p + unat n")
  case True
  then show ?thesis by (auto simp: insert_row_def)
next
  case False
  define q where "q = put16 (slot_pos (num_slots p) + 6) 0 (put16 (slot_pos (num_slots p) + 4) n
    (put32 (slot_pos (num_slots p)) (ucast (get16 10 p)) p))"
  define q4 where "q4 = mem_write (PAYLOAD_START + free_offset p) (take (unat n) d) q"
  have len: "length p = 8192" and k: "num_slots p < 256"
    and f: "free_offset p + unat n \<le> 5888" using assms False by (auto simp: page_ok_def layout)
  have q: "length q = 8192" "get16 10 q = get16 10 p" "get16 8 q = get16 8 p"
    using len k by (simp_all add: q_def slot_pos_def layout)
  then have q4: "length q4 = 8192" "get16 10 q4 = get16 10 p" "get16 8 q4 = get16 8 p"
    using f assms(2) by (simp_all add: q4_def layout)
  have "free_offset q = free_offset p" by (simp add: free_offset_def q)
  then have "insert_row d n p = (True, put16 8 (get16 8 (put16 10 (get16 10 q4 + n) q4) + 1)
      (put16 10 (get16 10 q4 + n) q4))"
    using False by (simp add: insert_row_def Let_def flip: q_def q4_def)
  moreover have "get16 8 (put16 10 (get16 10 q4 + n) q4) = get16 8 q4"
    using q4 by simp
  ultimately show ?thesis using False
    by (simp add: page_insert_def q4 flip: q_def q4_def)
qed

lemma page_insert_fields:
  assumes ok: "page_ok p" and room: "num_slots p < 256" "free_offset p + unat n \<le> PAYLOAD_SIZE"
    and n: "unat n \<le> length d"
  shows "length (page_insert d n p) = PAGE_SIZE"
    and "num_slots (page_insert d n p) = Suc (num_slots p)"
    and "free_offset (page_insert d n p) = free_offset p + unat n"
    and "slot_offset (num_slots p) (page_insert d n p) = free_offset p"
    and "slot_length (num_slots p) (page_insert d n p) = unat n"
    and "mem_read (PAYLOAD_START + free_offset p) (unat n) (page_insert d n p) = take (unat n) d"
proof -
  have len: "length p = 8192" using ok by (simp add: page_ok_def layout)
  have k: "unat (get16 8 p + 1) = Suc (unat (get16 8 p))"
    using room(1) unat_add_u16 [of "get16 8 p" 1] by (simp add: num_slots_def)
  have f: "unat (get16 10 p + n) = unat (get16 10 p) + unat n"
    using room(2) by (intro unat_add_u16) (simp add: free_offset_def layout)
  note [simp] = page_insert_def num_slots_def free_offset_def slot_offset_def slot_length_def
    slot_pos_def layout len k f
  note room' = room [unfolded num_slots_def free_offset_def layout]
  show "length (page_insert d n p) = PAGE_SIZE" using room' n by simp
  show "num_slots (page_insert d n p) = Suc (num_slots p)" using room' n by simp
  show "free_offset (page_insert d n p) = free_offset p + unat n" using room' n by simp
  show "slot_offset (num_slots p) (page_insert d n p) = free_offset p" using room' n by simp
  show "slot_length (num_slots p) (page_insert d n p) = unat n" using room' n by simp
  have n': "length (take (unat n) d) = unat n" using n by simp
  show "mem_read (PAYLOAD_START + free_offset p) (unat n) (page_insert d n p) = take (unat n) d"
    using room' n mem_read_write_same [of _ "take (unat n) d", unfolded n'] by simp
qed

text \<open>The regions are disjoint: earlier slots and earlier rows are not touched.\<close>

lemma page_insert_frame:
  assumes ok: "page_ok p" and room: "num_slots p < 256" "free_offset p + unat n \<le> PAYLOAD_SIZE"
    and n: "unat n \<le> length d"
  shows "i < num_slots p \<Longrightarrow> slot_offset i (page_insert d n p) = slot_offset i p"
    and "i < num_slots p \<Longrightarrow> slot_length i (page_insert d n p) = slot_length i p"
    and "PAYLOAD_START \<le> o2 \<Longrightarrow> o2 + len \<le> PAYLOAD_START + free_offset p \<Longrightarrow>
      mem_read o2 len (page_insert d n p) = mem_read o2 len p"
proof -
  have len: "length p = 8192" using ok by (simp add: page_ok_def layout)
  note [simp] = page_insert_def num_slots_def free_offset_def slot_offset_def slot_length_def
    slot_pos_def layout len
  note room' = room [unfolded num_slots_def free_offset_def layout]
  show "slot_offset i (page_insert d n p) = slot_offset i p" if "i < num_slots p"
    using room' n that by simp
  show "slot_length i (page_insert d n p) = slot_length i p" if "i < num_slots p"
    using room' n that by simp
  show "mem_read o2 len (page_insert d n p) = mem_read o2 len p"
    if "PAYLOAD_START \<le> o2" "o2 + len \<le> PAYLOAD_START + free_offset p"
    using room' n that by (simp add: mem_read_write_disjoint)
qed

lemma page_insert_ok:
  assumes "page_ok p" "num_slots p < 256" "free_offset p + unat n \<le> PAYLOAD_SIZE"
    and "unat n \<le> length d"
  shows "page_ok (page_insert d n p)" and "rows (page_insert d n p) = rows p @ [take (unat n) d]"
proof -
  let ?p = "page_insert d n p" and ?k = "num_slots p"
  note F = page_insert_fields [OF assms] and G = page_insert_frame [OF assms]
  have "slot_offset i ?p + slot_length i ?p =
      (if Suc i < num_slots ?p then slot_offset (Suc i) ?p else free_offset ?p)"
    if "i < num_slots ?p" for i
  proof (cases "i < ?k")
    case True
    then have old: "slot_offset i p + slot_length i p =
        (if Suc i < ?k then slot_offset (Suc i) p else free_offset p)"
      using assms(1) by (simp add: page_ok_def)
    show ?thesis
    proof (cases "Suc i < ?k")
      case True
      with old show ?thesis by (simp add: F G)
    next
      case False
      with \<open>i < ?k\<close> have "Suc i = ?k" by simp
      with old show ?thesis using F(2,4) G(1,2) [of i] by simp
    qed
  next
    case False
    with that have "i = ?k" by (simp add: F)
    then show ?thesis by (simp add: F)
  qed
  then show "page_ok ?p" using assms F by (simp add: page_ok_def)
  have "mem_read (PAYLOAD_START + slot_offset i p) (slot_length i p) ?p =
      mem_read (PAYLOAD_START + slot_offset i p) (slot_length i p) p" if "i < ?k" for i
    using slots_below_free [OF assms(1) that] by (intro G(3)) simp_all
  then have "map (\<lambda>i. mem_read (PAYLOAD_START + slot_offset i ?p) (slot_length i ?p) ?p) [0..<?k] =
      rows p"
    unfolding rows_def by (intro map_cong) (simp_all add: G)
  then show "rows ?p = rows p @ [take (unat n) d]"
    by (simp add: rows_def [of ?p] F)
qed

lemma read_row_rows:
  assumes "page_ok p"
  shows "read_row i p = (if unat i < num_slots p then Read_OK (rows p ! unat i) else Read_False)"
proof (cases "unat i < num_slots p")
  case True
  have "slot_offset (unat i) p + slot_length (unat i) p \<le> PAYLOAD_SIZE"
    using slots_below_free [OF assms True] assms by (simp add: page_ok_def)
  moreover have "unat i < 256" using True assms by (simp add: page_ok_def)
  ultimately show ?thesis using True
    by (simp add: read_row_def rows_def slot_pos_def layout Let_def)
next
  case False
  then show ?thesis by (simp add: read_row_def)
qed

section \<open>The page meets its contract\<close>

text \<open>\<open>insert_row\<close> called with a row and its size, \<open>read_row\<close> as an option.\<close>

definition page_put :: "bytes \<Rightarrow> bytes \<Rightarrow> bool \<times> bytes" where
  "page_put r p = insert_row r (word_of_nat (length r)) p"

definition page_get :: "nat \<Rightarrow> bytes \<Rightarrow> bytes option" where
  "page_get i p =
     (if 65536 \<le> i then None
      else case read_row (word_of_nat i) p of Read_OK r \<Rightarrow> Some r | _ \<Rightarrow> None)"

definition row_fits :: "bytes \<Rightarrow> bool" where
  "row_fits r \<longleftrightarrow> length r < 65536"

lemma page_put_eq:
  assumes "page_ok p" "row_fits r"
  shows "page_put r p =
    (if 256 \<le> num_slots p \<or> PAYLOAD_SIZE < free_offset p + length r then (False, p)
     else (True, page_insert r (word_of_nat (length r)) p))"
proof -
  have "unat (word_of_nat (length r) :: u16) = length r"
    using assms(2) by (simp add: row_fits_def unat_of_nat)
  with assms show ?thesis by (simp add: page_put_def insert_row_eq)
qed

lemma page_put_ok:
  assumes "page_ok p" "row_fits r"
  shows "page_ok (snd (page_put r p))"
    and "rows (snd (page_put r p)) = (if fst (page_put r p) then rows p @ [r] else rows p)"
proof -
  have len: "unat (word_of_nat (length r) :: u16) = length r"
    using assms(2) by (simp add: row_fits_def unat_of_nat)
  then show "page_ok (snd (page_put r p))"
    using assms page_insert_ok(1) [OF assms(1), of "word_of_nat (length r)" r]
    by (simp add: page_put_eq)
  show "rows (snd (page_put r p)) = (if fst (page_put r p) then rows p @ [r] else rows p)"
    using assms len page_insert_ok(2) [OF assms(1), of "word_of_nat (length r)" r]
    by (simp add: page_put_eq)
qed

interpretation sp: row_page page_put page_get rows row_fits page_ok
proof unfold_locales
  fix p :: bytes and r :: bytes and i :: nat
  show "page_ok p \<Longrightarrow> row_fits r \<Longrightarrow> page_ok (snd (page_put r p))" by (rule page_put_ok)
  show "page_ok p \<Longrightarrow> row_fits r \<Longrightarrow>
    rows (snd (page_put r p)) = (if fst (page_put r p) then rows p @ [r] else rows p)"
    by (rule page_put_ok)
  show "page_ok p \<Longrightarrow> page_get i p = (if i < length (rows p) then Some (rows p ! i) else None)"
  proof -
    assume ok: "page_ok p"
    then have "num_slots p \<le> 256" by (simp add: page_ok_def)
    moreover have "unat (word_of_nat i :: u16) = i" if "i < 65536"
      using that by (simp add: unat_of_nat)
    ultimately show ?thesis by (auto simp: page_get_def read_row_rows [OF ok])
  qed
qed

section \<open>The checksum\<close>

lemma foldl_checksum_cong:
  "length p = length q \<Longrightarrow>
   \<forall>i < length p. (off_checksum \<le> k + i \<and> k + i < off_checksum + 4) \<or> p ! i = q ! i \<Longrightarrow>
   foldl (checksum_step True) acc (enumerate k p) = foldl (checksum_step True) acc (enumerate k q)"
proof (induction p q arbitrary: k acc rule: list_induct2)
  case Nil
  then show ?case by simp
next
  case (Cons x xs y ys)
  have "checksum_step True acc (k, x) = checksum_step True acc (k, y)"
    using Cons.prems [rule_format, of 0] by (auto simp: checksum_step_def)
  moreover have "\<forall>i < length xs. (off_checksum \<le> Suc k + i \<and> Suc k + i < off_checksum + 4)
      \<or> xs ! i = ys ! i"
    using Cons.prems by (auto dest: spec [of _ "Suc _"])
  ultimately show ?case using Cons.IH by simp
qed

text \<open>The stored checksum itself is not part of the sum.\<close>

lemma compute_checksum_put:
  assumes "length p = PAGE_SIZE"
  shows "compute_checksum True (put32 off_checksum w p) = compute_checksum True p"
  unfolding compute_checksum_def
  by (rule foldl_checksum_cong) (use assms in \<open>auto simp: put32_def nth_mem_write layout\<close>)

text \<open>
  The accumulator is shifted by one bit per byte, so it is linear in its start value, which
  is shifted out of the 32-bit word after 32 bytes.
\<close>

lemma foldl_checksum_linear:
  "16 \<le> k \<Longrightarrow> foldl (checksum_step b) acc (enumerate k xs) =
     xor (push_bit (length xs) acc) (foldl (checksum_step b) 0 (enumerate k xs))"
proof (induction xs arbitrary: k acc)
  case Nil
  then show ?case by simp
next
  case (Cons x xs)
  have step: "checksum_step b a (k, x) = xor (push_bit 1 a) (ucast x)" for a
    using Cons.prems by (simp add: checksum_step_def)
  let ?t = "foldl (checksum_step b) 0 (enumerate (Suc k) xs)"
  have "foldl (checksum_step b) (xor (push_bit 1 acc) (ucast x)) (enumerate (Suc k) xs) =
      xor (push_bit (length xs) (xor (push_bit 1 acc) (ucast x))) ?t"
    using Cons.prems by (intro Cons.IH) simp
  also have "\<dots> = xor (push_bit (Suc (length xs)) acc) (xor (push_bit (length xs) (ucast x)) ?t)"
    by (simp add: push_bit_xor xor.assoc)
  also have "xor (push_bit (length xs) (ucast x)) ?t =
      foldl (checksum_step b) (ucast x) (enumerate (Suc k) xs)"
    using Cons.prems by (intro Cons.IH [symmetric]) simp
  finally show ?case by (simp add: step)
qed

lemma checksum_tail:
  assumes "length p = PAGE_SIZE"
  shows "compute_checksum b p =
    foldl (checksum_step b) 0 (enumerate (PAGE_SIZE - 32) (drop (PAGE_SIZE - 32) p))"
proof -
  let ?n = "PAGE_SIZE - 32"
  have "enumerate 0 p = enumerate 0 (take ?n p) @ enumerate ?n (drop ?n p)"
    using assms enumerate_append_eq [of 0 "take ?n p" "drop ?n p"] by (simp add: layout)
  moreover have "(push_bit 32 a :: u32) = 0" for a
    by (rule bit_eqI) (simp add: bit_push_bit_iff)
  ultimately show ?thesis
    using assms foldl_checksum_linear [of ?n b "foldl (checksum_step b) 0 (enumerate 0 (take ?n p))"
        "drop ?n p"]
    by (simp add: compute_checksum_def layout)
qed

section \<open>Properties of the page\<close>

text \<open>
  C7. Insertion: on a well-formed page \<open>insert_row\<close> succeeds exactly when a slot and enough
  payload space are left; it then appends exactly that row, leaving all earlier rows as they
  were, and otherwise it changes nothing. The page stays well-formed.
\<close>

theorem insert_row_correct:
  assumes "page_ok p" and "unat n \<le> length d"
  shows "fst (insert_row d n p) = (num_slots p < 256 \<and> free_offset p + unat n \<le> PAYLOAD_SIZE)
    \<and> page_ok (snd (insert_row d n p))
    \<and> rows (snd (insert_row d n p)) =
        (if fst (insert_row d n p) then rows p @ [take (unat n) d] else rows p)
    \<and> (\<not> fst (insert_row d n p) \<longrightarrow> snd (insert_row d n p) = p)"
  using page_insert_ok [OF assms(1) _ _ assms(2)] assms(1)
  by (auto simp: insert_row_eq [OF assms])

theorem insert_row_correct_witness:
  "rows (snd (insert_row [1, 2, 3] 3 (page_new 7))) = [[1, 2, 3]]"
  using insert_row_correct [of "page_new 7" 3 "[1, 2, 3]"]
  by (simp add: page_new_ok page_new_fields layout)

text \<open>
  C8. Reading back: on a well-formed page \<open>read_row\<close> never leaves the page; it returns the
  row of a slot in use and \<open>false\<close> for every other slot number. In particular, whatever rows
  are inserted into a new page, each row that was accepted is read back under its number.
\<close>

theorem read_row_correct:
  assumes "list_all row_fits rs" and "insert_all page_put rs (page_new k) = (stored, q)"
  shows "read_row i q =
    (if unat i < length stored then Read_OK (stored ! unat i) else Read_False)"
proof -
  have "page_ok q \<and> rows q = rows (page_new k) @ stored"
    by (rule sp.insert_all_content [OF page_new_ok(1) assms])
  then have q: "page_ok q" "rows q = stored" by (simp_all add: page_new_ok)
  then show ?thesis using read_row_rows [OF q(1), of i] length_rows [of q] by simp
qed

theorem read_row_correct_witness:
  "read_row 0 (snd (insert_all page_put [[9, 8]] (page_new 1))) = Read_OK [9, 8]"
proof -
  have fits: "list_all row_fits [[9, 8]]" by (simp add: row_fits_def)
  have "fst (insert_all page_put [[9, 8]] (page_new 1)) = [[9, 8]]"
    by (simp add: page_put_eq page_new_ok page_new_fields row_fits_def layout)
  then have "insert_all page_put [[9, 8]] (page_new 1) =
      ([[9, 8]], snd (insert_all page_put [[9, 8]] (page_new 1)))"
    by (metis prod.collapse)
  from read_row_correct [OF fits this, of 0] show ?thesis by simp
qed

lemma put_checksum_frame:
  assumes "page_ok p"
  shows "page_ok (put32 off_checksum w p)" and "rows (put32 off_checksum w p) = rows p"
proof -
  have len: "length p = 8192" using assms by (simp add: page_ok_def layout)
  have f: "num_slots (put32 12 w p) = num_slots p" "free_offset (put32 12 w p) = free_offset p"
    using len by (simp_all add: num_slots_def free_offset_def)
  have sl: "slot_offset i (put32 12 w p) = slot_offset i p \<and>
      slot_length i (put32 12 w p) = slot_length i p" if "i < num_slots p" for i
    using that assms len by (simp add: slot_offset_def slot_length_def slot_pos_def layout page_ok_def)
  show "page_ok (put32 12 w p)"
    using assms f sl len by (auto simp: page_ok_def layout)
  have "mem_read (PAYLOAD_START + slot_offset i p) (slot_length i p) (put32 12 w p) =
      mem_read (PAYLOAD_START + slot_offset i p) (slot_length i p) p" if "i < num_slots p" for i
    using slots_below_free [OF assms that] assms len by (simp add: layout page_ok_def)
  then show "rows (put32 12 w p) = rows p"
    by (simp add: rows_def f sl)
qed

lemma put32_put32: "length p = PAGE_SIZE \<Longrightarrow>
    put32 off_checksum a (put32 off_checksum b p) = put32 off_checksum a p"
  by (simp add: put32_def mem_write_write_same layout)

text \<open>
  C9. Round trip through the byte image: the image of a well-formed page passes
  \<open>verify\<close>, is accepted by \<open>deserialize\<close> into any page object, and restores the same rows.
\<close>

theorem serialize_roundtrip:
  assumes "page_ok p"
  shows "verify (snd (serialize p))
    \<and> fst (deserialize (fst (serialize p)) q)
    \<and> page_ok (snd (deserialize (fst (serialize p)) q))
    \<and> rows (snd (deserialize (fst (serialize p)) q)) = rows p"
proof -
  have len: "length p = PAGE_SIZE" "length p = 8192" using assms by (simp_all add: page_ok_def layout)
  then show ?thesis
    using put_checksum_frame [OF assms]
    by (simp add: serialize_def deserialize_def verify_def Let_def put32_put32
        compute_checksum_put layout)
qed

theorem serialize_roundtrip_witness:
  "rows (snd (deserialize (fst (serialize (page_new 3))) (page_new 0))) = []"
  using serialize_roundtrip [OF page_new_ok(1), of 3 "page_new 0"] by (simp add: page_new_ok)

text \<open>
  What the checksum covers: it depends on the last 32 bytes of the page only. Any
  corruption of a serialized page between the header and these bytes, in particular of the
  slot directory and of almost all rows, is accepted by \<open>deserialize\<close>.
\<close>

theorem corruption_undetected:
  assumes "page_ok p" and "off_checksum + 4 \<le> off" and "off + length junk \<le> PAGE_SIZE - 32"
  shows "fst (deserialize (mem_write off junk (fst (serialize p))) q)"
proof -
  have len: "length p = PAGE_SIZE" "length p = 8192" using assms by (simp_all add: page_ok_def layout)
  define c where "c = compute_checksum True p"
  have s: "fst (serialize p) = put32 12 c p"
    using len by (simp add: serialize_def Let_def put32_put32 compute_checksum_put c_def)
  define t where "t = mem_write off junk (put32 12 c p)"
  have "get32 12 t = get32 12 (put32 12 c p)"
    unfolding t_def using len assms(2,3) by (intro get_mem_write) (auto simp: layout)
  then have t: "length t = PAGE_SIZE" "get32 12 t = c"
    using len assms(3) by (simp_all add: t_def layout)
  have tail: "drop (PAGE_SIZE - 32) t = drop (PAGE_SIZE - 32) p"
    using len assms(2,3)
    by (intro nth_equalityI) (auto simp: t_def put32_def nth_mem_write layout)
  have "compute_checksum True (put32 12 0 t) = c"
    using tail checksum_tail [OF t(1), of True] checksum_tail [OF len(1), of True]
    by (simp add: compute_checksum_put [OF t(1)] c_def)
  with t show ?thesis by (simp add: s deserialize_def Let_def flip: t_def)
qed

theorem corruption_undetected_witness:
  "fst (deserialize (mem_write 256 [255, 255, 255, 255] (fst (serialize (page_new 5)))) (page_new 0))"
  by (rule corruption_undetected) (simp_all add: page_new_ok layout)

text \<open>
  \<open>deserialize\<close> leaves the checksum field cleared, so \<open>verify\<close> on the page that was just
  restored from a valid image fails unless the sum happens to be 0.
\<close>

lemma verify_after_deserialize:
  assumes "page_ok p"
  shows "verify (snd (deserialize (fst (serialize p)) q)) = (compute_checksum True p = 0)"
proof -
  have "length p = PAGE_SIZE" "length p = 8192" using assms by (simp_all add: page_ok_def layout)
  then show ?thesis
    by (auto simp: serialize_def deserialize_def verify_def Let_def put32_put32
        compute_checksum_put layout)
qed

end
