(* ===== verification/Txn_Manager.thy ===== *)
theory Txn_Manager
  imports Dbx4_Prelude
begin

text \<open>
  The transaction manager of \<open>src/transaction_manager.cpp\<close>: transaction-local writes with an
  undo log. The mutex makes every method atomic, so a concurrent execution is a sequence of
  method calls; the theorems quantify over all such sequences.
\<close>

section \<open>State\<close>

record versioned_row =
  vr_version_id :: i32
  vr_is_deleted :: bool
  vr_data :: "string \<rightharpoonup> string"

definition default_row :: versioned_row where
  "default_row = \<lparr>vr_version_id = 0, vr_is_deleted = False, vr_data = Map.empty\<rparr>"

record undo_log_entry =
  ue_table_name :: string
  ue_row_id :: string
  ue_old_version :: versioned_row
  ue_operation :: string

record transaction =
  tx_id :: i32
  tx_active :: bool
  tx_committed :: bool
  local_writes :: "string \<rightharpoonup> versioned_row"
  undo_log :: "undo_log_entry list"
  read_set :: "string set"
  write_set :: "string set"

type_synonym txn_table = "i32 \<rightharpoonup> transaction"

definition row_key :: "string \<Rightarrow> string \<Rightarrow> string" where
  "row_key table row_id = table @ '':'' @ row_id"

section \<open>Operations\<close>

definition tm_begin :: "i32 \<Rightarrow> txn_table \<Rightarrow> bool \<times> txn_table" where
  "tm_begin t m =
     (if m t \<noteq> None then (False, m)
      else (True, m(t \<mapsto> \<lparr>tx_id = t, tx_active = True, tx_committed = False,
        local_writes = Map.empty, undo_log = [], read_set = {}, write_set = {}\<rparr>)))"

definition tm_write :: "undo_log_entry \<Rightarrow> versioned_row \<Rightarrow> transaction \<Rightarrow> transaction" where
  "tm_write undo row txn =
     (let key = row_key (ue_table_name undo) (ue_row_id undo) in
      txn\<lparr>undo_log := undo_log txn @ [undo],
          local_writes := (local_writes txn)(key \<mapsto> row),
          write_set := insert key (write_set txn)\<rparr>)"

definition tm_insert ::
  "i32 \<Rightarrow> string \<Rightarrow> string \<Rightarrow> versioned_row \<Rightarrow> txn_table \<Rightarrow> bool \<times> txn_table" where
  "tm_insert t table row_id row m =
     (case m t of
        None \<Rightarrow> (False, m)
      | Some txn \<Rightarrow>
          let undo = \<lparr>ue_table_name = table, ue_row_id = row_id,
                ue_old_version = default_row\<lparr>vr_is_deleted := True\<rparr>, ue_operation = ''INSERT''\<rparr>
          in (True, m(t \<mapsto> tm_write undo row txn)))"

definition tm_update ::
  "i32 \<Rightarrow> string \<Rightarrow> string \<Rightarrow> versioned_row \<Rightarrow> versioned_row \<Rightarrow> txn_table \<Rightarrow> bool \<times> txn_table" where
  "tm_update t table row_id old_version new_version m =
     (case m t of
        None \<Rightarrow> (False, m)
      | Some txn \<Rightarrow>
          let undo = \<lparr>ue_table_name = table, ue_row_id = row_id,
                ue_old_version = old_version, ue_operation = ''UPDATE''\<rparr>
          in (True, m(t \<mapsto> tm_write undo new_version txn)))"

definition tm_delete_row ::
  "i32 \<Rightarrow> string \<Rightarrow> string \<Rightarrow> versioned_row \<Rightarrow> txn_table \<Rightarrow> bool \<times> txn_table" where
  "tm_delete_row t table row_id old_version m =
     (case m t of
        None \<Rightarrow> (False, m)
      | Some txn \<Rightarrow>
          let undo = \<lparr>ue_table_name = table, ue_row_id = row_id,
                ue_old_version = old_version, ue_operation = ''DELETE''\<rparr>
          in (True, m(t \<mapsto> tm_write undo (old_version\<lparr>vr_is_deleted := True\<rparr>) txn)))"

text \<open>\<open>read\<close> returns the row (its out parameter) or \<open>false\<close>, and records the key either way.\<close>

definition tm_read ::
  "i32 \<Rightarrow> string \<Rightarrow> string \<Rightarrow> txn_table \<Rightarrow> versioned_row option \<times> txn_table" where
  "tm_read t table row_id m =
     (case m t of
        None \<Rightarrow> (None, m)
      | Some txn \<Rightarrow>
          let key = row_key table row_id
          in (local_writes txn key, m(t \<mapsto> txn\<lparr>read_set := insert key (read_set txn)\<rparr>)))"

definition tm_commit :: "i32 \<Rightarrow> txn_table \<Rightarrow> bool \<times> txn_table" where
  "tm_commit t m =
     (case m t of
        None \<Rightarrow> (False, m)
      | Some txn \<Rightarrow> (True, m(t \<mapsto> txn\<lparr>tx_active := False, tx_committed := True\<rparr>)))"

text \<open>One iteration of the undo loop of \<open>rollback\<close>.\<close>

definition undo_step ::
  "(string \<rightharpoonup> versioned_row) \<Rightarrow> undo_log_entry \<Rightarrow> (string \<rightharpoonup> versioned_row)" where
  "undo_step lw e =
     (let key = row_key (ue_table_name e) (ue_row_id e) in
      if ue_operation e = ''INSERT'' then lw(key := None)
      else if ue_operation e = ''UPDATE'' then lw(key \<mapsto> ue_old_version e)
      else if ue_operation e = ''DELETE'' then lw(key \<mapsto> ue_old_version e)
      else lw)"

definition tm_rollback :: "i32 \<Rightarrow> txn_table \<Rightarrow> bool \<times> txn_table" where
  "tm_rollback t m =
     (case m t of
        None \<Rightarrow> (False, m)
      | Some txn \<Rightarrow>
          let txn1 = txn\<lparr>local_writes := foldl undo_step (local_writes txn) (rev (undo_log txn))\<rparr>
          in (True, m(t \<mapsto> txn1\<lparr>tx_active := False, tx_committed := False,
                local_writes := Map.empty, undo_log := []\<rparr>)))"

section \<open>Sequences of calls\<close>

datatype tm_op =
    Tm_Begin i32
  | Tm_Insert i32 string string versioned_row
  | Tm_Update i32 string string versioned_row versioned_row
  | Tm_Delete i32 string string versioned_row
  | Tm_Read i32 string string
  | Tm_Commit i32
  | Tm_Rollback i32

fun tm_step :: "txn_table \<Rightarrow> tm_op \<Rightarrow> txn_table" where
  "tm_step m (Tm_Begin t) = snd (tm_begin t m)"
| "tm_step m (Tm_Insert t tab r row) = snd (tm_insert t tab r row m)"
| "tm_step m (Tm_Update t tab r old new) = snd (tm_update t tab r old new m)"
| "tm_step m (Tm_Delete t tab r old) = snd (tm_delete_row t tab r old m)"
| "tm_step m (Tm_Read t tab r) = snd (tm_read t tab r m)"
| "tm_step m (Tm_Commit t) = snd (tm_commit t m)"
| "tm_step m (Tm_Rollback t) = snd (tm_rollback t m)"

fun op_txn :: "tm_op \<Rightarrow> i32" where
  "op_txn (Tm_Begin t) = t"
| "op_txn (Tm_Insert t tab r row) = t"
| "op_txn (Tm_Update t tab r old new) = t"
| "op_txn (Tm_Delete t tab r old) = t"
| "op_txn (Tm_Read t tab r) = t"
| "op_txn (Tm_Commit t) = t"
| "op_txn (Tm_Rollback t) = t"

text \<open>
  The abstract view of a transaction: what one of its calls writes, and the local state a
  sequence of its calls leaves, from the time it was begun. Rolling back forgets everything.
\<close>

fun op_write :: "tm_op \<Rightarrow> (string \<times> versioned_row) option" where
  "op_write (Tm_Insert t tab r row) = Some (row_key tab r, row)"
| "op_write (Tm_Update t tab r old new) = Some (row_key tab r, new)"
| "op_write (Tm_Delete t tab r old) = Some (row_key tab r, old\<lparr>vr_is_deleted := True\<rparr>)"
| "op_write _ = None"

fun view_step ::
  "(string \<rightharpoonup> versioned_row) option \<Rightarrow> tm_op \<Rightarrow> (string \<rightharpoonup> versioned_row) option" where
  "view_step None (Tm_Begin t) = Some Map.empty"
| "view_step None x = None"
| "view_step (Some lw) (Tm_Rollback t) = Some Map.empty"
| "view_step (Some lw) x =
     (case op_write x of None \<Rightarrow> Some lw | Some (k, row) \<Rightarrow> Some (lw(k \<mapsto> row)))"

definition own_view :: "i32 \<Rightarrow> tm_op list \<Rightarrow> (string \<rightharpoonup> versioned_row) option" where
  "own_view t ops = foldl view_step None (filter (\<lambda>x. op_txn x = t) ops)"

lemmas tm_defs = tm_begin_def tm_insert_def tm_update_def tm_delete_row_def tm_read_def
  tm_commit_def tm_rollback_def tm_write_def Let_def

lemma tm_step_other: "op_txn x \<noteq> t \<Longrightarrow> tm_step m x t = m t"
  by (cases x) (auto simp: tm_defs split: option.splits)

lemma tm_step_view:
  "op_txn x = t \<Longrightarrow> map_option local_writes (tm_step m x t) =
     view_step (map_option local_writes (m t)) x"
  by (cases x) (auto simp: tm_defs split: option.splits)

text \<open>
  The invariant of the table: every transaction is stored under its own number, is not both
  active and committed, and its write set covers its local writes and its undo log.
\<close>

definition undo_key :: "undo_log_entry \<Rightarrow> string" where
  "undo_key e = row_key (ue_table_name e) (ue_row_id e)"

definition txn_ok :: "i32 \<Rightarrow> transaction \<Rightarrow> bool" where
  "txn_ok t txn \<longleftrightarrow> tx_id txn = t \<and> \<not> (tx_active txn \<and> tx_committed txn)
     \<and> dom (local_writes txn) \<subseteq> write_set txn \<and> undo_key ` set (undo_log txn) \<subseteq> write_set txn"

definition tm_ok :: "txn_table \<Rightarrow> bool" where
  "tm_ok m \<longleftrightarrow> (\<forall>t txn. m t = Some txn \<longrightarrow> txn_ok t txn)"

lemma tm_ok_upd: "tm_ok m \<Longrightarrow> txn_ok t txn \<Longrightarrow> tm_ok (m(t \<mapsto> txn))"
  by (simp add: tm_ok_def)

lemma tm_ok_get: "tm_ok m \<Longrightarrow> m t = Some txn \<Longrightarrow> txn_ok t txn"
  by (simp add: tm_ok_def)

lemma tm_write_ok: "txn_ok t txn \<Longrightarrow> txn_ok t (tm_write undo row txn)"
  by (auto simp: txn_ok_def tm_write_def undo_key_def Let_def)

lemma tm_step_ok: "tm_ok m \<Longrightarrow> tm_ok (tm_step m x)"
proof (cases "m (op_txn x)")
  case None
  assume "tm_ok m"
  with None show ?thesis
    by (cases x) (auto simp: tm_begin_def tm_insert_def tm_update_def tm_delete_row_def tm_read_def
        tm_commit_def tm_rollback_def intro!: tm_ok_upd, simp_all add: txn_ok_def)
next
  case (Some txn)
  assume ok: "tm_ok m"
  then have "txn_ok (op_txn x) txn" using Some by (rule tm_ok_get)
  with ok Some show ?thesis
    by (cases x) (auto simp: tm_begin_def tm_insert_def tm_update_def tm_delete_row_def tm_read_def
        tm_commit_def tm_rollback_def Let_def intro!: tm_ok_upd tm_write_ok,
        simp_all add: txn_ok_def)
qed

interpretation tm: step_invariant tm_step tm_ok
  by unfold_locales (rule tm_step_ok)

lemma run_view: "map_option local_writes (run_steps tm_step Map.empty ops t) = own_view t ops"
proof (induction ops rule: rev_induct)
  case Nil
  then show ?case by (simp add: own_view_def)
next
  case (snoc x ops)
  then show ?case
    by (cases "op_txn x = t")
      (simp_all add: run_steps_append own_view_def tm_step_view tm_step_other)
qed

section \<open>Properties\<close>

text \<open>
  C10. Read your own writes, and only those: after any interleaving of calls of any number of
  transactions, \<open>read\<close> of a transaction returns exactly what its own calls have written
  last to that key since it was begun or rolled back; calls of other transactions are
  invisible.
\<close>

theorem read_own_writes:
  "fst (tm_read t table row_id (run_steps tm_step Map.empty ops)) =
     (case own_view t ops of None \<Rightarrow> None | Some lw \<Rightarrow> lw (row_key table row_id))"
  using run_view [of ops t] by (auto simp: tm_read_def Let_def split: option.splits)

text \<open>
  The invariant of the transaction table holds after every sequence of calls.
\<close>

theorem table_invariant: "tm_ok (run_steps tm_step Map.empty ops)"
  by (rule tm.run_inv) (simp add: tm_ok_def)

text \<open>
  Rollback at any point of any history: the transaction's reads find nothing, its undo
  log is empty and it is neither active nor committed (also when it had been committed
  before, whose commit is then lost), and every other transaction is as it was.
\<close>

theorem rollback_discards:
  assumes "own_view t ops \<noteq> None"
  shows "let m = run_steps tm_step Map.empty ops;
             m' = run_steps tm_step Map.empty (ops @ [Tm_Rollback t])
    in fst (tm_read t table row_id m') = None
      \<and> map_option tx_active (m' t) = Some False \<and> map_option tx_committed (m' t) = Some False
      \<and> map_option undo_log (m' t) = Some []
      \<and> (\<forall>u. u \<noteq> t \<longrightarrow> m' u = m u)"
proof -
  obtain txn where "run_steps tm_step Map.empty ops t = Some txn"
    using assms run_view [of ops t] by auto
  then show ?thesis by (simp add: run_steps_append tm_rollback_def tm_read_def Let_def)
qed

theorem rollback_discards_witness:
  "map_option tx_committed
     (run_steps tm_step Map.empty ([Tm_Begin 1, Tm_Commit 1] @ [Tm_Rollback 1]) 1) = Some False"
proof -
  have "own_view 1 [Tm_Begin 1, Tm_Commit 1] \<noteq> None" by (simp add: own_view_def)
  from rollback_discards [OF this] show ?thesis by (simp only: Let_def)
qed

text \<open>
  Keys are the concatenation of table and row with a colon: two rows are told apart whenever
  neither table name contains a colon; a colon in a table name makes different rows share
  one local write.
\<close>

lemma row_key_inj:
  assumes "CHR '':'' \<notin> set a" and "CHR '':'' \<notin> set b"
  shows "row_key a r = row_key b s \<longleftrightarrow> a = b \<and> r = s"
proof
  assume eq: "row_key a r = row_key b s"
  have "takeWhile (\<lambda>c. c \<noteq> CHR '':'') (row_key x y) = x" if "CHR '':'' \<notin> set x" for x y
    using that by (auto simp: row_key_def takeWhile_append)
  then have "a = b" using eq assms by metis
  with eq show "a = b \<and> r = s" by (simp add: row_key_def)
qed simp

lemma row_key_collision: "row_key ''a:b'' ''c'' = row_key ''a'' ''b:c''"
  by (simp add: row_key_def)

end
