(* ===== verification/Txn_Visibility.thy ===== *)
theory Txn_Visibility
  imports Dbx4_Prelude
begin

text \<open>
  Versioned rows with transaction visibility: \<open>include/dbx4/transaction_state.h\<close> and
  \<open>src/transaction_correctness.cpp\<close> (BEGIN, INSERT, COMMIT, ROLLBACK, visible row count).
  Transaction numbers are integers: the code's \<open>int\<close> counter is assumed not to overflow
  (fewer than \<open>2 ^ 31\<close> transactions). Output to the console is not modelled.
\<close>

section \<open>State\<close>

datatype tx_state = ACTIVE | COMMITTED | ABORTED

record version =
  v_data :: "string \<rightharpoonup> string"
  v_version_id :: int
  v_created_at :: int
  v_deleted_at :: int
  v_creator_tx_id :: int
  v_tx_state :: tx_state

definition is_visible_to :: "int \<Rightarrow> version \<Rightarrow> bool" where
  "is_visible_to reader v =
     (if v_tx_state v = COMMITTED then True
      else if v_creator_tx_id v = reader \<and> v_tx_state v = ACTIVE then True
      else False)"

definition is_deleted :: "version \<Rightarrow> bool" where
  "is_deleted v \<longleftrightarrow> 0 \<le> v_deleted_at v"

record txn =
  x_tx_id :: int
  x_start_time :: int
  x_state :: tx_state
  x_write_set :: "(string, string set) omap"
  x_read_set :: "(string, string set) omap"

type_synonym vtable = "(string, version list) omap"

record db =
  db_tables :: "(string, vtable) omap"
  db_active :: "int \<rightharpoonup> txn"
  db_next_tx_id :: int

definition db_new :: db where
  "db_new = \<lparr>db_tables = [], db_active = Map.empty, db_next_tx_id = 1\<rparr>"

section \<open>Operations\<close>

definition begin_transaction :: "db \<Rightarrow> int \<times> db" where
  "begin_transaction d =
     (let t = db_next_tx_id d;
          tx = \<lparr>x_tx_id = t, x_start_time = 0, x_state = ACTIVE, x_write_set = [], x_read_set = []\<rparr>
      in (t, d\<lparr>db_next_tx_id := t + 1, db_active := (db_active d)(t \<mapsto> tx)\<rparr>))"

definition insert_in_tx :: "int \<Rightarrow> string \<Rightarrow> string \<Rightarrow> (string \<rightharpoonup> string) \<Rightarrow> db \<Rightarrow> db" where
  "insert_in_tx t tab key dat d =
     (case db_active d t of
        None \<Rightarrow> d
      | Some tx \<Rightarrow>
          let tbl = (case map_of (db_tables d) tab of None \<Rightarrow> [] | Some tbl \<Rightarrow> tbl);
              v = \<lparr>v_data = dat, v_version_id = 0, v_created_at = 0, v_deleted_at = -1,
                   v_creator_tx_id = t, v_tx_state = ACTIVE\<rparr>;
              vs = (case map_of tbl key of None \<Rightarrow> [] | Some vs \<Rightarrow> vs);
              ks = (case map_of (x_write_set tx) tab of None \<Rightarrow> {} | Some ks \<Rightarrow> ks)
          in d\<lparr>db_tables := omap_insert tab (omap_insert key (vs @ [v]) tbl) (db_tables d),
               db_active := (db_active d)(t \<mapsto>
                 tx\<lparr>x_write_set := omap_insert tab (insert key ks) (x_write_set tx)\<rparr>)\<rparr>)"

text \<open>The inner loops of COMMIT and ROLLBACK over the versions of the written rows.\<close>

definition mark_version :: "int \<Rightarrow> tx_state \<Rightarrow> version \<Rightarrow> version" where
  "mark_version t st v =
     (if v_creator_tx_id v = t \<and> v_tx_state v = ACTIVE then v\<lparr>v_tx_state := st\<rparr> else v)"

definition mark_rows :: "int \<Rightarrow> tx_state \<Rightarrow> string set \<Rightarrow> vtable \<Rightarrow> vtable" where
  "mark_rows t st keys tbl =
     map (\<lambda>(k, vs). (k, if k \<in> keys then map (mark_version t st) vs else vs)) tbl"

definition mark_table ::
  "int \<Rightarrow> tx_state \<Rightarrow> (string, vtable) omap \<Rightarrow> string \<times> string set \<Rightarrow> (string, vtable) omap" where
  "mark_table t st tabs w =
     (case map_of tabs (fst w) of
        None \<Rightarrow> tabs
      | Some tbl \<Rightarrow> omap_insert (fst w) (mark_rows t st (snd w) tbl) tabs)"

definition commit_transaction :: "int \<Rightarrow> db \<Rightarrow> bool \<times> db" where
  "commit_transaction t d =
     (case db_active d t of
        None \<Rightarrow> (False, d)
      | Some tx \<Rightarrow>
          if \<not> list_all (\<lambda>w. map_of (db_tables d) (fst w) \<noteq> None) (x_write_set tx)
          then (False, d)
          else (True, d\<lparr>db_tables := foldl (mark_table t COMMITTED) (db_tables d) (x_write_set tx),
                        db_active := (db_active d)(t := None)\<rparr>))"

definition rollback_transaction :: "int \<Rightarrow> db \<Rightarrow> bool \<times> db" where
  "rollback_transaction t d =
     (case db_active d t of
        None \<Rightarrow> (False, d)
      | Some tx \<Rightarrow>
          (True, d\<lparr>db_tables := foldl (mark_table t ABORTED) (db_tables d) (x_write_set tx),
                   db_active := (db_active d)(t := None)\<rparr>))"

definition count_visible_rows :: "int \<Rightarrow> string \<Rightarrow> db \<Rightarrow> nat" where
  "count_visible_rows reader tab d =
     (case map_of (db_tables d) tab of
        None \<Rightarrow> 0
      | Some tbl \<Rightarrow>
          length (filter (\<lambda>(k, vs). list_ex (\<lambda>v. is_visible_to reader v \<and> \<not> is_deleted v) vs) tbl))"

datatype db_op =
    Db_Begin
  | Db_Insert int string string "string \<rightharpoonup> string"
  | Db_Commit int
  | Db_Rollback int

fun db_step :: "db \<Rightarrow> db_op \<Rightarrow> db" where
  "db_step d Db_Begin = snd (begin_transaction d)"
| "db_step d (Db_Insert t tab key dat) = insert_in_tx t tab key dat d"
| "db_step d (Db_Commit t) = snd (commit_transaction t d)"
| "db_step d (Db_Rollback t) = snd (rollback_transaction t d)"

section \<open>The versions of a row\<close>

definition versions :: "string \<Rightarrow> string \<Rightarrow> (string, vtable) omap \<Rightarrow> version list" where
  "versions tab key tabs =
     (case map_of tabs tab of
        None \<Rightarrow> []
      | Some tbl \<Rightarrow> (case map_of tbl key of None \<Rightarrow> [] | Some vs \<Rightarrow> vs))"

definition written :: "(string, string set) omap \<Rightarrow> string \<Rightarrow> string \<Rightarrow> bool" where
  "written ws tab key \<longleftrightarrow> (\<exists>ks. map_of ws tab = Some ks \<and> key \<in> ks)"

lemma map_of_mark_rows:
  "map_of (mark_rows t st ks tbl) key =
     map_option (\<lambda>vs. if key \<in> ks then map (mark_version t st) vs else vs) (map_of tbl key)"
  by (induction tbl) (auto simp: mark_rows_def)

lemma versions_mark_table:
  "versions tab key (mark_table t st tabs w) =
     (if tab = fst w \<and> key \<in> snd w then map (mark_version t st) (versions tab key tabs)
      else versions tab key tabs)"
  by (auto simp: versions_def mark_table_def map_of_mark_rows split: option.splits)

lemma mark_version_idem:
  "st \<noteq> ACTIVE \<Longrightarrow> mark_version t st (mark_version t st v) = mark_version t st v"
  by (simp add: mark_version_def)

lemma versions_mark_tables:
  "st \<noteq> ACTIVE \<Longrightarrow> versions tab key (foldl (mark_table t st) tabs ws) =
     (if \<exists>ks. (tab, ks) \<in> set ws \<and> key \<in> ks then map (mark_version t st) (versions tab key tabs)
      else versions tab key tabs)"
proof (induction ws arbitrary: tabs)
  case Nil
  then show ?case by simp
next
  case (Cons w ws)
  then show ?case
    by (cases w) (auto simp: versions_mark_table comp_def mark_version_idem)
qed

lemma versions_insert:
  assumes "db_active d t = Some tx"
  shows "versions tab key (db_tables (insert_in_tx t tab' key' dat d)) =
    (if tab = tab' \<and> key = key'
     then versions tab key (db_tables d) @
       [\<lparr>v_data = dat, v_version_id = 0, v_created_at = 0, v_deleted_at = -1,
         v_creator_tx_id = t, v_tx_state = ACTIVE\<rparr>]
     else versions tab key (db_tables d))"
  using assms by (auto simp: insert_in_tx_def versions_def Let_def split: option.splits)

section \<open>The invariant\<close>

text \<open>
  Uncommitted versions belong to running transactions that know where they wrote, versions of
  running transactions are uncommitted, and every table a running transaction wrote exists.
\<close>

definition ver_ok :: "db \<Rightarrow> bool" where
  "ver_ok d \<longleftrightarrow> (\<forall>tab key. \<forall>v \<in> set (versions tab key (db_tables d)).
     v_creator_tx_id v < db_next_tx_id d
     \<and> (v_tx_state v = ACTIVE \<longleftrightarrow> db_active d (v_creator_tx_id v) \<noteq> None)
     \<and> (\<forall>tx. db_active d (v_creator_tx_id v) = Some tx \<longrightarrow> written (x_write_set tx) tab key))"

definition act_ok :: "db \<Rightarrow> bool" where
  "act_ok d \<longleftrightarrow> (\<forall>t tx. db_active d t = Some tx \<longrightarrow>
     t < db_next_tx_id d \<and> omap_ok (x_write_set tx)
     \<and> (\<forall>tab. map_of (x_write_set tx) tab \<noteq> None \<longrightarrow> map_of (db_tables d) tab \<noteq> None))"

definition shape_ok :: "db \<Rightarrow> bool" where
  "shape_ok d \<longleftrightarrow> omap_ok (db_tables d) \<and>
     (\<forall>tab tbl. map_of (db_tables d) tab = Some tbl \<longrightarrow> omap_ok tbl)"

definition db_ok :: "db \<Rightarrow> bool" where
  "db_ok d \<longleftrightarrow> ver_ok d \<and> act_ok d \<and> shape_ok d"

lemma ver_okD:
  assumes "ver_ok d" "v \<in> set (versions tab key (db_tables d))"
  shows "v_creator_tx_id v < db_next_tx_id d"
    and "v_tx_state v = ACTIVE \<longleftrightarrow> db_active d (v_creator_tx_id v) \<noteq> None"
    and "db_active d (v_creator_tx_id v) = Some tx \<Longrightarrow> written (x_write_set tx) tab key"
  using assms by (auto simp: ver_ok_def)

lemma begin_ok:
  assumes "db_ok d"
  shows "db_ok (snd (begin_transaction d))"
proof -
  have "ver_ok (snd (begin_transaction d))"
    using assms by (fastforce simp: ver_ok_def db_ok_def begin_transaction_def Let_def)
  moreover have "act_ok (snd (begin_transaction d))"
    using assms by (auto simp: act_ok_def db_ok_def begin_transaction_def Let_def intro: less_imp_le)
  moreover have "shape_ok (snd (begin_transaction d))"
    using assms by (simp add: shape_ok_def db_ok_def begin_transaction_def Let_def)
  ultimately show ?thesis by (simp add: db_ok_def)
qed

lemma insert_in_tx_active:
  assumes "db_active d t = Some tx"
  shows "db_active (insert_in_tx t tab key dat d) = (db_active d)(t \<mapsto>
      tx\<lparr>x_write_set := omap_insert tab
        (insert key (case map_of (x_write_set tx) tab of None \<Rightarrow> {} | Some ks \<Rightarrow> ks)) (x_write_set tx)\<rparr>)"
    and "db_next_tx_id (insert_in_tx t tab key dat d) = db_next_tx_id d"
  using assms by (simp_all add: insert_in_tx_def Let_def)

lemma written_insert:
  "written (omap_insert tab (insert key (case map_of ws tab of None \<Rightarrow> {} | Some ks \<Rightarrow> ks)) ws) tab' key'
     \<longleftrightarrow> (tab' = tab \<and> key' = key) \<or> written ws tab' key'"
  by (auto simp: written_def split: option.splits)

lemma insert_ok:
  assumes "db_ok d"
  shows "db_ok (insert_in_tx t tab key dat d)"
proof (cases "db_active d t")
  case None
  then show ?thesis using assms by (simp add: insert_in_tx_def)
next
  case (Some tx)
  let ?d = "insert_in_tx t tab key dat d"
  have ok: "ver_ok d" "act_ok d" "shape_ok d" using assms by (simp_all add: db_ok_def)
  have t: "t < db_next_tx_id d" using ok(2) Some by (auto simp: act_ok_def)
  have "ver_ok ?d"
    unfolding ver_ok_def
  proof (intro allI ballI)
    fix tab' key' v
    assume v: "v \<in> set (versions tab' key' (db_tables ?d))"
    show "v_creator_tx_id v < db_next_tx_id ?d
      \<and> (v_tx_state v = ACTIVE \<longleftrightarrow> db_active ?d (v_creator_tx_id v) \<noteq> None)
      \<and> (\<forall>tx. db_active ?d (v_creator_tx_id v) = Some tx \<longrightarrow> written (x_write_set tx) tab' key')"
    proof (cases "v \<in> set (versions tab' key' (db_tables d))")
      case True
      then show ?thesis using ver_okD [OF ok(1) True] Some
        by (auto simp: insert_in_tx_active [OF Some] written_insert)
    next
      case False
      with v have "tab' = tab" "key' = key" "v_creator_tx_id v = t" "v_tx_state v = ACTIVE"
        by (auto simp: versions_insert [OF Some] split: if_splits)
      then show ?thesis using t by (auto simp: insert_in_tx_active [OF Some] written_insert)
    qed
  qed
  moreover have "act_ok ?d"
    using ok(2) Some by (auto simp: act_ok_def insert_in_tx_def Let_def)
  moreover have "shape_ok ?d"
    using ok(3) Some by (auto simp: shape_ok_def insert_in_tx_def Let_def split: option.splits)
  ultimately show ?thesis by (simp add: db_ok_def)
qed

text \<open>COMMIT and ROLLBACK end a transaction in the same way, up to the state they mark.\<close>

definition end_tx :: "int \<Rightarrow> tx_state \<Rightarrow> txn \<Rightarrow> db \<Rightarrow> db" where
  "end_tx t st tx d =
     d\<lparr>db_tables := foldl (mark_table t st) (db_tables d) (x_write_set tx),
       db_active := (db_active d)(t := None)\<rparr>"

lemma commit_end:
  assumes "act_ok d" "db_active d t = Some tx"
  shows "commit_transaction t d = (True, end_tx t COMMITTED tx d)"
proof -
  have "list_all (\<lambda>w. map_of (db_tables d) (fst w) \<noteq> None) (x_write_set tx)"
    unfolding list_all_iff
  proof
    fix w assume "w \<in> set (x_write_set tx)"
    then have "map_of (x_write_set tx) (fst w) \<noteq> None"
      by (simp add: map_of_eq_None_iff del: not_None_eq)
    with assms show "map_of (db_tables d) (fst w) \<noteq> None" by (auto simp: act_ok_def)
  qed
  with assms(2) show ?thesis by (auto simp: commit_transaction_def end_tx_def)
qed

lemma rollback_end:
  "db_active d t = Some tx \<Longrightarrow> rollback_transaction t d = (True, end_tx t ABORTED tx d)"
  by (simp add: rollback_transaction_def end_tx_def)

lemma written_entry:
  "omap_ok ws \<Longrightarrow> (\<exists>ks. (tab, ks) \<in> set ws \<and> key \<in> ks) \<longleftrightarrow> written ws tab key"
  by (simp add: written_def map_of_eq_Some_iff [OF omap_ok_distinct])

text \<open>All versions of the ended transaction, and only these, change their state.\<close>

lemma versions_end_tx:
  assumes "db_ok d" "db_active d t = Some tx" "st \<noteq> ACTIVE"
  shows "versions tab key (db_tables (end_tx t st tx d)) =
    map (\<lambda>v. if v_creator_tx_id v = t then v\<lparr>v_tx_state := st\<rparr> else v) (versions tab key (db_tables d))"
proof -
  have ok: "ver_ok d" "omap_ok (x_write_set tx)"
    using assms by (auto simp: db_ok_def act_ok_def)
  show ?thesis
  proof (cases "written (x_write_set tx) tab key")
    case True
    have "mark_version t st v = (if v_creator_tx_id v = t then v\<lparr>v_tx_state := st\<rparr> else v)"
      if "v \<in> set (versions tab key (db_tables d))" for v
      using ver_okD(2) [OF ok(1) that] assms(2) by (auto simp: mark_version_def)
    with True show ?thesis
      by (simp add: end_tx_def versions_mark_tables [OF assms(3)] written_entry [OF ok(2)])
  next
    case False
    have "v_creator_tx_id v \<noteq> t" if "v \<in> set (versions tab key (db_tables d))" for v
      using ver_okD(3) [OF ok(1) that, of tx] assms(2) False by auto
    then have "map (\<lambda>v. if v_creator_tx_id v = t then v\<lparr>v_tx_state := st\<rparr> else v)
        (versions tab key (db_tables d)) = versions tab key (db_tables d)"
      by (intro map_idI) simp
    with False show ?thesis
      by (simp add: end_tx_def versions_mark_tables [OF assms(3)] written_entry [OF ok(2)])
  qed
qed

lemma mark_tables_dom:
  "map_of (foldl (mark_table t st) tabs ws) tab = None \<longleftrightarrow> map_of tabs tab = None"
proof (induction ws arbitrary: tabs)
  case (Cons w ws)
  then show ?case by (auto simp: mark_table_def split: option.splits)
qed simp

lemma omap_ok_mark_rows: "omap_ok (mark_rows t st ks tbl) = omap_ok tbl"
  by (simp add: omap_ok_def mark_rows_def comp_def case_prod_beta)

lemma mark_tables_shape:
  "omap_ok tabs \<and> (\<forall>tab tbl. map_of tabs tab = Some tbl \<longrightarrow> omap_ok tbl) \<Longrightarrow>
   omap_ok (foldl (mark_table t st) tabs ws) \<and>
   (\<forall>tab tbl. map_of (foldl (mark_table t st) tabs ws) tab = Some tbl \<longrightarrow> omap_ok tbl)"
proof (induction ws arbitrary: tabs)
  case (Cons w ws)
  then have "omap_ok (mark_table t st tabs w) \<and>
      (\<forall>tab tbl. map_of (mark_table t st tabs w) tab = Some tbl \<longrightarrow> omap_ok tbl)"
    by (auto simp: mark_table_def omap_ok_mark_rows split: option.splits)
  then show ?case using Cons.IH [of "mark_table t st tabs w"] by simp
qed simp

lemma end_tx_ok:
  assumes "db_ok d" "db_active d t = Some tx" "st \<noteq> ACTIVE"
  shows "db_ok (end_tx t st tx d)"
proof -
  have ok: "ver_ok d" "act_ok d" "shape_ok d" using assms by (simp_all add: db_ok_def)
  have act: "db_active (end_tx t st tx d) = (db_active d)(t := None)"
    "db_next_tx_id (end_tx t st tx d) = db_next_tx_id d" by (simp_all add: end_tx_def)
  have "ver_ok (end_tx t st tx d)"
    unfolding ver_ok_def versions_end_tx [OF assms]
    using ver_okD [OF ok(1)] assms(3) by (fastforce simp: act)
  moreover have "act_ok (end_tx t st tx d)"
    using ok(2) by (auto simp: act_ok_def end_tx_def mark_tables_dom)
  moreover have "shape_ok (end_tx t st tx d)"
    using ok(3) mark_tables_shape by (simp add: shape_ok_def end_tx_def)
  ultimately show ?thesis by (simp add: db_ok_def)
qed

lemma db_step_ok: "db_ok d \<Longrightarrow> db_ok (db_step d x)"
proof (cases x)
  case (Db_Commit t)
  assume ok: "db_ok d"
  show ?thesis
  proof (cases "db_active d t")
    case None
    with ok show ?thesis by (simp add: Db_Commit commit_transaction_def)
  next
    case (Some tx)
    moreover have "act_ok d" using ok by (simp add: db_ok_def)
    ultimately show ?thesis using ok by (simp add: Db_Commit commit_end end_tx_ok)
  qed
next
  case (Db_Rollback t)
  assume ok: "db_ok d"
  show ?thesis
  proof (cases "db_active d t")
    case None
    with ok show ?thesis by (simp add: Db_Rollback rollback_transaction_def)
  next
    case (Some tx)
    with ok show ?thesis by (simp add: Db_Rollback rollback_end end_tx_ok)
  qed
qed (simp_all add: begin_ok insert_ok)

interpretation vis: step_invariant db_step db_ok
  by unfold_locales (rule db_step_ok)

lemma db_new_ok: "db_ok db_new"
  by (simp add: db_ok_def ver_ok_def act_ok_def shape_ok_def db_new_def versions_def)

text \<open>The database after a sequence of calls.\<close>

abbreviation db_after :: "db_op list \<Rightarrow> db" where
  "db_after ops \<equiv> run_steps db_step db_new ops"

lemma db_after_ok: "db_ok (db_after ops)"
  by (rule vis.run_inv [OF db_new_ok])

lemma active_iff_dom: "db_active d t \<noteq> None \<longleftrightarrow> (\<exists>tx. db_active d t = Some tx)"
  by simp

section \<open>Properties\<close>

text \<open>
  C11. Atomic commit: after any sequence of calls, COMMIT of a running transaction succeeds
  (the table check never fails) and turns exactly the versions of this transaction, all of
  them, into committed ones; they are then visible to every reader.
\<close>

theorem commit_atomic:
  assumes "db_active (db_after ops) t \<noteq> None"
  shows "fst (commit_transaction t (db_after ops))
    \<and> versions tab key (db_tables (snd (commit_transaction t (db_after ops)))) =
        map (\<lambda>v. if v_creator_tx_id v = t then v\<lparr>v_tx_state := COMMITTED\<rparr> else v)
          (versions tab key (db_tables (db_after ops)))
    \<and> db_active (snd (commit_transaction t (db_after ops))) t = None
    \<and> (v \<in> set (versions tab key (db_tables (db_after ops))) \<longrightarrow> v_creator_tx_id v = t \<longrightarrow>
        is_visible_to reader (v\<lparr>v_tx_state := COMMITTED\<rparr>))"
proof -
  obtain tx where tx: "db_active (db_after ops) t = Some tx" using assms by blast
  have "commit_transaction t (db_after ops) = (True, end_tx t COMMITTED tx (db_after ops))"
    using commit_end [OF _ tx] db_after_ok [of ops] by (simp add: db_ok_def)
  then show ?thesis
    using versions_end_tx [OF db_after_ok tx, of COMMITTED tab key]
    by (simp add: is_visible_to_def end_tx_def)
qed

theorem commit_atomic_witness:
  "fst (commit_transaction 1 (db_after [Db_Begin, Db_Insert 1 ''t'' ''r'' Map.empty]))"
proof -
  have "db_active (db_after [Db_Begin, Db_Insert 1 ''t'' ''r'' Map.empty]) 1 \<noteq> None"
    by (simp add: db_new_def begin_transaction_def insert_in_tx_def Let_def)
  from commit_atomic [OF this] show ?thesis by blast
qed

text \<open>
  Rollback: after any sequence of calls, ROLLBACK of a running transaction succeeds and
  turns exactly the versions of this transaction into aborted ones; no reader, not even the
  transaction itself, sees any of them afterwards, and all other versions are unchanged.
\<close>

theorem rollback_invisible:
  assumes "db_active (db_after ops) t \<noteq> None"
  shows "fst (rollback_transaction t (db_after ops))
    \<and> versions tab key (db_tables (snd (rollback_transaction t (db_after ops)))) =
        map (\<lambda>v. if v_creator_tx_id v = t then v\<lparr>v_tx_state := ABORTED\<rparr> else v)
          (versions tab key (db_tables (db_after ops)))
    \<and> filter (is_visible_to reader)
          (versions tab key (db_tables (snd (rollback_transaction t (db_after ops))))) =
        filter (\<lambda>v. is_visible_to reader v \<and> v_creator_tx_id v \<noteq> t)
          (versions tab key (db_tables (db_after ops)))"
proof -
  obtain tx where tx: "db_active (db_after ops) t = Some tx" using assms by blast
  let ?vs = "versions tab key (db_tables (db_after ops))"
  let ?f = "\<lambda>v. if v_creator_tx_id v = t then v\<lparr>v_tx_state := ABORTED\<rparr> else v"
  have "filter (is_visible_to reader) (map ?f vs) =
      filter (\<lambda>v. is_visible_to reader v \<and> v_creator_tx_id v \<noteq> t) vs" for vs
    by (induction vs) (auto simp: is_visible_to_def)
  then show ?thesis
    using versions_end_tx [OF db_after_ok tx, of ABORTED tab key] by (simp add: rollback_end [OF tx])
qed

theorem rollback_invisible_witness:
  "fst (rollback_transaction 1 (db_after [Db_Begin, Db_Insert 1 ''t'' ''r'' Map.empty]))"
proof -
  have "db_active (db_after [Db_Begin, Db_Insert 1 ''t'' ''r'' Map.empty]) 1 \<noteq> None"
    by (simp add: db_new_def begin_transaction_def insert_in_tx_def Let_def)
  from rollback_invisible [OF this] show ?thesis by blast
qed

definition row_visible :: "int \<Rightarrow> version list \<Rightarrow> bool" where
  "row_visible reader vs = list_ex (\<lambda>v. is_visible_to reader v \<and> \<not> is_deleted v) vs"

lemma count_visible_insert:
  assumes "db_ok d" and tx: "db_active d t = Some tx"
  shows "count_visible_rows reader tab (insert_in_tx t tab' key dat d) =
    count_visible_rows reader tab d +
    (if tab = tab' \<and> reader = t \<and> \<not> row_visible reader (versions tab' key (db_tables d)) then 1 else 0)"
proof (cases "tab = tab'")
  case False
  with tx show ?thesis by (simp add: count_visible_rows_def insert_in_tx_def Let_def)
next
  case True
  define tbl where "tbl = (case map_of (db_tables d) tab' of None \<Rightarrow> [] | Some tbl \<Rightarrow> tbl)"
  define v where "v = \<lparr>v_data = dat, v_version_id = 0, v_created_at = 0, v_deleted_at = -1,
    v_creator_tx_id = t, v_tx_state = ACTIVE\<rparr>"
  define vs where "vs = versions tab' key (db_tables d)"
  let ?P = "\<lambda>(k, vs). row_visible reader vs"
  have vs: "(case map_of tbl key of None \<Rightarrow> [] | Some vs \<Rightarrow> vs) = vs"
    by (simp add: vs_def tbl_def versions_def split: option.splits)
  have ok: "omap_ok tbl"
    using assms(1) by (auto simp: tbl_def db_ok_def shape_ok_def split: option.splits)
  have new: "row_visible reader (vs @ [v]) \<longleftrightarrow> row_visible reader vs \<or> reader = t"
    by (auto simp: row_visible_def v_def is_visible_to_def is_deleted_def)
  have old: "(case map_of tbl key of None \<Rightarrow> 0 | Some w \<Rightarrow> if ?P (key, w) then 1 else 0) =
      (if row_visible reader vs then 1 else (0 :: nat))"
    using vs by (cases "map_of tbl key") (auto simp: row_visible_def)
  have "count_visible_rows reader tab (insert_in_tx t tab' key dat d) =
      length (filter ?P (omap_insert key (vs @ [v]) tbl))"
    using tx True vs
    by (simp add: count_visible_rows_def insert_in_tx_def Let_def row_visible_def flip: tbl_def v_def)
  moreover have "count_visible_rows reader tab d = length (filter ?P tbl)"
    using True by (simp add: count_visible_rows_def tbl_def row_visible_def split: option.splits)
  ultimately show ?thesis
    unfolding vs_def [symmetric]
    using length_filter_omap_insert [OF ok, of ?P key "vs @ [v]"] True old new by auto
qed

text \<open>
  Isolation of uncommitted inserts: after any sequence of calls, an INSERT of one
  transaction does not change the row count any other reader sees in any table; the
  inserting transaction itself sees one row more exactly when the row was not visible to it
  before.
\<close>

theorem insert_isolated:
  assumes "db_active (db_after ops) t \<noteq> None"
  shows "count_visible_rows reader tab (insert_in_tx t tab' key dat (db_after ops)) =
    count_visible_rows reader tab (db_after ops) +
    (if tab = tab' \<and> reader = t
        \<and> \<not> row_visible reader (versions tab' key (db_tables (db_after ops))) then 1 else 0)"
proof -
  obtain tx where "db_active (db_after ops) t = Some tx" using assms by blast
  then show ?thesis by (rule count_visible_insert [OF db_after_ok])
qed

theorem insert_isolated_witness:
  "count_visible_rows 2 ''t'' (insert_in_tx 1 ''t'' ''r'' Map.empty (db_after [Db_Begin, Db_Begin])) =
   count_visible_rows 2 ''t'' (db_after [Db_Begin, Db_Begin])"
proof -
  have "db_active (db_after [Db_Begin, Db_Begin]) 1 \<noteq> None"
    by (simp add: db_new_def begin_transaction_def Let_def)
  from insert_isolated [OF this, of 2 "''t''" "''t''" "''r''" Map.empty] show ?thesis by simp
qed

end
