(* ===== verification/Mvcc_Locks.thy ===== *)
theory Mvcc_Locks
  imports Dbx4_Prelude
begin

text \<open>
  Snapshots, row versions and row locks of \<open>src/mvcc_locks.cpp\<close>: \<open>SnapshotManager\<close>,
  \<open>VersionManager\<close>, \<open>LockManager\<close> and the \<open>MVCCCoordinator\<close> that combines them. Every
  method of the managers is atomic under its mutex. Counters are 64-bit words and wrap.
\<close>

section \<open>SnapshotManager\<close>

record snapshot =
  sn_snapshot_id :: u64
  sn_snapshot_version :: u64
  sn_timestamp :: u64
  sn_active_transactions :: "u64 set"

record snapshot_manager =
  snapshots :: "(u64, snapshot) omap"
  next_snapshot_id :: u64

definition sm_new :: snapshot_manager where
  "sm_new = \<lparr>snapshots = [], next_snapshot_id = 0\<rparr>"

definition create_snapshot ::
  "u64 \<Rightarrow> u64 set \<Rightarrow> snapshot_manager \<Rightarrow> u64 \<times> snapshot_manager" where
  "create_snapshot ver active_txns s =
     (let sid = next_snapshot_id s;
          snap = \<lparr>sn_snapshot_id = sid, sn_snapshot_version = ver, sn_timestamp = 0,
                  sn_active_transactions = active_txns\<rparr>
      in (sid, s\<lparr>next_snapshot_id := sid + 1, snapshots := omap_insert sid snap (snapshots s)\<rparr>))"

definition get_snapshot :: "u64 \<Rightarrow> snapshot_manager \<Rightarrow> snapshot option" where
  "get_snapshot sid s = map_of (snapshots s) sid"

definition snapshot_exists :: "u64 \<Rightarrow> snapshot_manager \<Rightarrow> bool" where
  "snapshot_exists sid s \<longleftrightarrow> map_of (snapshots s) sid \<noteq> None"

definition remove_snapshot :: "u64 \<Rightarrow> snapshot_manager \<Rightarrow> snapshot_manager" where
  "remove_snapshot sid s = s\<lparr>snapshots := omap_erase sid (snapshots s)\<rparr>"

definition get_snapshot_count :: "snapshot_manager \<Rightarrow> nat" where
  "get_snapshot_count s = length (snapshots s)"

section \<open>VersionManager\<close>

record row_version =
  rv_version_id :: u64
  rv_row_id :: u64
  rv_txn_id :: u64
  rv_snapshot_version :: u64
  rv_data :: bytes
  rv_is_deleted :: bool

record version_manager =
  versions_of :: "u64 \<rightharpoonup> row_version list"
  next_version_id :: u64

definition vm_new :: version_manager where
  "vm_new = \<lparr>versions_of = Map.empty, next_version_id = 0\<rparr>"

definition row_versions :: "u64 \<Rightarrow> version_manager \<Rightarrow> row_version list" where
  "row_versions row v = (case versions_of v row of None \<Rightarrow> [] | Some vs \<Rightarrow> vs)"

definition create_version ::
  "u64 \<Rightarrow> u64 \<Rightarrow> u64 \<Rightarrow> bytes \<Rightarrow> version_manager \<Rightarrow> u64 \<times> version_manager" where
  "create_version row txn ver data v =
     (let vid = next_version_id v;
          rv = \<lparr>rv_version_id = vid, rv_row_id = row, rv_txn_id = txn, rv_snapshot_version = ver,
                rv_data = data, rv_is_deleted = False\<rparr>
      in (vid, v\<lparr>next_version_id := vid + 1,
                 versions_of := (versions_of v)(row \<mapsto> row_versions row v @ [rv])\<rparr>))"

text \<open>The loop of \<open>get_version\<close>: the last version in the deque that is old enough.\<close>

definition pick_version :: "u64 \<Rightarrow> row_version option \<Rightarrow> row_version \<Rightarrow> row_version option" where
  "pick_version ver found rv = (if rv_snapshot_version rv \<le> ver then Some rv else found)"

definition get_version :: "u64 \<Rightarrow> u64 \<Rightarrow> version_manager \<Rightarrow> row_version option" where
  "get_version row ver v =
     (case versions_of v row of
        None \<Rightarrow> None
      | Some vs \<Rightarrow> foldl (pick_version ver) None vs)"

fun delete_first :: "u64 \<Rightarrow> row_version list \<Rightarrow> row_version list" where
  "delete_first vid [] = []"
| "delete_first vid (rv # rvs) =
     (if rv_version_id rv = vid then rv\<lparr>rv_is_deleted := True\<rparr> # rvs
      else rv # delete_first vid rvs)"

definition delete_version :: "u64 \<Rightarrow> u64 \<Rightarrow> version_manager \<Rightarrow> version_manager" where
  "delete_version row vid v =
     (case versions_of v row of
        None \<Rightarrow> v
      | Some vs \<Rightarrow> v\<lparr>versions_of := (versions_of v)(row \<mapsto> delete_first vid vs)\<rparr>)"

definition get_version_count :: "u64 \<Rightarrow> version_manager \<Rightarrow> nat" where
  "get_version_count row v = (case versions_of v row of None \<Rightarrow> 0 | Some vs \<Rightarrow> length vs)"

section \<open>LockManager\<close>

record lock_manager =
  row_locks :: "u64 \<rightharpoonup> u64 set"
  lock_waiters :: "u64 \<rightharpoonup> u64 list"

definition lm_new :: lock_manager where
  "lm_new = \<lparr>row_locks = Map.empty, lock_waiters = Map.empty\<rparr>"

definition lockers :: "u64 \<Rightarrow> lock_manager \<Rightarrow> u64 set" where
  "lockers row l = (case row_locks l row of None \<Rightarrow> {} | Some s \<Rightarrow> s)"

definition acquire_lock :: "u64 \<Rightarrow> u64 \<Rightarrow> bool \<Rightarrow> lock_manager \<Rightarrow> bool \<times> lock_manager" where
  "acquire_lock row txn blocking l =
     (if lockers row l = {}
      then (True, l\<lparr>row_locks := (row_locks l)(row \<mapsto> {txn})\<rparr>)
      else if blocking then
        (False, l\<lparr>lock_waiters := (lock_waiters l)(row \<mapsto>
           (case lock_waiters l row of None \<Rightarrow> [] | Some q \<Rightarrow> q) @ [txn])\<rparr>)
      else (False, l))"

definition release_lock :: "u64 \<Rightarrow> u64 \<Rightarrow> lock_manager \<Rightarrow> lock_manager" where
  "release_lock row txn l =
     (case row_locks l row of
        None \<Rightarrow> l
      | Some s \<Rightarrow>
          if s - {txn} = {} then l\<lparr>row_locks := (row_locks l)(row := None)\<rparr>
          else l\<lparr>row_locks := (row_locks l)(row \<mapsto> s - {txn})\<rparr>)"

definition is_locked :: "u64 \<Rightarrow> u64 \<Rightarrow> lock_manager \<Rightarrow> bool" where
  "is_locked row txn l = (case row_locks l row of None \<Rightarrow> False | Some s \<Rightarrow> txn \<in> s)"

definition get_lock_count :: "u64 \<Rightarrow> lock_manager \<Rightarrow> nat" where
  "get_lock_count row l = (case row_locks l row of None \<Rightarrow> 0 | Some s \<Rightarrow> card s)"

section \<open>MVCCCoordinator\<close>

record coordinator =
  co_snapshots :: snapshot_manager
  co_versions :: version_manager
  co_locks :: lock_manager
  co_next_version :: u64

definition co_new :: coordinator where
  "co_new = \<lparr>co_snapshots = sm_new, co_versions = vm_new, co_locks = lm_new, co_next_version = 0\<rparr>"

definition get_snapshot_version :: "coordinator \<Rightarrow> u64" where
  "get_snapshot_version c = co_next_version c"

definition increment_version :: "coordinator \<Rightarrow> coordinator" where
  "increment_version c = c\<lparr>co_next_version := co_next_version c + 1\<rparr>"

definition co_read_row :: "u64 \<Rightarrow> u64 \<Rightarrow> coordinator \<Rightarrow> bytes option" where
  "co_read_row row txn c =
     (case get_snapshot txn (co_snapshots c) of
        None \<Rightarrow> None
      | Some snap \<Rightarrow>
          (case get_version row (sn_snapshot_version snap) (co_versions c) of
             None \<Rightarrow> None
           | Some rv \<Rightarrow> if rv_is_deleted rv then None else Some (rv_data rv)))"

definition co_write_row :: "u64 \<Rightarrow> u64 \<Rightarrow> bytes \<Rightarrow> coordinator \<Rightarrow> bool \<times> coordinator" where
  "co_write_row row txn data c =
     (if \<not> is_locked row txn (co_locks c) then (False, c)
      else (True, c\<lparr>co_versions :=
        snd (create_version row txn (co_next_version c) data (co_versions c))\<rparr>))"

definition co_delete_row :: "u64 \<Rightarrow> u64 \<Rightarrow> coordinator \<Rightarrow> bool \<times> coordinator" where
  "co_delete_row row txn c =
     (if \<not> is_locked row txn (co_locks c) then (False, c)
      else (True, c\<lparr>co_versions :=
        snd (create_version row txn (co_next_version c) [] (co_versions c))\<rparr>))"

definition co_acquire_lock :: "u64 \<Rightarrow> u64 \<Rightarrow> coordinator \<Rightarrow> bool \<times> coordinator" where
  "co_acquire_lock row txn c =
     (case acquire_lock row txn False (co_locks c) of (b, l) \<Rightarrow> (b, c\<lparr>co_locks := l\<rparr>))"

definition co_release_lock :: "u64 \<Rightarrow> u64 \<Rightarrow> coordinator \<Rightarrow> coordinator" where
  "co_release_lock row txn c = c\<lparr>co_locks := release_lock row txn (co_locks c)\<rparr>"

definition co_get_snapshot_count :: "coordinator \<Rightarrow> nat" where
  "co_get_snapshot_count c = get_snapshot_count (co_snapshots c)"

definition co_get_version_count :: "u64 \<Rightarrow> coordinator \<Rightarrow> nat" where
  "co_get_version_count row c = get_version_count row (co_versions c)"

definition co_get_lock_count :: "u64 \<Rightarrow> coordinator \<Rightarrow> nat" where
  "co_get_lock_count row c = get_lock_count row (co_locks c)"

definition test_mvcc_locks :: int where
  "test_mvcc_locks = (if 0 \<le> co_get_snapshot_count (increment_version co_new) then 1 else 0)"

section \<open>Sequences of calls\<close>

datatype lock_op = Lk_Acquire u64 u64 bool | Lk_Release u64 u64

fun lock_step :: "lock_manager \<Rightarrow> lock_op \<Rightarrow> lock_manager" where
  "lock_step l (Lk_Acquire row txn blocking) = snd (acquire_lock row txn blocking l)"
| "lock_step l (Lk_Release row txn) = release_lock row txn l"

datatype co_op =
    Co_Increment
  | Co_Write u64 u64 bytes
  | Co_Delete u64 u64
  | Co_Acquire u64 u64
  | Co_Release u64 u64

fun co_step :: "coordinator \<Rightarrow> co_op \<Rightarrow> coordinator" where
  "co_step c Co_Increment = increment_version c"
| "co_step c (Co_Write row txn d) = snd (co_write_row row txn d c)"
| "co_step c (Co_Delete row txn) = snd (co_delete_row row txn c)"
| "co_step c (Co_Acquire row txn) = snd (co_acquire_lock row txn c)"
| "co_step c (Co_Release row txn) = co_release_lock row txn c"

text \<open>At most one transaction holds a row, and a row with an entry is held.\<close>

definition locks_ok :: "lock_manager \<Rightarrow> bool" where
  "locks_ok l \<longleftrightarrow> (\<forall>row s. row_locks l row = Some s \<longrightarrow> (\<exists>t. s = {t}))"

lemma acquire_ok: "locks_ok l \<Longrightarrow> locks_ok (snd (acquire_lock row txn b l))"
  by (auto simp: locks_ok_def acquire_lock_def)

lemma release_ok: "locks_ok l \<Longrightarrow> locks_ok (release_lock row txn l)"
  by (fastforce simp: locks_ok_def release_lock_def split: option.splits)

lemma lock_step_ok: "locks_ok l \<Longrightarrow> locks_ok (lock_step l x)"
  by (cases x) (simp_all add: acquire_ok release_ok)

interpretation lk: step_invariant lock_step locks_ok
  by unfold_locales (rule lock_step_ok)

abbreviation locks_after :: "lock_op list \<Rightarrow> lock_manager" where
  "locks_after ops \<equiv> run_steps lock_step lm_new ops"

lemma locks_after_ok: "locks_ok (locks_after ops)"
  by (rule lk.run_inv) (simp add: locks_ok_def lm_new_def)

section \<open>Properties\<close>

text \<open>
  C12. Mutual exclusion: after any sequence of acquisitions and releases, blocking or not,
  at most one transaction holds the lock of a row; a lock is granted exactly when nobody
  holds it, not even the caller (locks are not reentrant), and the grant makes the caller the
  holder.
\<close>

theorem lock_mutual_exclusion:
  assumes "is_locked row t (locks_after ops)" and "is_locked row u (locks_after ops)"
  shows "t = u \<and> get_lock_count row (locks_after ops) = 1
    \<and> \<not> fst (acquire_lock row w b (locks_after ops))
    \<and> (let l = release_lock row t (locks_after ops)
       in fst (acquire_lock row w b l) \<and> is_locked row x (snd (acquire_lock row w b l)) = (x = w))"
proof -
  obtain s where s: "row_locks (locks_after ops) row = Some s" "t \<in> s" "u \<in> s"
    using assms by (auto simp: is_locked_def split: option.splits)
  then obtain t' where "s = {t'}" using locks_after_ok [of ops] by (auto simp: locks_ok_def)
  with s show ?thesis
    by (simp add: get_lock_count_def acquire_lock_def release_lock_def lockers_def is_locked_def)
qed

theorem lock_mutual_exclusion_witness:
  "\<not> fst (acquire_lock 5 2 True (locks_after [Lk_Acquire 5 1 False]))"
proof -
  have "is_locked 5 1 (locks_after [Lk_Acquire 5 1 False])"
    by (simp add: acquire_lock_def lockers_def lm_new_def is_locked_def)
  from lock_mutual_exclusion [OF this this] show ?thesis by blast
qed

definition wait_queue :: "u64 \<Rightarrow> lock_manager \<Rightarrow> u64 list" where
  "wait_queue row l = (case lock_waiters l row of None \<Rightarrow> [] | Some q \<Rightarrow> q)"

lemma lock_step_queue: "\<exists>q. wait_queue row (lock_step l x) = wait_queue row l @ q"
  by (cases x) (auto simp: wait_queue_def acquire_lock_def release_lock_def split: option.splits)

lemma run_queue: "\<exists>q. wait_queue row (run_steps lock_step l ops) = wait_queue row l @ q"
proof (induction ops arbitrary: l)
  case Nil
  then show ?case by simp
next
  case (Cons x ops)
  obtain q1 where "wait_queue row (lock_step l x) = wait_queue row l @ q1"
    using lock_step_queue by blast
  moreover obtain q2 where
    "wait_queue row (run_steps lock_step (lock_step l x) ops) = wait_queue row (lock_step l x) @ q2"
    using Cons.IH by blast
  ultimately show ?case by simp
qed

text \<open>
  Waiters are never served: a transaction that a blocking acquisition put into the queue
  of a row stays in it whatever is called later, and a release never makes it the holder.
\<close>

theorem waiters_never_served:
  assumes "w \<in> set (wait_queue row (locks_after ops))"
  shows "w \<in> set (wait_queue row (locks_after (ops @ later)))
    \<and> (is_locked row w (release_lock row t (locks_after ops)) \<longrightarrow> is_locked row w (locks_after ops))"
proof -
  obtain q where "wait_queue row (locks_after (ops @ later)) = wait_queue row (locks_after ops) @ q"
    using run_queue [of row "locks_after ops" later] by (auto simp: run_steps_append)
  with assms show ?thesis
    by (auto simp: release_lock_def is_locked_def split: option.splits if_splits)
qed

theorem waiters_never_served_witness:
  "2 \<in> set (wait_queue 5 (locks_after
     ([Lk_Acquire 5 1 True, Lk_Acquire 5 2 True] @ [Lk_Release 5 1])))"
proof -
  have "2 \<in> set (wait_queue 5 (locks_after [Lk_Acquire 5 1 True, Lk_Acquire 5 2 True]))"
    by (simp add: acquire_lock_def lockers_def lm_new_def wait_queue_def)
  from waiters_never_served [OF this] show ?thesis by blast
qed

lemma foldl_pick:
  "foldl (pick_version ver) found vs =
     (let old = filter (\<lambda>rv. rv_snapshot_version rv \<le> ver) vs
      in if old = [] then found else Some (last old))"
  by (induction vs arbitrary: found) (auto simp: pick_version_def Let_def)

lemma get_version_last:
  "get_version row ver v =
     (let old = filter (\<lambda>rv. rv_snapshot_version rv \<le> ver) (row_versions row v)
      in if old = [] then None else Some (last old))"
  by (auto simp: get_version_def row_versions_def foldl_pick Let_def split: option.splits)

lemma row_versions_create:
  "row_versions row (snd (create_version row' txn ver data v)) =
     row_versions row v @
     (if row' = row then [\<lparr>rv_version_id = next_version_id v, rv_row_id = row, rv_txn_id = txn,
        rv_snapshot_version = ver, rv_data = data, rv_is_deleted = False\<rparr>] else [])"
  by (simp add: create_version_def row_versions_def Let_def)

fun create_all :: "(u64 \<times> u64 \<times> u64 \<times> bytes) list \<Rightarrow> version_manager \<Rightarrow> version_manager" where
  "create_all [] v = v"
| "create_all ((row, txn, ver, data) # ws) v = create_all ws (snd (create_version row txn ver data v))"

text \<open>
  C13. Snapshot reads: \<open>get_version\<close> returns the most recently created version of the row
  whose version number is not above the snapshot's, if there is one; versions created later
  with greater numbers, by any transactions for any rows, never change what a snapshot reads.
\<close>

theorem snapshot_read_stable:
  assumes "\<forall>w \<in> set ws. ver < fst (snd (snd w))"
  shows "get_version row ver (create_all ws v) =
    (let old = filter (\<lambda>rv. rv_snapshot_version rv \<le> ver) (row_versions row v)
     in if old = [] then None else Some (last old))"
proof -
  have "filter (\<lambda>rv. rv_snapshot_version rv \<le> ver) (row_versions row (create_all ws v)) =
      filter (\<lambda>rv. rv_snapshot_version rv \<le> ver) (row_versions row v)"
    using assms
  proof (induction ws arbitrary: v)
    case Nil
    then show ?case by simp
  next
    case (Cons w ws)
    then show ?case by (cases w) (auto simp: row_versions_create)
  qed
  then show ?thesis by (simp add: get_version_last)
qed

theorem snapshot_read_stable_witness:
  "get_version 1 3 (create_all [(1, 8, 4, [9])] (snd (create_version 1 7 2 [5] vm_new))) =
     get_version 1 3 (snd (create_version 1 7 2 [5] vm_new))"
  using snapshot_read_stable [of "[(1, 8, 4, [9])]" 3 1 "snd (create_version 1 7 2 [5] vm_new)"]
  by (simp add: get_version_last)

lemma co_step_snapshots: "co_snapshots (co_step c x) = co_snapshots c"
  by (cases x) (auto simp: increment_version_def co_write_row_def co_delete_row_def
      co_acquire_lock_def co_release_lock_def split: prod.splits)

interpretation co: step_invariant co_step "\<lambda>c. co_snapshots c = sm_new"
  by unfold_locales (simp add: co_step_snapshots)

text \<open>
  The coordinator can write but not read: it offers no way to create a snapshot, and
  \<open>read_row\<close> looks its transaction up among the snapshots, so after any sequence of calls
  every read finds nothing, also of a row that the same transaction has just written.
\<close>

lemma coordinator_reads_nothing:
  "co_read_row row txn (run_steps co_step co_new ops) = None"
proof -
  have "co_snapshots (run_steps co_step co_new ops) = sm_new"
    by (rule co.run_inv) (simp add: co_new_def)
  then show ?thesis by (simp add: co_read_row_def get_snapshot_def sm_new_def)
qed

text \<open>
  A deletion only appends an empty version that is not marked as deleted: under any snapshot
  that is recent enough the row is still there, with empty data.
\<close>

lemma delete_leaves_row:
  assumes "is_locked row txn (co_locks c)"
    and "get_snapshot sid (co_snapshots c) = Some snap"
    and "co_next_version c \<le> sn_snapshot_version snap"
  shows "co_read_row row sid (snd (co_delete_row row txn c)) = Some []"
  using assms
  by (simp add: co_delete_row_def co_read_row_def get_version_last row_versions_create Let_def)

text \<open>
  What the counters of the coordinator say: no snapshot ever, at most one lock on a row; and the
  self-test compares an unsigned count with zero, so it cannot fail.
\<close>

lemma co_counts:
  "co_get_snapshot_count (run_steps co_step co_new ops) = 0"
  "co_get_lock_count row (run_steps co_step co_new ops) \<le> 1"
  "test_mvcc_locks = 1"
proof -
  have "co_snapshots (run_steps co_step co_new ops) = sm_new"
    by (rule co.run_inv) (simp add: co_new_def)
  then show "co_get_snapshot_count (run_steps co_step co_new ops) = 0"
    by (simp add: co_get_snapshot_count_def get_snapshot_count_def sm_new_def)
  have "locks_ok (co_locks (co_step c x))" if "locks_ok (co_locks c)" for c x
    using that acquire_ok release_ok
    by (cases x) (auto simp: increment_version_def co_write_row_def co_delete_row_def co_acquire_lock_def
        co_release_lock_def split: prod.splits, metis snd_conv)
  then have "locks_ok (co_locks (run_steps co_step c ops))" if "locks_ok (co_locks c)" for c
    using that by (induction ops arbitrary: c) auto
  moreover have "locks_ok (co_locks co_new)" by (simp add: co_new_def lm_new_def locks_ok_def)
  ultimately have "locks_ok (co_locks (run_steps co_step co_new ops))" by blast
  then show "co_get_lock_count row (run_steps co_step co_new ops) \<le> 1"
    by (fastforce simp: co_get_lock_count_def get_lock_count_def locks_ok_def split: option.splits)
  show "test_mvcc_locks = 1" by (simp add: test_mvcc_locks_def)
qed

end
