(* ===== verification/Mvcc_Concurrency.thy ===== *)
theory Mvcc_Concurrency
  imports Mvcc_Locks
begin

text \<open>
  Threads that use one \<open>MVCCCoordinator\<close> of \<open>src/mvcc_locks.cpp\<close> at the same time.

  The coordinator has no mutex of its own: \<open>write_row\<close> and \<open>delete_row\<close> ask the lock manager, load the
  atomic version counter and then call the version manager; \<open>read_row\<close> asks the snapshot manager and
  then the version manager. Each of these calls is atomic, and between them other threads run. So a
  call is a sequence of steps here, and a run interleaves the steps of any number of threads.
  \<open>may t x\<close> says that thread \<open>t\<close> may act for transaction \<open>x\<close>.

  Beside the state stands a trace of what happened, latest first, from which the holder of every lock
  can be read off.
\<close>

section \<open>State and steps\<close>

datatype co_pc =
    C_Idle
  | C_Checked u64 u64 bytes
  | C_Loaded u64 u64 bytes u64
  | C_Reading u64 u64

datatype co_event =
    Acquired u64 u64
  | Released u64 u64
  | Wrote u64 u64 u64
  | Incremented

record mvcc_threads =
  mt_co :: coordinator
  mt_pc :: "nat \<Rightarrow> co_pc"
  mt_trace :: "co_event list"

definition mvcc_new :: mvcc_threads where
  "mvcc_new = \<lparr>mt_co = co_new, mt_pc = (\<lambda>_. C_Idle), mt_trace = []\<rparr>"

definition mvcc_at :: "nat \<Rightarrow> co_pc \<Rightarrow> mvcc_threads \<Rightarrow> mvcc_threads" where
  "mvcc_at t c s = s\<lparr>mt_pc := (mt_pc s)(t := c)\<rparr>"

definition mvcc_did :: "co_event \<Rightarrow> coordinator \<Rightarrow> mvcc_threads \<Rightarrow> mvcc_threads" where
  "mvcc_did e c s = s\<lparr>mt_co := c, mt_trace := e # mt_trace s\<rparr>"

definition add_version :: "u64 \<Rightarrow> u64 \<Rightarrow> u64 \<Rightarrow> bytes \<Rightarrow> coordinator \<Rightarrow> coordinator" where
  "add_version row txn ver data c = c\<lparr>co_versions := snd (create_version row txn ver data (co_versions c))\<rparr>"

text \<open>
  \<open>delete_row\<close> takes the steps of \<open>write_row\<close> with no data. A call that is refused, and a read that
  ends, leave no trace.
\<close>

inductive mvcc_step :: "(nat \<Rightarrow> u64 \<Rightarrow> bool) \<Rightarrow> nat \<Rightarrow> mvcc_threads \<Rightarrow> mvcc_threads \<Rightarrow> bool"
  for may :: "nat \<Rightarrow> u64 \<Rightarrow> bool" where
  acquire: "\<lbrakk>mt_pc s t = C_Idle; may t x; co_acquire_lock row x (mt_co s) = (True, c)\<rbrakk> \<Longrightarrow>
     mvcc_step may t s (mvcc_did (Acquired row x) c s)"
| acquire_refused: "\<lbrakk>mt_pc s t = C_Idle; may t x; co_acquire_lock row x (mt_co s) = (False, c)\<rbrakk> \<Longrightarrow>
     mvcc_step may t s (s\<lparr>mt_co := c\<rparr>)"
| release: "\<lbrakk>mt_pc s t = C_Idle; may t x\<rbrakk> \<Longrightarrow>
     mvcc_step may t s (mvcc_did (Released row x) (co_release_lock row x (mt_co s)) s)"
| increment: "mt_pc s t = C_Idle \<Longrightarrow>
     mvcc_step may t s (mvcc_did Incremented (increment_version (mt_co s)) s)"
| write_check: "\<lbrakk>mt_pc s t = C_Idle; may t x; is_locked row x (co_locks (mt_co s))\<rbrakk> \<Longrightarrow>
     mvcc_step may t s (mvcc_at t (C_Checked row x data) s)"
| write_load: "mt_pc s t = C_Checked row x data \<Longrightarrow>
     mvcc_step may t s (mvcc_at t (C_Loaded row x data (get_snapshot_version (mt_co s))) s)"
| write_create: "mt_pc s t = C_Loaded row x data ver \<Longrightarrow>
     mvcc_step may t s (mvcc_at t C_Idle
       (mvcc_did (Wrote row x ver) (add_version row x ver data (mt_co s)) s))"
| read_snapshot: "\<lbrakk>mt_pc s t = C_Idle; may t x; get_snapshot x (co_snapshots (mt_co s)) = Some snap\<rbrakk> \<Longrightarrow>
     mvcc_step may t s (mvcc_at t (C_Reading row (sn_snapshot_version snap)) s)"
| read_version: "mt_pc s t = C_Reading row ver \<Longrightarrow> mvcc_step may t s (mvcc_at t C_Idle s)"

section \<open>What the trace says\<close>

fun holder :: "co_event list \<Rightarrow> u64 \<Rightarrow> u64 option" where
  "holder [] r = None"
| "holder (Acquired row x # tr) r = (if row = r then Some x else holder tr r)"
| "holder (Released row x # tr) r = (if row = r \<and> holder tr r = Some x then None else holder tr r)"
| "holder (Wrote row x ver # tr) r = holder tr r"
| "holder (Incremented # tr) r = holder tr r"

text \<open>Every lock was free when it was acquired, and every write was made by the holder of the row's lock.\<close>

fun guarded :: "co_event list \<Rightarrow> bool" where
  "guarded [] \<longleftrightarrow> True"
| "guarded (Acquired row x # tr) \<longleftrightarrow> holder tr row = None \<and> guarded tr"
| "guarded (Released row x # tr) \<longleftrightarrow> guarded tr"
| "guarded (Wrote row x ver # tr) \<longleftrightarrow> holder tr row = Some x \<and> guarded tr"
| "guarded (Incremented # tr) \<longleftrightarrow> guarded tr"

fun writes :: "u64 \<Rightarrow> co_event list \<Rightarrow> (u64 \<times> u64) list" where
  "writes r [] = []"
| "writes r (Wrote row x ver # tr) = (if row = r then writes r tr @ [(x, ver)] else writes r tr)"
| "writes r (Acquired row x # tr) = writes r tr"
| "writes r (Released row x # tr) = writes r tr"
| "writes r (Incremented # tr) = writes r tr"

fun increments :: "co_event list \<Rightarrow> nat" where
  "increments [] = 0"
| "increments (Incremented # tr) = Suc (increments tr)"
| "increments (Acquired row x # tr) = increments tr"
| "increments (Released row x # tr) = increments tr"
| "increments (Wrote row x ver # tr) = increments tr"

section \<open>Invariant\<close>

fun pc_write :: "co_pc \<Rightarrow> (u64 \<times> u64) option" where
  "pc_write (C_Checked row x data) = Some (row, x)"
| "pc_write (C_Loaded row x data ver) = Some (row, x)"
| "pc_write _ = None"

definition locks_match :: "mvcc_threads \<Rightarrow> bool" where
  "locks_match s \<longleftrightarrow> (\<forall>row. row_locks (co_locks (mt_co s)) row =
     map_option (\<lambda>x. {x}) (holder (mt_trace s) row))"

definition writers_hold :: "(nat \<Rightarrow> u64 \<Rightarrow> bool) \<Rightarrow> mvcc_threads \<Rightarrow> bool" where
  "writers_hold may s \<longleftrightarrow> (\<forall>t row x. pc_write (mt_pc s t) = Some (row, x) \<longrightarrow>
     may t x \<and> holder (mt_trace s) row = Some x)"

definition versions_match :: "mvcc_threads \<Rightarrow> bool" where
  "versions_match s \<longleftrightarrow> (\<forall>row. map (\<lambda>v. (rv_txn_id v, rv_snapshot_version v))
       (row_versions row (co_versions (mt_co s))) = writes row (mt_trace s)) \<and>
     co_next_version (mt_co s) = word_of_nat (increments (mt_trace s))"

text \<open>While the counter has not wrapped around, version numbers of a row never decrease.\<close>

definition numbers :: "u64 \<Rightarrow> mvcc_threads \<Rightarrow> u64 list" where
  "numbers row s = map snd (writes row (mt_trace s))"

definition numbers_ok :: "mvcc_threads \<Rightarrow> bool" where
  "numbers_ok s \<longleftrightarrow> (increments (mt_trace s) < 2 ^ 64 \<longrightarrow>
     (\<forall>row. sorted (numbers row s) \<and> (\<forall>n \<in> set (numbers row s). n \<le> co_next_version (mt_co s))) \<and>
     (\<forall>t row x data ver. mt_pc s t = C_Loaded row x data ver \<longrightarrow>
        ver \<le> co_next_version (mt_co s) \<and> (\<forall>n \<in> set (numbers row s). n \<le> ver)))"

definition mvcc_ok :: "(nat \<Rightarrow> u64 \<Rightarrow> bool) \<Rightarrow> mvcc_threads \<Rightarrow> bool" where
  "mvcc_ok may s \<longleftrightarrow> locks_match s \<and> writers_hold may s \<and> guarded (mt_trace s) \<and>
     versions_match s \<and> numbers_ok s"

text \<open>Each transaction is run by one thread.\<close>

definition one_thread :: "(nat \<Rightarrow> u64 \<Rightarrow> bool) \<Rightarrow> bool" where
  "one_thread may \<longleftrightarrow> (\<forall>t u x. may t x \<and> may u x \<longrightarrow> t = u)"

lemma mvcc_sels [simp]:
  "mt_co (mvcc_at t c s) = mt_co s" "mt_trace (mvcc_at t c s) = mt_trace s"
  "mt_pc (mvcc_at t c s) = (mt_pc s)(t := c)"
  "mt_co (mvcc_did e co s) = co" "mt_trace (mvcc_did e co s) = e # mt_trace s"
  "mt_pc (mvcc_did e co s) = mt_pc s"
  by (simp_all add: mvcc_at_def mvcc_did_def)

lemma co_op_sels [simp]:
  "co_versions (co_release_lock row x c) = co_versions c"
  "co_next_version (co_release_lock row x c) = co_next_version c"
  "co_versions (increment_version c) = co_versions c" "co_locks (increment_version c) = co_locks c"
  "co_next_version (increment_version c) = co_next_version c + 1"
  "co_locks (add_version row x ver data c) = co_locks c"
  "co_next_version (add_version row x ver data c) = co_next_version c"
  by (simp_all add: co_release_lock_def increment_version_def add_version_def)

lemma acquired_sels:
  assumes "co_acquire_lock row x c = (b, c')"
  shows "co_versions c' = co_versions c" "co_next_version c' = co_next_version c"
  using assms by (auto simp: co_acquire_lock_def split: prod.splits)

lemma row_versions_add:
  "row_versions r (co_versions (add_version row x ver data c)) =
     (if r = row then row_versions r (co_versions c) @ [\<lparr>rv_version_id = next_version_id (co_versions c),
        rv_row_id = row, rv_txn_id = x, rv_snapshot_version = ver, rv_data = data, rv_is_deleted = False\<rparr>]
      else row_versions r (co_versions c))"
  by (simp add: add_version_def create_version_def row_versions_def Let_def)

text \<open>The lock manager against the trace.\<close>

lemma acquire_holder:
  assumes "locks_match s" "co_acquire_lock row x (mt_co s) = (b, c)"
  shows "b \<longleftrightarrow> holder (mt_trace s) row = None"
    and "b \<Longrightarrow> row_locks (co_locks c) = (row_locks (co_locks (mt_co s)))(row \<mapsto> {x})"
    and "\<not> b \<Longrightarrow> c = mt_co s"
  using assms
  by (auto simp: co_acquire_lock_def acquire_lock_def lockers_def locks_match_def split: if_splits option.splits)

lemma locked_holder:
  "locks_match s \<Longrightarrow> is_locked row x (co_locks (mt_co s)) \<longleftrightarrow> holder (mt_trace s) row = Some x"
  by (auto simp: is_locked_def locks_match_def split: option.splits)

lemma release_holder:
  assumes "locks_match s"
  shows "row_locks (co_locks (co_release_lock row x (mt_co s))) r =
    (if r = row \<and> holder (mt_trace s) r = Some x then None else row_locks (co_locks (mt_co s)) r)"
  using assms
  by (auto simp: co_release_lock_def release_lock_def locks_match_def split: option.splits if_splits)

lemma writers_holdD:
  "writers_hold may s \<Longrightarrow> pc_write (mt_pc s t) = Some (row, x) \<Longrightarrow>
     may t x \<and> holder (mt_trace s) row = Some x"
  by (simp add: writers_hold_def)

lemma one_threadD: "one_thread may \<Longrightarrow> may t x \<Longrightarrow> may u x \<Longrightarrow> t = u"
  by (auto simp: one_thread_def)

section \<open>Every step keeps the invariant\<close>

lemma step_locks_match: "mvcc_step may t s s' \<Longrightarrow> locks_match s \<Longrightarrow> locks_match s'"
proof (induction rule: mvcc_step.induct)
  case (acquire s t x row c)
  then show ?case using acquire_holder(2) [of s row x True c] by (auto simp: locks_match_def)
next
  case (acquire_refused s t x row c)
  then show ?case using acquire_holder(3) [of s row x False c] by simp
next
  case (release s t x row)
  then show ?case using release_holder [of s row x] by (auto simp: locks_match_def)
qed (auto simp: locks_match_def)

lemma step_writers_hold:
  assumes "mvcc_step may t s s'" "one_thread may" "locks_match s" "writers_hold may s"
  shows "writers_hold may s'"
  using assms(1,3,4)
proof (induction rule: mvcc_step.induct)
  case (acquire s t x row c)
  then have "holder (mt_trace s) row = None" using acquire_holder(1) [of s row x True c] by simp
  with acquire(5) show ?case by (fastforce simp: writers_hold_def)
next
  case (release s t x row)
  have "y \<noteq> x" if "pc_write (mt_pc s u) = Some (r, y)" for u r y
    using writers_holdD [OF release(4) that] one_threadD [OF assms(2) release(2)] that release(1) by auto
  with release(4) show ?case by (auto simp: writers_hold_def)
next
  case (write_check s t x row data)
  then show ?case using locked_holder [of s row x] by (auto simp: writers_hold_def)
next
  case (write_load s t row x data)
  then have "may t x \<and> holder (mt_trace s) row = Some x" by (intro writers_holdD) simp_all
  with write_load(3) show ?case by (auto simp: writers_hold_def)
qed (auto simp: writers_hold_def)

lemma step_guarded:
  assumes "mvcc_step may t s s'" "locks_match s" "writers_hold may s" "guarded (mt_trace s)"
  shows "guarded (mt_trace s')"
  using assms
proof (induction rule: mvcc_step.induct)
  case (acquire s t x row c)
  then show ?case using acquire_holder(1) [of s row x True c] by simp
next
  case (write_create s t row x data ver)
  then have "holder (mt_trace s) row = Some x" using writers_holdD [of may s t row x] by simp
  with write_create show ?case by simp
qed auto

lemma step_versions_match: "mvcc_step may t s s' \<Longrightarrow> versions_match s \<Longrightarrow> versions_match s'"
proof (induction rule: mvcc_step.induct)
  case (write_create s t row x data ver)
  then show ?case by (auto simp: versions_match_def row_versions_add)
qed (auto simp: versions_match_def acquired_sels)

text \<open>Two threads cannot be in a write of the same row.\<close>

lemma writers_exclude:
  assumes "one_thread may" "writers_hold may s"
    and "pc_write (mt_pc s t) = Some (row, x)" "pc_write (mt_pc s u) = Some (row, y)"
  shows "t = u"
  using writers_holdD [OF assms(2,3)] writers_holdD [OF assms(2,4)] one_threadD [OF assms(1)] by auto

lemma increment_counter:
  assumes "increments tr + 1 < 2 ^ 64"
  shows "word_of_nat (increments tr) \<le> (word_of_nat (increments tr) + 1 :: u64)"
proof -
  have "unat (word_of_nat (increments tr) :: u64) = increments tr"
    using assms by (simp add: unat_of_nat)
  with assms show ?thesis by (simp add: word_le_nat_alt unat_word_ariths)
qed

lemma numbers_same [simp]:
  "numbers row (mvcc_at t pc s) = numbers row s" "numbers row (s\<lparr>mt_co := c\<rparr>) = numbers row s"
  "numbers row (mvcc_did (Acquired r x) c s) = numbers row s"
  "numbers row (mvcc_did (Released r x) c s) = numbers row s"
  "numbers row (mvcc_did Incremented c s) = numbers row s"
  "numbers row (mvcc_did (Wrote r x ver) c s) = numbers row s @ (if r = row then [ver] else [])"
  by (simp_all add: numbers_def)

lemma step_numbers_ok:
  assumes "mvcc_step may t s s'" "one_thread may" "writers_hold may s" "versions_match s" "numbers_ok s"
  shows "numbers_ok s'"
  using assms(1,3-5)
proof (induction rule: mvcc_step.induct)
  case (increment s t)
  have "n \<le> co_next_version (mt_co s) + 1"
    if "increments (mt_trace s) + 1 < 2 ^ 64" "n \<le> co_next_version (mt_co s)" for n
    using increment_counter [OF that(1)] that(2) increment(3) by (auto simp: versions_match_def)
  with increment(4) show ?case by (simp add: numbers_ok_def)
next
  case (write_load s t row x data)
  then show ?case by (auto simp: numbers_ok_def get_snapshot_version_def)
next
  case (write_create s t row x data ver)
  let ?s = "mvcc_at t C_Idle (mvcc_did (Wrote row x ver) (add_version row x ver data (mt_co s)) s)"
  have other: "r \<noteq> row" if "mt_pc s u = C_Loaded r y d w" "u \<noteq> t" for u r y d w
    using writers_exclude [OF assms(2) write_create(2), of u row y t x] that write_create(1) by auto
  show ?case unfolding numbers_ok_def
  proof (rule impI, rule conjI)
    assume "increments (mt_trace ?s) < 2 ^ 64"
    then have inc: "increments (mt_trace s) < 2 ^ 64" by simp
    then have all: "sorted (numbers r s)" "\<forall>n \<in> set (numbers r s). n \<le> co_next_version (mt_co s)" for r
      using write_create(4) unfolding numbers_ok_def by blast+
    have load: "w \<le> co_next_version (mt_co s)" "\<forall>n \<in> set (numbers r s). n \<le> w"
      if "mt_pc s u = C_Loaded r y d w" for u r y d w
      using write_create(4) inc that unfolding numbers_ok_def by blast+
    show "\<forall>r. sorted (numbers r ?s) \<and> (\<forall>n \<in> set (numbers r ?s). n \<le> co_next_version (mt_co ?s))"
      using all load [OF write_create(1)] by (simp add: sorted_append)
    show "\<forall>u r y d w. mt_pc ?s u = C_Loaded r y d w \<longrightarrow>
        w \<le> co_next_version (mt_co ?s) \<and> (\<forall>n \<in> set (numbers r ?s). n \<le> w)"
      using load other by simp blast
  qed
qed (auto simp: numbers_ok_def acquired_sels)

lemma mvcc_step_ok:
  assumes "one_thread may" "mvcc_step may t s s'" "mvcc_ok may s"
  shows "mvcc_ok may s'"
  using assms step_locks_match step_writers_hold step_guarded step_versions_match step_numbers_ok
  unfolding mvcc_ok_def by blast

interpretation mv: interleaving "mvcc_step may" "\<lambda>s. one_thread may \<longrightarrow> mvcc_ok may s" for may
  by unfold_locales (blast intro: mvcc_step_ok)

lemma mvcc_new_ok: "mvcc_ok may mvcc_new"
  by (simp add: mvcc_ok_def locks_match_def writers_hold_def versions_match_def numbers_ok_def mvcc_new_def
      co_new_def lm_new_def vm_new_def row_versions_def numbers_def)

text \<open>What a reader at a version finds in a list of versions whose numbers never decrease.\<close>

lemma pick_last:
  assumes "vs \<noteq> []" "\<forall>v \<in> set vs. rv_snapshot_version v \<le> ver"
  shows "foldl (pick_version ver) None vs = Some (last vs)"
  using assms by (induction vs rule: rev_induct) (auto simp: pick_version_def)

lemma get_version_latest:
  assumes "row_versions row v \<noteq> []" "\<forall>x \<in> set (row_versions row v). rv_snapshot_version x \<le> ver"
  shows "get_version row ver v = Some (last (row_versions row v))"
  using assms pick_last [of "row_versions row v" ver]
  by (cases "versions_of v row") (auto simp: get_version_def row_versions_def)

section \<open>One thread per transaction, and more\<close>

text \<open>
  A transaction that two threads run: one of them has passed the check of \<open>write_row\<close> when the other
  releases the lock; another transaction takes it and writes, and then the first thread's version
  is appended behind, by a transaction that no longer holds the lock.
\<close>

lemma stray_write:
  "\<exists>s. interleave (mvcc_step (\<lambda>_ _. True)) mvcc_new s \<and>
     mt_trace s = [Wrote 7 1 0, Wrote 7 2 0, Acquired 7 2, Released 7 1, Acquired 7 1] \<and> \<not> guarded (mt_trace s)"
proof -
  let ?lock = "\<lambda>x s. mvcc_did (Acquired 7 x) (snd (co_acquire_lock 7 x (mt_co s))) s"
  let ?step = "mvcc_step (\<lambda>_ _. True)"
  define s1 where "s1 = ?lock 1 mvcc_new"
  define s2 where "s2 = mvcc_at 0 (C_Checked 7 1 [65]) s1"
  define s3 where "s3 = mvcc_at 0 (C_Loaded 7 1 [65] 0) s2"
  define s4 where "s4 = mvcc_did (Released 7 1) (co_release_lock 7 1 (mt_co s3)) s3"
  define s5 where "s5 = ?lock 2 s4"
  define s6 where "s6 = mvcc_at 2 (C_Checked 7 2 [66]) s5"
  define s7 where "s7 = mvcc_at 2 (C_Loaded 7 2 [66] 0) s6"
  define s8 where "s8 = mvcc_at 2 C_Idle (mvcc_did (Wrote 7 2 0) (add_version 7 2 0 [66] (mt_co s7)) s7)"
  define s9 where "s9 = mvcc_at 0 C_Idle (mvcc_did (Wrote 7 1 0) (add_version 7 1 0 [65] (mt_co s8)) s8)"
  note defs = s1_def s2_def s3_def s4_def s5_def s6_def s7_def s8_def s9_def mvcc_new_def
    co_new_def lm_new_def co_acquire_lock_def acquire_lock_def lockers_def co_release_lock_def release_lock_def
    is_locked_def get_snapshot_version_def add_version_def mvcc_at_def mvcc_did_def
  have "?step 0 mvcc_new s1" unfolding s1_def by (rule acquire) (simp_all add: defs)
  moreover have "?step 0 s1 s2" unfolding s2_def by (rule write_check) (simp_all add: defs)
  moreover have "?step 0 s2 s3"
    using write_load [of s2 0 7 1 "[65]" "\<lambda>_ _. True"] by (simp add: s3_def defs)
  moreover have "?step 1 s3 s4" unfolding s4_def by (rule release) (simp_all add: defs)
  moreover have "?step 2 s4 s5" unfolding s5_def by (rule acquire) (simp_all add: defs)
  moreover have "?step 2 s5 s6" unfolding s6_def by (rule write_check) (simp_all add: defs)
  moreover have "?step 2 s6 s7"
    using write_load [of s6 2 7 2 "[66]" "\<lambda>_ _. True"] by (simp add: s7_def defs)
  moreover have "?step 2 s7 s8" unfolding s8_def by (rule write_create) (simp add: defs)
  moreover have "?step 0 s8 s9" unfolding s9_def by (rule write_create) (simp add: defs)
  ultimately have "interleave ?step mvcc_new s9" by (meson interleave_step interleave_refl)
  moreover have "mt_trace s9 = [Wrote 7 1 0, Wrote 7 2 0, Acquired 7 2, Released 7 1, Acquired 7 1]"
    by (simp add: defs)
  ultimately show ?thesis by (intro exI [of _ s9]) simp
qed

text \<open>
  C14. Writes are made under the lock. When every transaction is run by one thread, then in every
  interleaving of calls on a new coordinator every lock was free when it was acquired and every
  version was created by the holder of its row's lock, although the check and the creation are
  separate steps; the lock table is what the trace says; and the versions of a row are exactly the
  writes of the trace, in order. As long as the version counter has not wrapped around, the version
  numbers of a row never decrease, and a reader at the current number finds the last version.
\<close>

theorem mvcc_writes_locked:
  assumes "one_thread may" "interleave (mvcc_step may) mvcc_new s"
  shows "guarded (mt_trace s) \<and>
    (\<forall>row x. is_locked row x (co_locks (mt_co s)) \<longleftrightarrow> holder (mt_trace s) row = Some x) \<and>
    (\<forall>row. map (\<lambda>v. (rv_txn_id v, rv_snapshot_version v)) (row_versions row (co_versions (mt_co s))) =
       writes row (mt_trace s)) \<and>
    (increments (mt_trace s) < 2 ^ 64 \<longrightarrow>
       (\<forall>row. sorted (map rv_snapshot_version (row_versions row (co_versions (mt_co s)))) \<and>
          (row_versions row (co_versions (mt_co s)) \<noteq> [] \<longrightarrow>
             get_version row (co_next_version (mt_co s)) (co_versions (mt_co s)) =
               Some (last (row_versions row (co_versions (mt_co s)))))))"
proof -
  let ?vs = "\<lambda>row. row_versions row (co_versions (mt_co s))"
  have ok: "mvcc_ok may s" using mv.runs_inv [OF assms(2)] assms(1) mvcc_new_ok by blast
  then have vm: "map (\<lambda>v. (rv_txn_id v, rv_snapshot_version v)) (?vs row) = writes row (mt_trace s)" for row
    by (simp add: mvcc_ok_def versions_match_def)
  have nums: "numbers row s = map rv_snapshot_version (?vs row)" for row
    by (simp add: numbers_def comp_def flip: vm)
  have "sorted (map rv_snapshot_version (?vs row)) \<and>
      (\<forall>v \<in> set (?vs row). rv_snapshot_version v \<le> co_next_version (mt_co s))"
    if "increments (mt_trace s) < 2 ^ 64" for row
    using ok that by (simp add: mvcc_ok_def numbers_ok_def nums)
  moreover have "is_locked row x (co_locks (mt_co s)) \<longleftrightarrow> holder (mt_trace s) row = Some x" for row x
    using ok locked_holder by (simp add: mvcc_ok_def)
  ultimately show ?thesis using ok vm get_version_latest by (simp add: mvcc_ok_def)
qed

theorem mvcc_writes_locked_witness:
  "\<exists>s. interleave (mvcc_step (\<lambda>t x. x = word_of_nat t \<and> t < 10)) mvcc_new s \<and>
     mt_trace s = [Wrote 7 1 0, Acquired 7 1] \<and>
     map (\<lambda>v. (rv_txn_id v, rv_snapshot_version v)) (row_versions 7 (co_versions (mt_co s))) = [(1, 0)] \<and>
     is_locked 7 1 (co_locks (mt_co s))"
proof -
  let ?may = "\<lambda>t x. x = (word_of_nat t :: u64) \<and> t < 10"
  have one: "one_thread ?may" by (auto simp: one_thread_def word_unat_eq_iff unat_of_nat)
  define s1 where "s1 = mvcc_did (Acquired 7 1) (snd (co_acquire_lock 7 1 (mt_co mvcc_new))) mvcc_new"
  define s2 where "s2 = mvcc_at 1 (C_Checked 7 1 [65]) s1"
  define s3 where "s3 = mvcc_at 1 (C_Loaded 7 1 [65] 0) s2"
  define s4 where "s4 = mvcc_at 1 C_Idle (mvcc_did (Wrote 7 1 0) (add_version 7 1 0 [65] (mt_co s3)) s3)"
  note defs = s1_def s2_def s3_def mvcc_new_def co_new_def lm_new_def co_acquire_lock_def acquire_lock_def
    lockers_def is_locked_def get_snapshot_version_def
  have "mvcc_step ?may 1 mvcc_new s1" unfolding s1_def by (rule acquire) (simp_all add: defs)
  moreover have "mvcc_step ?may 1 s1 s2" unfolding s2_def by (rule write_check) (simp_all add: defs)
  moreover have "mvcc_step ?may 1 s2 s3"
    using write_load [of s2 1 7 1 "[65]" ?may] by (simp add: s3_def defs)
  moreover have "mvcc_step ?may 1 s3 s4" unfolding s4_def by (rule write_create) (simp add: defs)
  ultimately have run: "interleave (mvcc_step ?may) mvcc_new s4" by (meson interleave_step interleave_refl)
  moreover have "mt_trace s4 = [Wrote 7 1 0, Acquired 7 1]" by (simp add: s4_def defs)
  ultimately show ?thesis using mvcc_writes_locked [OF one run] by (intro exI [of _ s4]) simp
qed

end
