(* ===== verification/Graph_Engine.thy ===== *)
theory Graph_Engine
  imports Dbx4_Prelude
begin

text \<open>
  The graph engine of \<open>src/advanced_features.cpp\<close> (class \<open>GraphEngine\<close>): nodes and edges, breadth-first
  and depth-first traversal, and the propagation of costs along a depth-first traversal.

  Costs and weights are of a type \<open>'d\<close> of doubles; addition, multiplication and zero are arguments
  of the one operation that computes with them. The call stack of the recursive traversals is
  explicit: a frame is a node and the edges its loop has still to visit.
\<close>

section \<open>The code\<close>

record 'd graph_node =
  gn_node_id :: u64
  gn_node_type :: string
  gn_cost :: 'd
  gn_profit :: 'd

record 'd graph_edge =
  ge_from_node :: u64
  ge_to_node :: u64
  ge_edge_type :: string
  ge_weight :: 'd

text \<open>A \<open>TraversalPath\<close> of the traversals: two nodes and the edge between them; its costs are never set.\<close>

type_synonym 'd path = "u64 \<times> u64 \<times> 'd graph_edge"

record 'd graph =
  gr_nodes :: "(u64, 'd graph_node) omap"
  gr_adjacency_list :: "(u64, 'd graph_edge list) omap"
  gr_total_traversals :: u64

definition graph_new :: "'d graph" where
  "graph_new = \<lparr>gr_nodes = [], gr_adjacency_list = [], gr_total_traversals = 0\<rparr>"

definition add_node :: "u64 \<Rightarrow> string \<Rightarrow> 'd \<Rightarrow> 'd \<Rightarrow> 'd graph \<Rightarrow> bool \<times> 'd graph" where
  "add_node n ty cost profit g =
     (True, g\<lparr>gr_nodes := omap_insert n
        \<lparr>gn_node_id = n, gn_node_type = ty, gn_cost = cost, gn_profit = profit\<rparr> (gr_nodes g)\<rparr>)"

definition edges_of :: "'d graph \<Rightarrow> u64 \<Rightarrow> 'd graph_edge list" where
  "edges_of g n = (case map_of (gr_adjacency_list g) n of None \<Rightarrow> [] | Some es \<Rightarrow> es)"

definition add_edge :: "u64 \<Rightarrow> u64 \<Rightarrow> string \<Rightarrow> 'd \<Rightarrow> 'd graph \<Rightarrow> bool \<times> 'd graph" where
  "add_edge u v ty w g =
     (if map_of (gr_nodes g) u = None \<or> map_of (gr_nodes g) v = None then (False, g)
      else (True, g\<lparr>gr_adjacency_list := omap_insert u (edges_of g u @
        [\<lparr>ge_from_node = u, ge_to_node = v, ge_edge_type = ty, ge_weight = w\<rparr>])
        (gr_adjacency_list g)\<rparr>))"

text \<open>The loop over the edges of the current node: what it adds to the visited set, queue and paths.\<close>

fun bfs_edges ::
  "u64 \<Rightarrow> 'd graph_edge list \<Rightarrow> u64 set \<times> u64 list \<times> 'd path list \<Rightarrow> u64 set \<times> u64 list \<times> 'd path list" where
  "bfs_edges u [] st = st"
| "bfs_edges u (e # es) (vis, q, paths) =
     (if ge_to_node e \<in> vis then bfs_edges u es (vis, q, paths)
      else bfs_edges u es
        (insert (ge_to_node e) vis, q @ [ge_to_node e], paths @ [(u, ge_to_node e, e)]))"

definition targets :: "'d graph \<Rightarrow> u64 set" where
  "targets g = ge_to_node ` (\<Union>es \<in> snd ` set (gr_adjacency_list g). set es)"

lemma finite_targets [simp]: "finite (targets g)"
  by (simp add: targets_def)

lemma edges_of_targets:
  assumes "e \<in> set (edges_of g u)"
  shows "ge_to_node e \<in> targets g"
proof -
  from assms obtain es where "map_of (gr_adjacency_list g) u = Some es" "e \<in> set es"
    by (cases "map_of (gr_adjacency_list g) u") (auto simp: edges_of_def)
  then have "(u, es) \<in> set (gr_adjacency_list g)" by (simp add: map_of_SomeD)
  with \<open>e \<in> set es\<close> show ?thesis unfolding targets_def by (metis UN_I image_eqI snd_conv)
qed

text \<open>Every node that joins the queue leaves the set of targets still to be visited.\<close>

lemma bfs_edges_measure:
  "bfs_edges u es (vis, q, paths) = (vis', q', paths') \<Longrightarrow> ge_to_node ` set es \<subseteq> T \<Longrightarrow> finite T \<Longrightarrow>
     card (T - vis') + length q' = card (T - vis) + length q"
proof (induction es arbitrary: vis q paths)
  case (Cons e es)
  show ?case
  proof (cases "ge_to_node e \<in> vis")
    case False
    let ?t = "ge_to_node e"
    have "T - vis = insert ?t (T - insert ?t vis)" "?t \<notin> T - insert ?t vis"
      using False Cons.prems(2) by auto
    then have "card (T - vis) = Suc (card (T - insert ?t vis))"
      using Cons.prems(3) by (metis card_insert_disjoint finite_Diff)
    with False Cons show ?thesis by auto
  qed (use Cons in auto)
qed simp

function bfs_loop :: "'d graph \<Rightarrow> u64 set \<times> u64 list \<times> 'd path list \<Rightarrow> u64 set \<times> 'd path list" where
  "bfs_loop g (vis, [], paths) = (vis, paths)"
| "bfs_loop g (vis, u # q, paths) = bfs_loop g (bfs_edges u (edges_of g u) (vis, q, paths))"
  by pat_completeness auto
termination bfs_loop
proof (relation "measure (\<lambda>(g, vis, q, paths). card (targets g - vis) + length q)", goal_cases)
  case (2 g vis u q paths)
  obtain vis' q' paths' where r: "bfs_edges u (edges_of g u) (vis, q, paths) = (vis', q', paths')"
    by (metis prod.exhaust)
  have "card (targets g - vis') + length q' = card (targets g - vis) + length q"
    by (rule bfs_edges_measure [OF r]) (auto intro: edges_of_targets)
  then show ?case by (simp add: r)
qed simp

definition bfs_traversal :: "u64 \<Rightarrow> 'd graph \<Rightarrow> 'd path list \<times> 'd graph" where
  "bfs_traversal start g =
     (snd (bfs_loop g ({start}, [start], [])), g\<lparr>gr_total_traversals := gr_total_traversals g + 1\<rparr>)"

type_synonym 'd frames = "(u64 \<times> 'd graph_edge list) list"

abbreviation frames_size :: "'d frames \<Rightarrow> nat" where
  "frames_size fs \<equiv> length fs + sum_list (map (length \<circ> snd) fs)"

definition frame_targets :: "'d graph \<Rightarrow> 'd frames \<Rightarrow> u64 set" where
  "frame_targets g fs = targets g \<union> ge_to_node ` (\<Union>f \<in> set fs. set (snd f))"

lemma finite_frame_targets [simp]: "finite (frame_targets g fs)"
  by (simp add: frame_targets_def)

lemma frame_targets_push:
  "frame_targets g ((v, edges_of g v) # (u, es) # fs) \<subseteq> frame_targets g ((u, e # es) # fs)"
  by (auto simp: frame_targets_def intro: edges_of_targets)

function dfs_loop :: "'d graph \<Rightarrow> 'd frames \<Rightarrow> u64 set \<Rightarrow> 'd path list \<Rightarrow> u64 set \<times> 'd path list" where
  "dfs_loop g [] vis paths = (vis, paths)"
| "dfs_loop g ((u, []) # fs) vis paths = dfs_loop g fs vis paths"
| "dfs_loop g ((u, e # es) # fs) vis paths =
     (if ge_to_node e \<in> vis then dfs_loop g ((u, es) # fs) vis paths
      else dfs_loop g ((ge_to_node e, edges_of g (ge_to_node e)) # (u, es) # fs)
             (insert (ge_to_node e) vis) (paths @ [(u, ge_to_node e, e)]))"
  by pat_completeness auto
termination dfs_loop
proof (relation "measures [\<lambda>(g, fs, vis, paths). card (frame_targets g fs - vis),
    \<lambda>(g, fs, vis, paths). frames_size fs]", goal_cases)
  case (2 g u fs vis paths)
  have "frame_targets g fs = frame_targets g ((u, []) # fs)" by (simp add: frame_targets_def)
  then show ?case by simp
next
  case (3 g u e es fs vis paths)
  have "card (frame_targets g ((u, es) # fs) - vis) \<le> card (frame_targets g ((u, e # es) # fs) - vis)"
    by (rule card_mono) (auto simp: frame_targets_def)
  then show ?case by auto
next
  case (4 g u e es fs vis paths)
  let ?v = "ge_to_node e"
  have "frame_targets g ((?v, edges_of g ?v) # (u, es) # fs) - insert ?v vis \<subset>
      frame_targets g ((u, e # es) # fs) - vis"
    using frame_targets_push [of g ?v u es fs e] 4 by (auto simp: frame_targets_def)
  then show ?case by (simp add: psubset_card_mono)
qed simp

definition dfs_traversal :: "u64 \<Rightarrow> 'd graph \<Rightarrow> 'd path list \<times> 'd graph" where
  "dfs_traversal start g =
     (snd (dfs_loop g [(start, edges_of g start)] {start} []),
      g\<lparr>gr_total_traversals := gr_total_traversals g + 1\<rparr>)"

text \<open>
  \<open>nodes_[n]\<close> inserts a node of zeros when \<open>n\<close> is unknown. The recursion of the cost propagation
  visits the edges in the order of the depth-first traversal and adds \<open>cost * weight\<close> at each
  new node.
\<close>

definition node_at :: "'d \<Rightarrow> u64 \<Rightarrow> 'd graph \<Rightarrow> 'd graph_node \<times> 'd graph" where
  "node_at zero n g =
     (case map_of (gr_nodes g) n of
        Some x \<Rightarrow> (x, g)
      | None \<Rightarrow>
          (let x = \<lparr>gn_node_id = 0, gn_node_type = [], gn_cost = zero, gn_profit = zero\<rparr>
           in (x, g\<lparr>gr_nodes := omap_insert n x (gr_nodes g)\<rparr>)))"

lemma node_at_adjacency [simp]:
  "gr_adjacency_list (snd (node_at zero n g)) = gr_adjacency_list g"
  by (simp add: node_at_def Let_def split: option.splits)

lemma node_at_edges [simp]:
  "edges_of (snd (node_at zero n g)) = edges_of g"
  "targets (snd (node_at zero n g)) = targets g"
  "frame_targets (snd (node_at zero n g)) = frame_targets g"
proof -
  show e: "edges_of (snd (node_at zero n g)) = edges_of g"
    by (rule ext) (simp only: edges_of_def node_at_adjacency)
  show t: "targets (snd (node_at zero n g)) = targets g"
    by (simp only: targets_def node_at_adjacency)
  show "frame_targets (snd (node_at zero n g)) = frame_targets g"
    by (rule ext) (simp only: frame_targets_def t)
qed

function cost_loop ::
  "('d \<Rightarrow> 'd \<Rightarrow> 'd) \<Rightarrow> ('d \<Rightarrow> 'd \<Rightarrow> 'd) \<Rightarrow> 'd \<Rightarrow> 'd graph \<Rightarrow> 'd frames \<Rightarrow> u64 set \<Rightarrow> 'd \<Rightarrow> 'd \<times> 'd graph" where
  "cost_loop add mul zero g [] vis tot = (tot, g)"
| "cost_loop add mul zero g ((u, []) # fs) vis tot = cost_loop add mul zero g fs vis tot"
| "cost_loop add mul zero g ((u, e # es) # fs) vis tot =
     (if ge_to_node e \<in> vis then cost_loop add mul zero g ((u, es) # fs) vis tot
      else let v = ge_to_node e;
               x = fst (node_at zero v g);
               g' = snd (node_at zero v g)
           in cost_loop add mul zero g' ((v, edges_of g' v) # (u, es) # fs) (insert v vis)
                (add tot (mul (gn_cost x) (ge_weight e))))"
  by pat_completeness auto
termination cost_loop
proof (relation "measures [\<lambda>(add, mul, zero, g, fs, vis, tot). card (frame_targets g fs - vis),
    \<lambda>(add, mul, zero, g, fs, vis, tot). frames_size fs]", goal_cases)
  case (2 add mul zero g u fs vis tot)
  have "frame_targets g fs = frame_targets g ((u, []) # fs)" by (simp add: frame_targets_def)
  then show ?case by simp
next
  case (3 add mul zero g u e es fs vis tot)
  have "card (frame_targets g ((u, es) # fs) - vis) \<le> card (frame_targets g ((u, e # es) # fs) - vis)"
    by (rule card_mono) (auto simp: frame_targets_def)
  then show ?case by auto
next
  case (4 add mul zero g u e es fs vis tot v x g')
  have "frame_targets g ((ge_to_node e, edges_of g (ge_to_node e)) # (u, es) # fs) -
      insert (ge_to_node e) vis \<subset> frame_targets g ((u, e # es) # fs) - vis"
    using frame_targets_push [of g "ge_to_node e" u es fs e] 4(1) by (auto simp: frame_targets_def)
  then show ?case using 4(2-) by (simp add: psubset_card_mono)
qed simp

definition calculate_cost_propagation ::
  "('d \<Rightarrow> 'd \<Rightarrow> 'd) \<Rightarrow> ('d \<Rightarrow> 'd \<Rightarrow> 'd) \<Rightarrow> 'd \<Rightarrow> u64 \<Rightarrow> 'd graph \<Rightarrow> 'd \<times> 'd graph" where
  "calculate_cost_propagation add mul zero start g =
     (let x = fst (node_at zero start g); g1 = snd (node_at zero start g)
      in cost_loop add mul zero g1 [(start, edges_of g1 start)] {start} (gn_cost x))"

section \<open>Reachability\<close>

definition steps :: "'d graph \<Rightarrow> (u64 \<times> u64) set" where
  "steps g = {(u, ge_to_node e) | u e. e \<in> set (edges_of g u)}"

abbreviation reachable :: "'d graph \<Rightarrow> u64 \<Rightarrow> u64 set" where
  "reachable g start \<equiv> {v. (start, v) \<in> (steps g)\<^sup>*}"

text \<open>
  What the paths of a traversal are worth: they discover the visited nodes except the start, each
  once, over an edge of a node visited before.
\<close>

definition good_paths :: "'d graph \<Rightarrow> u64 \<Rightarrow> u64 set \<Rightarrow> 'd path list \<Rightarrow> bool" where
  "good_paths g start vis paths \<longleftrightarrow>
     distinct (map (\<lambda>(u, v, e). v) paths) \<and> start \<in> vis \<and>
     (\<lambda>(u, v, e). v) ` set paths = vis - {start} \<and>
     (\<forall>(u, v, e) \<in> set paths. e \<in> set (edges_of g u) \<and> v = ge_to_node e) \<and>
     vis \<subseteq> reachable g start"

lemma good_paths_extend:
  assumes "good_paths g start vis paths" "u \<in> vis" "e \<in> set (edges_of g u)" "ge_to_node e \<notin> vis"
  shows "good_paths g start (insert (ge_to_node e) vis) (paths @ [(u, ge_to_node e, e)])"
proof -
  have "(u, ge_to_node e) \<in> steps g" using assms(3) by (auto simp: steps_def)
  moreover have "(start, u) \<in> (steps g)\<^sup>*" using assms(1,2) by (auto simp: good_paths_def)
  ultimately have r: "(start, ge_to_node e) \<in> (steps g)\<^sup>*" by (rule rtrancl_into_rtrancl [rotated])
  have "ge_to_node e \<noteq> start" using assms(1,4) by (auto simp: good_paths_def)
  with assms r show ?thesis unfolding good_paths_def by (auto simp: image_iff)
qed

text \<open>A visited set that is closed under edges and contains the start is everything reachable.\<close>

lemma closed_reachable:
  assumes "good_paths g start vis paths" "\<forall>u \<in> vis. ge_to_node ` set (edges_of g u) \<subseteq> vis"
  shows "vis = reachable g start"
proof -
  have "v \<in> vis" if "(start, v) \<in> (steps g)\<^sup>*" for v
    using that
  proof (induction rule: rtrancl_induct)
    case base
    then show ?case using assms(1) by (simp add: good_paths_def)
  next
    case (step u v)
    then show ?case using assms(2) by (auto simp: steps_def)
  qed
  then show ?thesis using assms(1) by (auto simp: good_paths_def)
qed

section \<open>Breadth-first traversal\<close>

lemma bfs_edges_spec:
  "bfs_edges u es (vis, q, paths) = (vis', q', paths') \<Longrightarrow> good_paths g start vis paths \<Longrightarrow> u \<in> vis \<Longrightarrow>
     set es \<subseteq> set (edges_of g u) \<Longrightarrow>
     good_paths g start vis' paths' \<and> vis \<subseteq> vis' \<and> ge_to_node ` set es \<subseteq> vis' \<and>
     set q' = set q \<union> (vis' - vis)"
proof (induction es arbitrary: vis q paths)
  case (Cons e es)
  show ?case
  proof (cases "ge_to_node e \<in> vis")
    case True
    have "good_paths g start vis' paths' \<and> vis \<subseteq> vis' \<and> ge_to_node ` set es \<subseteq> vis' \<and>
        set q' = set q \<union> (vis' - vis)"
      using Cons.prems True by (intro Cons.IH) auto
    with True show ?thesis by auto
  next
    case False
    let ?vis = "insert (ge_to_node e) vis"
    have run: "bfs_edges u es (?vis, q @ [ge_to_node e], paths @ [(u, ge_to_node e, e)]) =
        (vis', q', paths')" using Cons.prems(1) False by simp
    have "good_paths g start ?vis (paths @ [(u, ge_to_node e, e)])"
      using Cons.prems False by (intro good_paths_extend) auto
    from Cons.IH [OF run this] Cons.prems False show ?thesis by auto
  qed
qed simp

lemma bfs_loop_spec:
  "bfs_loop g (vis, q, paths) = (vis', paths') \<Longrightarrow> good_paths g start vis paths \<Longrightarrow> set q \<subseteq> vis \<Longrightarrow>
     \<forall>w \<in> vis - set q. ge_to_node ` set (edges_of g w) \<subseteq> vis \<Longrightarrow>
     good_paths g start vis' paths' \<and> vis' = reachable g start"
proof (induction g "(vis, q, paths)" arbitrary: vis q paths rule: bfs_loop.induct)
  case (1 g vis paths)
  then show ?case using closed_reachable [of g start vis paths] by simp
next
  case (2 g vis u q paths)
  obtain vis1 q1 paths1 where e: "bfs_edges u (edges_of g u) (vis, q, paths) = (vis1, q1, paths1)"
    by (metis prod.exhaust)
  have s: "good_paths g start vis1 paths1" "vis \<subseteq> vis1" "ge_to_node ` set (edges_of g u) \<subseteq> vis1"
    "set q1 = set q \<union> (vis1 - vis)"
    using bfs_edges_spec [OF e 2(3)] 2(4) by auto
  have "ge_to_node ` set (edges_of g w) \<subseteq> vis1" if "w \<in> vis1 - set q1" for w
  proof (cases "w = u")
    case False
    with that s(4) 2(5) have "ge_to_node ` set (edges_of g w) \<subseteq> vis" by auto
    with s(2) show ?thesis by blast
  qed (use s(3) in simp)
  moreover have "set q1 \<subseteq> vis1" using s 2(4) by auto
  moreover have "bfs_loop g (vis1, q1, paths1) = (vis', paths')" using 2(2) e by simp
  ultimately show ?case using 2(1) [OF e] s(1) by blast
qed

section \<open>Depth-first traversal\<close>

fun pending :: "'d frames \<Rightarrow> (u64 \<times> 'd graph_edge) set" where
  "pending [] = {}"
| "pending ((u, es) # fs) = Pair u ` set es \<union> pending fs"

definition frames_ok :: "'d graph \<Rightarrow> 'd frames \<Rightarrow> u64 set \<Rightarrow> bool" where
  "frames_ok g fs vis \<longleftrightarrow>
     (\<forall>(u, es) \<in> set fs. u \<in> vis \<and> set es \<subseteq> set (edges_of g u)) \<and>
     (\<forall>w \<in> vis. \<forall>e \<in> set (edges_of g w). ge_to_node e \<in> vis \<or> (w, e) \<in> pending fs)"

lemma dfs_loop_spec:
  "dfs_loop g fs vis paths = (vis', paths') \<Longrightarrow> good_paths g start vis paths \<Longrightarrow> frames_ok g fs vis \<Longrightarrow>
     good_paths g start vis' paths' \<and> vis' = reachable g start"
proof (induction g fs vis paths rule: dfs_loop.induct)
  case (1 g vis paths)
  then show ?case using closed_reachable [of g start vis paths] by (auto simp: frames_ok_def)
next
  case (2 g u fs vis paths)
  have "frames_ok g fs vis" using 2(4) by (auto simp: frames_ok_def)
  with 2 show ?case by auto
next
  case (3 g u e es fs vis paths)
  show ?case
  proof (cases "ge_to_node e \<in> vis")
    case True
    have "frames_ok g ((u, es) # fs) vis"
      using 3(5) True unfolding frames_ok_def by auto
    with 3(1,3,4) True show ?thesis by auto
  next
    case False
    let ?v = "ge_to_node e"
    have "good_paths g start (insert ?v vis) (paths @ [(u, ?v, e)])"
      using 3(4,5) False by (intro good_paths_extend) (auto simp: frames_ok_def)
    moreover have "frames_ok g ((?v, edges_of g ?v) # (u, es) # fs) (insert ?v vis)"
      using 3(5) unfolding frames_ok_def by auto
    ultimately show ?thesis using 3(2,3) False by auto
  qed
qed

section \<open>Cost propagation\<close>

lemma dfs_loop_acc:
  "dfs_loop g fs vis (acc @ paths) = (fst (dfs_loop g fs vis paths), acc @ snd (dfs_loop g fs vis paths))"
  by (induction g fs vis paths rule: dfs_loop.induct) simp_all

lemma dfs_loop_node_at [simp]: "dfs_loop (snd (node_at zero n g)) fs vis paths = dfs_loop g fs vis paths"
  by (induction g fs vis paths rule: dfs_loop.induct) simp_all

definition cost_of :: "'d \<Rightarrow> 'd graph \<Rightarrow> u64 \<Rightarrow> 'd" where
  "cost_of zero g n = gn_cost (fst (node_at zero n g))"

lemma cost_of_node_at [simp]: "cost_of zero (snd (node_at zero n g)) = cost_of zero g"
  by (rule ext) (auto simp: cost_of_def node_at_def Let_def split: option.splits)

text \<open>The running sum is over the paths that the depth-first traversal finds, in their order.\<close>

lemma cost_loop_dfs:
  "fst (cost_loop add mul zero g fs vis tot) =
     foldl (\<lambda>t (u, v, e). add t (mul (cost_of zero g v) (ge_weight e))) tot
       (snd (dfs_loop g fs vis []))"
proof (induction add mul zero g fs vis tot rule: cost_loop.induct)
  case (3 add mul zero g u e es fs vis tot)
  show ?case
  proof (cases "ge_to_node e \<in> vis")
    case False
    let ?v = "ge_to_node e"
    have "snd (dfs_loop g ((u, e # es) # fs) vis []) =
        (u, ?v, e) # snd (dfs_loop g ((?v, edges_of g ?v) # (u, es) # fs) (insert ?v vis) [])"
      using False dfs_loop_acc [of g _ _ "[(u, ?v, e)]" "[]"] by simp
    with False 3(2) [OF False refl refl refl] show ?thesis
      by (simp add: Let_def) (simp add: cost_of_def)
  qed (use 3(1) in simp)
qed simp_all

lemma cost_propagation_sum:
  "fst (calculate_cost_propagation add mul zero start g) =
     foldl (\<lambda>t (u, v, e). add t (mul (cost_of zero g v) (ge_weight e))) (cost_of zero g start)
       (fst (dfs_traversal start g))"
  by (simp add: calculate_cost_propagation_def Let_def cost_loop_dfs dfs_traversal_def)
    (simp add: cost_of_def)

section \<open>Properties\<close>

text \<open>
  C15. Traversals. Both traversals return, on every graph, cyclic ones included, and from every start.
  Each finds exactly the nodes that can be reached from the start, apart from the start itself,
  and finds each of them once, over an edge of the graph.
\<close>

theorem traversals_correct:
  "(\<lambda>(u, v, e). v) ` set (fst (bfs_traversal start g)) = reachable g start - {start} \<and>
   (\<lambda>(u, v, e). v) ` set (fst (dfs_traversal start g)) = reachable g start - {start} \<and>
   distinct (map (\<lambda>(u, v, e). v) (fst (bfs_traversal start g))) \<and>
   distinct (map (\<lambda>(u, v, e). v) (fst (dfs_traversal start g))) \<and>
   set (fst (bfs_traversal start g)) \<union> set (fst (dfs_traversal start g)) \<subseteq>
     {(u, ge_to_node e, e) | u e. e \<in> set (edges_of g u)}"
proof -
  have init: "good_paths g start {start} []" by (auto simp: good_paths_def)
  obtain bv bp dv dp where runs: "bfs_loop g ({start}, [start], []) = (bv, bp)"
    "dfs_loop g [(start, edges_of g start)] {start} [] = (dv, dp)" by fastforce
  have "good_paths g start bv bp \<and> bv = reachable g start"
    by (rule bfs_loop_spec [OF runs(1) init]) auto
  moreover have "good_paths g start dv dp \<and> dv = reachable g start"
    by (rule dfs_loop_spec [OF runs(2) init]) (auto simp: frames_ok_def)
  ultimately show ?thesis using runs
    by (auto simp: good_paths_def bfs_traversal_def dfs_traversal_def)
qed

text \<open>Asking for the cost of an unknown node creates it.\<close>

lemma cost_unknown_start:
  assumes "map_of (gr_nodes g) n = None" "edges_of g n = []"
  shows "map_of (gr_nodes (snd (calculate_cost_propagation add mul zero n g))) n =
    Some \<lparr>gn_node_id = 0, gn_node_type = [], gn_cost = zero, gn_profit = zero\<rparr>"
  using assms by (simp add: calculate_cost_propagation_def node_at_def Let_def edges_of_def)

end
