(* ===== verification/Event_System.thy ===== *)
theory Event_System
  imports Dbx4_Prelude
begin

text \<open>
  The event system of \<open>src/advanced_features.cpp\<close> (class \<open>EventSystem\<close>): events raised with an
  optional parent, a queue of events to process, handlers per event type, and the search for
  cycles among parents and children.

  The clock is an argument of \<open>raise_event\<close>. So is the value of the local variable
  \<open>event.depth\<close>, which the code leaves uninitialised for an event without a known parent. A handler
  is a function of the event that returns a flag or throws (\<open>None\<close>); the calls that
  \<open>process_events\<close> makes are part of its result.
\<close>

section \<open>The code\<close>

datatype event_type =
  INSERT_EVENT | UPDATE_EVENT | DELETE_EVENT | THRESHOLD_EVENT | SCHEDULED_EVENT | CUSTOM_EVENT

record event =
  ev_event_id :: u64
  ev_event_type :: event_type
  ev_source_row_id :: u64
  ev_triggering_txn :: u64
  ev_depth :: u32
  ev_parent_event_id :: u64
  ev_child_events :: "u64 list"
  ev_timestamp :: u64
  ev_processed :: bool

record event_handler =
  eh_handler_id :: u64
  eh_event_type :: event_type
  eh_handler_func :: "event \<Rightarrow> bool option"

record event_system =
  es_events :: "(u64, event) omap"
  es_event_queue :: "u64 list"
  es_handlers :: "(u64, event_handler) omap"
  es_next_event_id :: u64
  es_total_events :: u64
  es_cascaded_events :: u64

definition MAX_EVENT_DEPTH :: u32 where
  "MAX_EVENT_DEPTH = 15"

definition event_system_new :: event_system where
  "event_system_new = \<lparr>es_events = [], es_event_queue = [], es_handlers = [],
     es_next_event_id = 1, es_total_events = 0, es_cascaded_events = 0\<rparr>"

text \<open>The event object before its depth is known, and the last two lines of \<open>raise_event\<close>.\<close>

definition fresh_event :: "u64 \<Rightarrow> event_type \<Rightarrow> u64 \<Rightarrow> u64 \<Rightarrow> u64 \<Rightarrow> u32 \<Rightarrow> event" where
  "fresh_event i ty row parent now junk = \<lparr>ev_event_id = i, ev_event_type = ty,
     ev_source_row_id = row, ev_triggering_txn = 0, ev_depth = junk, ev_parent_event_id = parent,
     ev_child_events = [], ev_timestamp = now, ev_processed = False\<rparr>"

definition enqueue_event :: "event \<Rightarrow> event_system \<Rightarrow> u64 \<times> event_system" where
  "enqueue_event e s = (ev_event_id e,
     s\<lparr>es_events := omap_insert (ev_event_id e) e (es_events s),
       es_event_queue := es_event_queue s @ [ev_event_id e]\<rparr>)"

definition parent_of :: "u64 \<Rightarrow> (u64, event) omap \<Rightarrow> event option" where
  "parent_of parent evs = (if 0 < parent then map_of evs parent else None)"

definition raise_event ::
  "event_type \<Rightarrow> u64 \<Rightarrow> u64 \<Rightarrow> u64 \<Rightarrow> u32 \<Rightarrow> event_system \<Rightarrow> u64 \<times> event_system" where
  "raise_event ty row parent now junk s0 =
     (let i = es_next_event_id s0;
          s = s0\<lparr>es_next_event_id := i + 1, es_total_events := es_total_events s0 + 1\<rparr>;
          e = fresh_event i ty row parent now junk
      in case parent_of parent (es_events s) of
           None \<Rightarrow> enqueue_event e s
         | Some p \<Rightarrow>
             (let d = ev_depth p + 1 in
              if MAX_EVENT_DEPTH < d then (0, s)
              else enqueue_event (e\<lparr>ev_depth := d\<rparr>)
                (s\<lparr>es_events := omap_insert parent
                     (p\<lparr>ev_child_events := ev_child_events p @ [i]\<rparr>) (es_events s),
                   es_cascaded_events := es_cascaded_events s + 1\<rparr>)))"

definition register_handler ::
  "event_type \<Rightarrow> (event \<Rightarrow> bool option) \<Rightarrow> event_system \<Rightarrow> bool \<times> event_system" where
  "register_handler ty f s =
     (let h = word_of_nat (length (es_handlers s)) + 1 in
      (True, s\<lparr>es_handlers := omap_insert h
         \<lparr>eh_handler_id = h, eh_event_type = ty, eh_handler_func = f\<rparr> (es_handlers s)\<rparr>))"

text \<open>
  The loop over the handlers: the calls made, and whether the loop ran to its end
  (an exception of a handler leaves it).
\<close>

type_synonym handler_call = "u64 \<times> event"

fun call_handlers ::
  "event \<Rightarrow> (u64, event_handler) omap \<Rightarrow> handler_call list \<times> bool" where
  "call_handlers e [] = ([], True)"
| "call_handlers e ((i, h) # hs) =
     (if eh_event_type h = ev_event_type e then
        (case eh_handler_func h e of
           None \<Rightarrow> ([(i, e)], False)
         | Some _ \<Rightarrow> (let (cs, ok) = call_handlers e hs in ((i, e) # cs, ok)))
      else call_handlers e hs)"

definition mark_processed :: "u64 \<Rightarrow> event \<Rightarrow> event_system \<Rightarrow> event_system" where
  "mark_processed i e s = s\<lparr>es_events := omap_insert i (e\<lparr>ev_processed := True\<rparr>) (es_events s)\<rparr>"

text \<open>
  The loop of \<open>process_events\<close> over the queue. The result is the value returned (\<open>None\<close> when
  a handler's exception leaves the function), the calls and the new state.
\<close>

fun process_loop ::
  "u64 list \<Rightarrow> event_system \<Rightarrow> bool option \<times> handler_call list \<times> event_system" where
  "process_loop [] s = (Some True, [], s\<lparr>es_event_queue := []\<rparr>)"
| "process_loop (i # q) s =
     (case map_of (es_events s) i of
        None \<Rightarrow> process_loop q s
      | Some e \<Rightarrow>
          (case call_handlers e (es_handlers s) of
             (cs, False) \<Rightarrow> (None, cs, s\<lparr>es_event_queue := q\<rparr>)
           | (cs, True) \<Rightarrow>
               (let (r, cs', s') = process_loop q (mark_processed i e s) in (r, cs @ cs', s'))))"

definition process_events :: "event_system \<Rightarrow> bool option \<times> handler_call list \<times> event_system" where
  "process_events s = process_loop (es_event_queue s) s"

text \<open>
  The recursive search for a cycle. \<open>each_child\<close> is the loop over the children with the
  recursive call as its argument; the visited set is shared by all calls. The first argument bounds
  the depth of the recursion (\<open>None\<close>: not deep enough).
\<close>

fun each_child ::
  "(u64 \<Rightarrow> u64 set \<Rightarrow> (bool \<times> u64 set) option) \<Rightarrow> u64 list \<Rightarrow> u64 set \<Rightarrow> (bool \<times> u64 set) option" where
  "each_child f [] vis = Some (False, vis)"
| "each_child f (c # cs) vis =
     (case f c vis of
        None \<Rightarrow> None
      | Some (True, vis') \<Rightarrow> Some (True, vis')
      | Some (False, vis') \<Rightarrow> each_child f cs vis')"

definition children_of :: "(u64, event) omap \<Rightarrow> u64 \<Rightarrow> u64 list" where
  "children_of evs i = (case map_of evs i of None \<Rightarrow> [] | Some e \<Rightarrow> ev_child_events e)"

primrec detect_cycle ::
  "nat \<Rightarrow> (u64, event) omap \<Rightarrow> u64 \<Rightarrow> u64 set \<Rightarrow> (bool \<times> u64 set) option" where
  "detect_cycle 0 evs i vis = None"
| "detect_cycle (Suc n) evs i vis =
     (if i \<in> vis then Some (True, vis)
      else case each_child (detect_cycle n evs) (children_of evs i) (insert i vis) of
             None \<Rightarrow> None
           | Some (True, vis') \<Rightarrow> Some (True, vis')
           | Some (False, vis') \<Rightarrow> Some (False, vis' - {i}))"

definition get_event_count :: "event_system \<Rightarrow> u64" where
  "get_event_count s = es_total_events s"

definition get_cascaded_count :: "event_system \<Rightarrow> u64" where
  "get_cascaded_count s = es_cascaded_events s"

section \<open>The search for cycles\<close>

text \<open>The relation from an event to its children.\<close>

definition child_rel :: "(u64, event) omap \<Rightarrow> (u64 \<times> u64) set" where
  "child_rel evs = {(i, c). c \<in> set (children_of evs i)}"

lemma child_relI: "c \<in> set (children_of evs i) \<Longrightarrow> (i, c) \<in> child_rel evs"
  by (simp add: child_rel_def)

definition event_ids :: "(u64, event) omap \<Rightarrow> u64 set" where
  "event_ids evs = fst ` set evs"

lemma finite_event_ids [simp]: "finite (event_ids evs)"
  by (simp add: event_ids_def)

lemma children_of_unknown: "i \<notin> event_ids evs \<Longrightarrow> children_of evs i = []"
  by (simp add: children_of_def event_ids_def map_of_eq_None_iff [symmetric])

text \<open>A loop whose calls return and restore the visited set when they find nothing.\<close>

lemma each_child_returns:
  assumes "\<And>c. c \<in> set cs \<Longrightarrow> \<exists>b v. f c vis = Some (b, v) \<and> (\<not> b \<longrightarrow> v = vis)"
  shows "\<exists>b v. each_child f cs vis = Some (b, v) \<and> (\<not> b \<longrightarrow> v = vis)"
  using assms
proof (induction cs)
  case Nil
  then show ?case by auto
next
  case (Cons c cs)
  obtain b v where c: "f c vis = Some (b, v)" "\<not> b \<longrightarrow> v = vis"
    using Cons.prems [of c] by auto
  show ?case
  proof (cases b)
    case True
    with c show ?thesis by auto
  next
    case False
    with c Cons show ?thesis by simp
  qed
qed

lemma each_child_cases:
  assumes "each_child f cs vis = Some (b, v)"
    and restores: "\<And>c w u. f c w = Some (False, u) \<Longrightarrow> u = w"
  shows "if b then \<exists>c \<in> set cs. f c vis = Some (True, v)
         else v = vis \<and> (\<forall>c \<in> set cs. f c vis = Some (False, vis))"
  using assms(1)
proof (induction cs)
  case Nil
  then show ?case by auto
next
  case (Cons c cs)
  from Cons.prems obtain b' u where c: "f c vis = Some (b', u)"
    by (auto split: option.splits)
  show ?case
  proof (cases b')
    case True
    with Cons.prems c show ?thesis by auto
  next
    case False
    with c have "f c vis = Some (False, u)" by simp
    then have "u = vis" by (rule restores)
    with False Cons c show ?thesis by (simp split: if_splits)
  qed
qed

lemma detect_cycle_returns:
  "card (event_ids evs - vis) + 1 < n \<Longrightarrow>
   \<exists>b v. detect_cycle n evs i vis = Some (b, v) \<and> (\<not> b \<longrightarrow> v = vis)"
proof (induction n arbitrary: i vis)
  case 0
  then show ?case by simp
next
  case (Suc n)
  show ?case
  proof (cases "i \<in> vis")
    case True
    then show ?thesis by auto
  next
    case False
    have "\<exists>b v. each_child (detect_cycle n evs) (children_of evs i) (insert i vis) = Some (b, v)
      \<and> (\<not> b \<longrightarrow> v = insert i vis)"
    proof (cases "i \<in> event_ids evs")
      case True
      have "event_ids evs - vis = insert i (event_ids evs - insert i vis)"
        using True False by auto
      then have "card (event_ids evs - vis) = Suc (card (event_ids evs - insert i vis))"
        by (metis card_insert_disjoint finite_Diff finite_event_ids Diff_iff insertI1)
      with Suc show ?thesis by (intro each_child_returns) simp
    next
      case False
      then show ?thesis by (auto simp: children_of_unknown)
    qed
    then obtain b v where
      "each_child (detect_cycle n evs) (children_of evs i) (insert i vis) = Some (b, v)"
      "\<not> b \<longrightarrow> v = insert i vis" by blast
    with False show ?thesis by (cases b) auto
  qed
qed

lemma detect_cycle_restores:
  assumes "detect_cycle n evs i vis = Some (False, v)"
  shows "v = vis"
  using assms
proof (induction n arbitrary: i vis v)
  case 0
  then show ?case by simp
next
  case (Suc n)
  from Suc.prems obtain v' where e: "i \<notin> vis" "v = v' - {i}"
      "each_child (detect_cycle n evs) (children_of evs i) (insert i vis) = Some (False, v')"
    by (auto split: if_splits option.splits bool.splits)
  from each_child_cases [OF e(3) Suc.IH] have "v' = insert i vis" by simp
  with e show ?case by auto
qed

lemma detect_cycle_sound:
  "detect_cycle n evs i vis = Some (True, v) \<Longrightarrow>
   (\<exists>x \<in> vis. (i, x) \<in> (child_rel evs)\<^sup>*) \<or>
   (\<exists>x. (i, x) \<in> (child_rel evs)\<^sup>* \<and> (x, x) \<in> (child_rel evs)\<^sup>+)"
proof (induction n arbitrary: i vis v)
  case 0
  then show ?case by simp
next
  case (Suc n)
  show ?case
  proof (cases "i \<in> vis")
    case True
    then show ?thesis by auto
  next
    case False
    with Suc.prems have
      "each_child (detect_cycle n evs) (children_of evs i) (insert i vis) = Some (True, v)"
      by (auto split: if_splits option.splits bool.splits)
    then obtain c where c: "c \<in> set (children_of evs i)"
        "detect_cycle n evs c (insert i vis) = Some (True, v)"
      using each_child_cases [OF _ detect_cycle_restores] by fastforce
    have ic: "(i, c) \<in> child_rel evs" using c(1) by (rule child_relI)
    show ?thesis using Suc.IH [OF c(2)]
    proof (elim disjE bexE exE conjE)
      fix x
      assume x: "x \<in> insert i vis" "(c, x) \<in> (child_rel evs)\<^sup>*"
      show ?thesis
      proof (cases "x = i")
        case True
        with x ic have "(i, i) \<in> (child_rel evs)\<^sup>+" by (metis rtrancl_into_trancl2)
        then show ?thesis by blast
      next
        case False
        with x ic show ?thesis by (metis converse_rtrancl_into_rtrancl insertE)
      qed
    next
      fix x
      assume "(c, x) \<in> (child_rel evs)\<^sup>*" "(x, x) \<in> (child_rel evs)\<^sup>+"
      with ic show ?thesis by (metis converse_rtrancl_into_rtrancl)
    qed
  qed
qed

lemma detect_cycle_complete:
  assumes "detect_cycle n evs i vis = Some (False, v)" and "(i, x) \<in> (child_rel evs)\<^sup>*"
  shows "x \<notin> vis \<and> (x, x) \<notin> (child_rel evs)\<^sup>+"
  using assms
proof (induction n arbitrary: i vis v x)
  case 0
  then show ?case by simp
next
  case (Suc n)
  from Suc.prems(1) obtain v' where e: "i \<notin> vis"
      "each_child (detect_cycle n evs) (children_of evs i) (insert i vis) = Some (False, v')"
    by (auto split: if_splits option.splits bool.splits)
  have below: "y \<notin> insert i vis \<and> (y, y) \<notin> (child_rel evs)\<^sup>+"
    if "(i, c) \<in> child_rel evs" "(c, y) \<in> (child_rel evs)\<^sup>*" for c y
  proof -
    from that(1) have "c \<in> set (children_of evs i)" by (simp add: child_rel_def)
    then have "detect_cycle n evs c (insert i vis) = Some (False, insert i vis)"
      using each_child_cases [OF e(2) detect_cycle_restores] by simp
    from Suc.IH [OF this that(2)] show ?thesis .
  qed
  show ?case
  proof (cases "x = i")
    case True
    have "(i, i) \<notin> (child_rel evs)\<^sup>+"
      using below by (metis insertI1 tranclD)
    with True e(1) show ?thesis by simp
  next
    case False
    with Suc.prems(2) obtain c where "(i, c) \<in> child_rel evs" "(c, x) \<in> (child_rel evs)\<^sup>*"
      by (metis converse_rtranclE)
    with below show ?thesis by blast
  qed
qed

lemma detect_cycle_iff:
  assumes "Suc (length evs) < n"
  shows "\<exists>b v. detect_cycle n evs i {} = Some (b, v) \<and>
    b = (\<exists>x. (i, x) \<in> (child_rel evs)\<^sup>* \<and> (x, x) \<in> (child_rel evs)\<^sup>+)"
proof -
  have "card (event_ids evs) \<le> length evs"
    unfolding event_ids_def by (metis card_length length_map set_map)
  with assms obtain b v where r: "detect_cycle n evs i {} = Some (b, v)"
    using detect_cycle_returns [of evs "{}" n i] by auto
  show ?thesis
  proof (cases b)
    case True
    with r detect_cycle_sound [of n evs i "{}" v] show ?thesis by auto
  next
    case False
    with r detect_cycle_complete [of n evs i "{}" v] show ?thesis by auto
  qed
qed

section \<open>Reachable states\<close>

text \<open>The calls of a client, and the state after a sequence of them.\<close>

datatype es_call =
    RaiseEvent event_type u64 u64 u64 u32
  | RegisterHandler event_type "event \<Rightarrow> bool option"
  | ProcessEvents

fun es_step :: "event_system \<Rightarrow> es_call \<Rightarrow> event_system" where
  "es_step s (RaiseEvent ty row parent now junk) = snd (raise_event ty row parent now junk s)"
| "es_step s (RegisterHandler ty f) = snd (register_handler ty f s)"
| "es_step s ProcessEvents = snd (snd (process_events s))"

abbreviation es_run :: "es_call list \<Rightarrow> event_system" where
  "es_run cs \<equiv> run_steps es_step event_system_new cs"

fun is_raise :: "es_call \<Rightarrow> bool" where
  "is_raise (RaiseEvent _ _ _ _ _) = True"
| "is_raise _ = False"

text \<open>
  The invariant of the event table: events are stored under their own ids, which lie below the next
  id; the children of an event are exactly the events that name it as their parent, all
  raised later, and their depth is one more, within the limit.
\<close>

definition event_ok :: "(u64, event) omap \<Rightarrow> u64 \<Rightarrow> u64 \<Rightarrow> event \<Rightarrow> bool" where
  "event_ok evs next i e \<longleftrightarrow> ev_event_id e = i \<and> 0 < i \<and> i < next \<and>
     sorted_wrt (<) (ev_child_events e) \<and>
     (\<forall>c \<in> set (ev_child_events e). i < c \<and>
        (\<exists>d. map_of evs c = Some d \<and> ev_parent_event_id d = i \<and>
           ev_depth d = ev_depth e + 1 \<and> ev_depth d \<le> MAX_EVENT_DEPTH))"

definition events_ok :: "event_system \<Rightarrow> bool" where
  "events_ok s \<longleftrightarrow> omap_ok (es_events s) \<and> sorted_wrt (<) (es_event_queue s) \<and>
     set (es_event_queue s) \<subseteq> event_ids (es_events s) \<and>
     (\<forall>i e. map_of (es_events s) i = Some e \<longrightarrow> event_ok (es_events s) (es_next_event_id s) i e)"

lemma map_of_event_ids: "i \<in> event_ids evs \<longleftrightarrow> map_of evs i \<noteq> None"
  by (simp add: event_ids_def map_of_eq_None_iff)

lemma event_ids_insert [simp]: "event_ids (omap_insert i e evs) = insert i (event_ids evs)"
  using set_keys_omap_insert [of i e evs] by (simp add: event_ids_def)

lemma event_okD:
  assumes "events_ok s" and "map_of (es_events s) i = Some e"
  shows "event_ok (es_events s) (es_next_event_id s) i e"
  using assms by (simp add: events_ok_def)

lemma next_id_fresh:
  assumes "events_ok s"
  shows "map_of (es_events s) (es_next_event_id s) = None"
  using event_okD [OF assms, of "es_next_event_id s"]
  by (cases "map_of (es_events s) (es_next_event_id s)") (auto simp: event_ok_def)

lemma queued_known:
  assumes "events_ok s" and "i \<in> set (es_event_queue s)"
  shows "\<exists>e. map_of (es_events s) i = Some e \<and> i < es_next_event_id s"
proof -
  from assms have "i \<in> event_ids (es_events s)" by (auto simp: events_ok_def)
  then obtain e where "map_of (es_events s) i = Some e" by (auto simp: map_of_event_ids)
  with event_okD [OF assms(1) this] show ?thesis by (simp add: event_ok_def)
qed

text \<open>Processing an event and registering a handler touch no link.\<close>

lemma event_ok_mono:
  assumes "event_ok evs next i e" and "next \<le> next'"
    and "\<And>c d. map_of evs c = Some d \<Longrightarrow> \<exists>d'. map_of evs' c = Some d' \<and>
           ev_parent_event_id d' = ev_parent_event_id d \<and> ev_depth d' = ev_depth d"
  shows "event_ok evs' next' i e"
  unfolding event_ok_def
proof (intro conjI ballI)
  fix c
  assume "c \<in> set (ev_child_events e)"
  then obtain d where d: "i < c" "map_of evs c = Some d" "ev_parent_event_id d = i"
      "ev_depth d = ev_depth e + 1" "ev_depth d \<le> MAX_EVENT_DEPTH"
    using assms(1) unfolding event_ok_def by blast
  from assms(3) [OF d(2)] d
  show "i < c" and "\<exists>d. map_of evs' c = Some d \<and> ev_parent_event_id d = i \<and>
      ev_depth d = ev_depth e + 1 \<and> ev_depth d \<le> MAX_EVENT_DEPTH" by auto
qed (use assms(1,2) in \<open>auto simp: event_ok_def\<close>)

lemma event_ok_processed [simp]:
  "event_ok evs next j (d\<lparr>ev_processed := True\<rparr>) \<longleftrightarrow> event_ok evs next j d"
  by (simp add: event_ok_def)

lemma events_ok_mark:
  assumes "events_ok (s\<lparr>es_event_queue := i # q\<rparr>)" and "map_of (es_events s) i = Some e"
  shows "events_ok ((mark_processed i e s)\<lparr>es_event_queue := q\<rparr>)"
proof -
  let ?evs = "omap_insert i (e\<lparr>ev_processed := True\<rparr>) (es_events s)"
  have "event_ok ?evs (es_next_event_id s) j d" if "event_ok (es_events s) (es_next_event_id s) j d" for j d
    using that by (rule event_ok_mono) (use assms(2) in auto)
  with assms show ?thesis by (auto simp: events_ok_def mark_processed_def split: if_splits)
qed

lemma process_loop_Cons:
  assumes "map_of (es_events s) i = Some e" and "call_handlers e (es_handlers s) = (cs, ok)"
  shows "process_loop (i # q) s =
    (if ok then (let (r, cs', s') = process_loop q (mark_processed i e s) in (r, cs @ cs', s'))
     else (None, cs, s\<lparr>es_event_queue := q\<rparr>))"
  using assms by simp

lemma events_ok_process:
  "events_ok (s\<lparr>es_event_queue := q\<rparr>) \<Longrightarrow>
   events_ok (snd (snd (process_loop q s))) \<and>
   es_next_event_id (snd (snd (process_loop q s))) = es_next_event_id s"
proof (induction q arbitrary: s)
  case Nil
  then show ?case by simp
next
  case (Cons i q)
  from Cons.prems obtain e where e: "map_of (es_events s) i = Some e"
    by (auto simp: events_ok_def map_of_event_ids)
  obtain cs ok where c: "call_handlers e (es_handlers s) = (cs, ok)"
    by (cases "call_handlers e (es_handlers s)")
  have "events_ok (s\<lparr>es_event_queue := q\<rparr>)"
    using Cons.prems by (simp add: events_ok_def)
  moreover note Cons.IH [OF events_ok_mark [OF Cons.prems e]]
  ultimately show ?case
    unfolding process_loop_Cons [OF e c] by (simp add: case_prod_beta Let_def mark_processed_def)
qed

text \<open>Raising an event.\<close>

lemma events_ok_bump:
  assumes "events_ok s" and "es_next_event_id s < n"
  shows "events_ok (s\<lparr>es_next_event_id := n, es_total_events := t\<rparr>)"
  using assms by (auto simp: events_ok_def event_ok_def intro: less_trans)

lemma events_ok_enqueue:
  assumes "events_ok s" and "ev_event_id e = es_next_event_id s" and "es_next_event_id s \<noteq> 0"
    and "es_next_event_id s < n" and "ev_child_events e = []"
  shows "events_ok (snd (enqueue_event e (s\<lparr>es_next_event_id := n, es_total_events := t\<rparr>)))"
proof -
  let ?i = "es_next_event_id s"
  have new: "map_of (es_events s) ?i = None"
    using assms(1) by (rule next_id_fresh)
  have below: "j < ?i" if "j \<in> set (es_event_queue s)" for j
    using queued_known [OF assms(1) that] by blast
  have "event_ok (omap_insert ?i e (es_events s)) n j d"
    if "map_of (es_events s) j = Some d" for j d
    using event_okD [OF assms(1) that] by (rule event_ok_mono) (use assms new in auto)
  moreover have "event_ok (omap_insert ?i e (es_events s)) n ?i e"
    using assms by (simp add: event_ok_def word_gt_0)
  ultimately show ?thesis
    using assms below by (auto simp: events_ok_def enqueue_event_def sorted_wrt_append)
qed

lemma events_ok_link:
  assumes "events_ok s" and "map_of (es_events s) parent = Some p" and "map_of (es_events s) c = Some d"
    and "parent < c" and "ev_parent_event_id d = parent" and "ev_depth d = ev_depth p + 1"
    and "ev_depth d \<le> MAX_EVENT_DEPTH" and "\<forall>b \<in> set (ev_child_events p). b < c"
  shows "events_ok (s\<lparr>es_events := omap_insert parent
    (p\<lparr>ev_child_events := ev_child_events p @ [c]\<rparr>) (es_events s)\<rparr>)"
proof -
  let ?evs = "omap_insert parent (p\<lparr>ev_child_events := ev_child_events p @ [c]\<rparr>) (es_events s)"
  have old: "event_ok ?evs (es_next_event_id s) j e"
    if "map_of (es_events s) j = Some e" for j e
    using event_okD [OF assms(1) that] by (rule event_ok_mono) (use assms in auto)
  have "event_ok ?evs (es_next_event_id s) parent (p\<lparr>ev_child_events := ev_child_events p @ [c]\<rparr>)"
    using old [OF assms(2)] assms by (auto simp: event_ok_def sorted_wrt_append)
  with old assms(1,2) show ?thesis
    by (auto simp: events_ok_def map_of_event_ids)
qed

lemma events_ok_raise:
  assumes "events_ok s" and "es_next_event_id s \<noteq> 0" and "es_next_event_id s < es_next_event_id s + 1"
  shows "events_ok (snd (raise_event ty row parent now junk s))"
proof -
  let ?i = "es_next_event_id s"
  let ?s = "s\<lparr>es_next_event_id := ?i + 1, es_total_events := es_total_events s + 1\<rparr>"
  let ?e = "fresh_event ?i ty row parent now junk"
  have e: "ev_event_id ?e = ?i" "ev_child_events ?e = []" "ev_parent_event_id ?e = parent"
    by (simp_all add: fresh_event_def)
  show ?thesis
  proof (cases "parent_of parent (es_events s)")
    case None
    with assms e show ?thesis
      using events_ok_enqueue [of s ?e "?i + 1"] by (simp add: raise_event_def Let_def)
  next
    case (Some p)
    then have p: "map_of (es_events s) parent = Some p" by (simp add: parent_of_def split: if_splits)
    let ?d = "?e\<lparr>ev_depth := ev_depth p + 1\<rparr>"
    show ?thesis
    proof (cases "MAX_EVENT_DEPTH < ev_depth p + 1")
      case True
      with Some assms show ?thesis
        by (simp add: raise_event_def Let_def events_ok_bump)
    next
      case False
      from event_okD [OF assms(1) p] have pi: "parent < ?i" and kids: "\<forall>b \<in> set (ev_child_events p). b < ?i"
        using event_okD [OF assms(1)] by (auto simp: event_ok_def)
      let ?t = "snd (enqueue_event ?d ?s)"
      have "events_ok ?t" using assms e by (intro events_ok_enqueue) auto
      then have "events_ok (?t\<lparr>es_events := omap_insert parent
          (p\<lparr>ev_child_events := ev_child_events p @ [?i]\<rparr>) (es_events ?t)\<rparr>)"
        by (rule events_ok_link [of _ _ _ _ ?d]) (use p pi kids False e in \<open>auto simp: enqueue_event_def\<close>)
      moreover have "omap_ok (es_events s)" using assms(1) by (simp add: events_ok_def)
      ultimately show ?thesis using Some False pi e
        by (simp add: raise_event_def Let_def enqueue_event_def events_ok_def omap_insert_commute)
    qed
  qed
qed

lemma raise_event_next [simp]:
  "es_next_event_id (snd (raise_event ty row parent now junk s)) = es_next_event_id s + 1"
  by (auto simp: raise_event_def Let_def enqueue_event_def split: option.splits)

lemma unat_u64_Suc: "unat (w :: u64) < 2 ^ 64 - 1 \<Longrightarrow> unat (w + 1) = Suc (unat w)"
  by (simp add: unat_word_ariths)

lemma u64_less_Suc: "unat (w :: u64) < 2 ^ 64 - 1 \<Longrightarrow> w < w + 1"
  by (simp add: word_less_nat_alt unat_u64_Suc)

lemma es_run_ok:
  "Suc (length (filter is_raise cs)) < 2 ^ 64 \<Longrightarrow>
   events_ok (es_run cs) \<and> unat (es_next_event_id (es_run cs)) = Suc (length (filter is_raise cs))"
proof (induction cs rule: rev_induct)
  case Nil
  then show ?case by (simp add: event_system_new_def events_ok_def)
next
  case (snoc c cs)
  from snoc have IH: "events_ok (es_run cs)"
      "unat (es_next_event_id (es_run cs)) = Suc (length (filter is_raise cs))" by simp_all
  show ?case
  proof (cases c)
    case (RaiseEvent ty row parent now junk)
    with snoc.prems IH(2) have "unat (es_next_event_id (es_run cs)) < 2 ^ 64 - 1" by simp
    moreover from IH(2) have "es_next_event_id (es_run cs) \<noteq> 0" by auto
    ultimately show ?thesis
      using IH RaiseEvent by (simp add: run_steps_append events_ok_raise u64_less_Suc unat_u64_Suc)
  next
    case (RegisterHandler ty f)
    with IH show ?thesis by (simp add: run_steps_append register_handler_def Let_def events_ok_def)
  next
    case ProcessEvents
    with IH show ?thesis
      using events_ok_process [of "es_event_queue (es_run cs)" "es_run cs"]
      by (simp add: run_steps_append process_events_def)
  qed
qed

section \<open>Chains of events\<close>

lemma child_rel_ok:
  assumes "events_ok s" and "(i, c) \<in> child_rel (es_events s)"
  obtains e d where "map_of (es_events s) i = Some e" and "map_of (es_events s) c = Some d"
    and "i < c" and "ev_depth d = ev_depth e + 1" and "ev_depth d \<le> MAX_EVENT_DEPTH"
proof -
  from assms(2) obtain e where e: "map_of (es_events s) i = Some e" "c \<in> set (ev_child_events e)"
    by (cases "map_of (es_events s) i") (auto simp: child_rel_def children_of_def)
  with event_okD [OF assms(1) e(1)] that show thesis unfolding event_ok_def by blast
qed

lemma child_rel_increasing:
  assumes "events_ok s" and "(i, j) \<in> (child_rel (es_events s))\<^sup>+"
  shows "i < j"
  using assms(2) by (induction rule: trancl_induct) (auto elim: child_rel_ok [OF assms(1)])

text \<open>Along a chain the depths count up, once the first one is within the limit.\<close>

lemma chain_depth:
  assumes "events_ok s" and "map_of (es_events s) i = Some e" and "unat (ev_depth e) \<le> 15"
    and "(i, j) \<in> child_rel (es_events s) ^^ n"
  shows "\<exists>d. map_of (es_events s) j = Some d \<and> unat (ev_depth d) = unat (ev_depth e) + n \<and> unat (ev_depth d) \<le> 15"
  using assms(4)
proof (induction n arbitrary: j)
  case 0
  with assms show ?case by simp
next
  case (Suc n)
  then obtain k where k: "(i, k) \<in> child_rel (es_events s) ^^ n" "(k, j) \<in> child_rel (es_events s)"
    by auto
  from Suc.IH [OF k(1)] obtain d where d: "map_of (es_events s) k = Some d"
      "unat (ev_depth d) = unat (ev_depth e) + n" "unat (ev_depth d) \<le> 15" by blast
  from child_rel_ok [OF assms(1) k(2)] d(1) obtain f where f: "map_of (es_events s) j = Some f"
      "ev_depth f = ev_depth d + 1" "ev_depth f \<le> MAX_EVENT_DEPTH"
    by (metis option.inject)
  with d show ?case
    by (auto simp: MAX_EVENT_DEPTH_def word_le_nat_alt unat_word_ariths)
qed

lemma chain_length:
  assumes "events_ok s" and "(i, j) \<in> child_rel (es_events s) ^^ n"
  shows "n \<le> 16"
proof (cases n)
  case (Suc m)
  with assms(2) obtain k where k: "(i, k) \<in> child_rel (es_events s)"
      "(k, j) \<in> child_rel (es_events s) ^^ m" by (metis relpow_Suc_D2)
  from child_rel_ok [OF assms(1) k(1)] obtain d where "map_of (es_events s) k = Some d"
      "ev_depth d \<le> MAX_EVENT_DEPTH" by metis
  then have "map_of (es_events s) k = Some d" "unat (ev_depth d) \<le> 15"
    by (simp_all add: MAX_EVENT_DEPTH_def word_le_nat_alt)
  from chain_depth [OF assms(1) this k(2)] Suc show ?thesis by auto
qed simp

text \<open>Where the uninitialised depth happens to be zero, every depth is within the limit.\<close>

fun zero_depth :: "es_call \<Rightarrow> bool" where
  "zero_depth (RaiseEvent _ _ _ _ junk) = (junk = 0)"
| "zero_depth _ = True"

definition depths_ok :: "event_system \<Rightarrow> bool" where
  "depths_ok s \<longleftrightarrow> (\<forall>i e. map_of (es_events s) i = Some e \<longrightarrow> unat (ev_depth e) \<le> 15)"

lemma depths_ok_process: "depths_ok s \<Longrightarrow> depths_ok (snd (snd (process_loop q s)))"
proof (induction q arbitrary: s)
  case Nil
  then show ?case by (simp add: depths_ok_def)
next
  case (Cons i q)
  show ?case
  proof (cases "map_of (es_events s) i")
    case None
    with Cons show ?thesis by simp
  next
    case (Some e)
    obtain cs ok where c: "call_handlers e (es_handlers s) = (cs, ok)"
      by (cases "call_handlers e (es_handlers s)")
    have "depths_ok (mark_processed i e s)"
      using Cons.prems Some by (auto simp: depths_ok_def mark_processed_def)
    with Cons.IH [of "mark_processed i e s"] Cons.prems show ?thesis
      unfolding process_loop_Cons [OF Some c] by (auto simp: case_prod_beta Let_def depths_ok_def)
  qed
qed

lemma depths_ok_step:
  assumes "depths_ok s" and "zero_depth c"
  shows "depths_ok (es_step s c)"
proof (cases c)
  case (RaiseEvent ty row parent now junk)
  with assms show ?thesis
    by (auto simp: depths_ok_def raise_event_def Let_def enqueue_event_def fresh_event_def parent_of_def
        MAX_EVENT_DEPTH_def word_less_nat_alt split: option.splits if_splits)
next
  case (RegisterHandler ty f)
  with assms show ?thesis by (simp add: depths_ok_def register_handler_def Let_def)
next
  case ProcessEvents
  with assms show ?thesis by (simp add: process_events_def depths_ok_process)
qed

lemma es_run_depths: "list_all zero_depth cs \<Longrightarrow> depths_ok (es_run cs)"
proof (induction cs rule: rev_induct)
  case Nil
  then show ?case by (simp add: depths_ok_def event_system_new_def)
next
  case (snoc c cs)
  then show ?case by (simp add: run_steps_append depths_ok_step)
qed

section \<open>Delivery\<close>

text \<open>The handlers registered by a history, numbered from 1 in the order of registration.\<close>

fun registered :: "es_call list \<Rightarrow> (event_type \<times> (event \<Rightarrow> bool option)) list" where
  "registered [] = []"
| "registered (RegisterHandler ty f # cs) = (ty, f) # registered cs"
| "registered (_ # cs) = registered cs"

definition numbered ::
  "(event_type \<times> (event \<Rightarrow> bool option)) list \<Rightarrow> (u64, event_handler) omap" where
  "numbered rs = map (\<lambda>(n, ty, f). (word_of_nat (Suc n),
     \<lparr>eh_handler_id = word_of_nat (Suc n), eh_event_type = ty, eh_handler_func = f\<rparr>))
     (enumerate 0 rs)"

definition calls_for :: "event \<Rightarrow> (u64, event_handler) omap \<Rightarrow> handler_call list" where
  "calls_for e hs = map (\<lambda>(i, h). (i, e)) (filter (\<lambda>(i, h). eh_event_type h = ev_event_type e) hs)"

fun never_throws :: "es_call \<Rightarrow> bool" where
  "never_throws (RegisterHandler _ f) \<longleftrightarrow> (\<forall>e. f e \<noteq> None)"
| "never_throws _ \<longleftrightarrow> True"

definition quiet :: "event_system \<Rightarrow> bool" where
  "quiet s \<longleftrightarrow> (\<forall>(i, h) \<in> set (es_handlers s). \<forall>e. eh_handler_func h e \<noteq> None)"

lemma registered_append [simp]: "registered (cs @ ds) = registered cs @ registered ds"
  by (induction cs rule: registered.induct) auto

lemma process_keeps_handlers [simp]: "es_handlers (snd (snd (process_loop q s))) = es_handlers s"
proof (induction q arbitrary: s)
  case (Cons i q)
  then show ?case
    by (simp add: mark_processed_def case_prod_beta Let_def split: option.splits bool.splits prod.splits)
qed simp

lemma raise_keeps_handlers [simp]:
  "es_handlers (snd (raise_event ty row parent now junk s)) = es_handlers s"
  by (auto simp: raise_event_def Let_def enqueue_event_def split: option.splits)

lemma es_run_handlers:
  "length (registered cs) < 2 ^ 64 \<Longrightarrow> es_handlers (es_run cs) = numbered (registered cs)"
proof (induction cs rule: rev_induct)
  case Nil
  then show ?case by (simp add: event_system_new_def numbered_def)
next
  case (snoc c cs)
  show ?case
  proof (cases c)
    case (RegisterHandler ty f)
    let ?n = "length (registered cs)"
    from snoc RegisterHandler have hs: "es_handlers (es_run cs) = numbered (registered cs)"
      and n: "Suc ?n < 2 ^ 64" by simp_all
    have len: "length (numbered (registered cs)) = ?n" by (simp add: numbered_def)
    have "k < word_of_nat (Suc ?n)" if "k \<in> fst ` set (numbered (registered cs))" for k
    proof -
      from that obtain m where "m < ?n" "k = word_of_nat (Suc m)"
        by (auto simp: numbered_def in_set_enumerate_eq)
      with n show ?thesis by (simp add: word_less_nat_alt unat_of_nat del: of_nat_Suc)
    qed
    then have "omap_insert (word_of_nat (Suc ?n)) h (numbered (registered cs)) =
        numbered (registered cs) @ [(word_of_nat (Suc ?n), h)]" for h
      by (intro omap_insert_last) blast
    then show ?thesis using RegisterHandler hs
      by (simp add: run_steps_append register_handler_def Let_def len add.commute [of _ 1])
        (simp add: numbered_def enumerate_append_eq add.commute [of _ 1])
  qed (use snoc in \<open>simp_all add: run_steps_append process_events_def\<close>)
qed

lemma call_handlers_quiet:
  "\<forall>(i, h) \<in> set hs. \<forall>e. eh_handler_func h e \<noteq> None \<Longrightarrow> call_handlers e hs = (calls_for e hs, True)"
proof (induction hs)
  case (Cons a hs)
  obtain i h where a: "a = (i, h)" by (cases a)
  with Cons.prems have "\<forall>e. eh_handler_func h e \<noteq> None" by simp
  then obtain b where "eh_handler_func h e = Some b" by blast
  with Cons a show ?case by (simp add: calls_for_def)
qed (simp add: calls_for_def)

lemma process_loop_quiet:
  assumes "quiet s" and "omap_ok (es_events s)" and "distinct q" and "set q \<subseteq> event_ids (es_events s)"
  shows "process_loop q s =
    (Some True, concat (map (\<lambda>i. calls_for (the (map_of (es_events s) i)) (es_handlers s)) q),
     s\<lparr>es_events := map (\<lambda>(i, e). (i, if i \<in> set q then e\<lparr>ev_processed := True\<rparr> else e)) (es_events s),
       es_event_queue := []\<rparr>)"
  using assms
proof (induction q arbitrary: s)
  case Nil
  have "map (\<lambda>(i, e). (i, if i \<in> {} then e\<lparr>ev_processed := True\<rparr> else e)) evs = evs"
    for evs :: "(u64, event) omap" by (rule map_idI) auto
  then show ?case by simp
next
  case (Cons i q)
  from Cons.prems obtain e where e: "map_of (es_events s) i = Some e"
    by (auto simp: map_of_event_ids)
  let ?s = "mark_processed i e s"
  have evs: "es_events ?s = map (\<lambda>(j, d). (j, if j = i then e\<lparr>ev_processed := True\<rparr> else d)) (es_events s)"
    using Cons.prems e by (simp add: mark_processed_def omap_insert_update)
  have "quiet ?s" "omap_ok (es_events ?s)" "set q \<subseteq> event_ids (es_events ?s)"
    using Cons.prems by (auto simp: quiet_def mark_processed_def)
  note IH = Cons.IH [OF this(1,2) _ this(3)]
  have calls: "call_handlers e (es_handlers s) = (calls_for e (es_handlers s), True)"
    using Cons.prems(1) by (intro call_handlers_quiet) (simp add: quiet_def)
  have same: "map_of (es_events ?s) j = map_of (es_events s) j" if "j \<in> set q" for j
    using that Cons.prems(3) by (auto simp: mark_processed_def)
  have dist: "d = e" if "(i, d) \<in> set (es_events s)" for d
    using that e omap_ok_distinct [OF Cons.prems(2)] by (simp add: map_of_eq_Some_iff)
  have upd: "map (\<lambda>(j, d). (j, if j \<in> set q then d\<lparr>ev_processed := True\<rparr> else d)) (es_events ?s) =
      map (\<lambda>(j, d). (j, if j \<in> set (i # q) then d\<lparr>ev_processed := True\<rparr> else d)) (es_events s)"
    using Cons.prems(3) dist by (auto simp: evs)
  have map: "map (\<lambda>j. calls_for (the (map_of (es_events ?s) j)) (es_handlers ?s)) q =
      map (\<lambda>j. calls_for (the (map_of (es_events s) j)) (es_handlers s)) q"
    by (rule map_cong) (simp_all add: same, simp add: mark_processed_def)
  from Cons.prems(3) have "distinct q" by simp
  from IH [OF this] show ?case
    unfolding process_loop_Cons [OF e calls] upd map by (simp add: e mark_processed_def)
qed

text \<open>While no handler throws, the queue holds exactly the events that are not processed yet.\<close>

definition pending_ok :: "event_system \<Rightarrow> bool" where
  "pending_ok s \<longleftrightarrow> (\<forall>i e. map_of (es_events s) i = Some e \<longrightarrow> (ev_processed e \<longleftrightarrow> i \<notin> set (es_event_queue s)))"

definition pending_events :: "event_system \<Rightarrow> event list" where
  "pending_events s = filter (\<lambda>e. \<not> ev_processed e) (map snd (es_events s))"

lemma pending_ok_raise:
  assumes "events_ok s" and "pending_ok s"
  shows "pending_ok (snd (raise_event ty row parent now junk s))"
proof -
  have "es_next_event_id s \<notin> set (es_event_queue s)" "map_of (es_events s) (es_next_event_id s) = None"
    using queued_known [OF assms(1)] next_id_fresh [OF assms(1)] by auto
  with assms(2) show ?thesis
    by (auto simp: pending_ok_def raise_event_def Let_def enqueue_event_def fresh_event_def parent_of_def
        split: option.splits if_splits)
qed

lemma queue_pending:
  assumes "events_ok s" and "pending_ok s"
  shows "map (\<lambda>i. the (map_of (es_events s) i)) (es_event_queue s) = pending_events s"
proof -
  let ?p = "filter (\<lambda>(i, e). \<not> ev_processed e) (es_events s)"
  have ok: "omap_ok (es_events s)" using assms(1) by (simp add: events_ok_def)
  note dist = omap_ok_distinct [OF ok]
  have "set (es_event_queue s) = set (map fst ?p)"
  proof (intro equalityI subsetI)
    fix i
    assume i: "i \<in> set (es_event_queue s)"
    with assms(1) obtain e where "map_of (es_events s) i = Some e"
      using queued_known by blast
    with i assms(2) show "i \<in> set (map fst ?p)"
      by (force simp: pending_ok_def dest: map_of_SomeD)
  next
    fix i
    assume "i \<in> set (map fst ?p)"
    then obtain e where "(i, e) \<in> set (es_events s)" "\<not> ev_processed e" by auto
    with dist assms(2) show "i \<in> set (es_event_queue s)"
      by (auto simp: pending_ok_def)
  qed
  moreover have "sorted_wrt (<) (map fst ?p)"
    using ok unfolding omap_ok_def by (simp add: sorted_wrt_map sorted_wrt_filter)
  moreover have "sorted_wrt (<) (es_event_queue s)" using assms(1) by (simp add: events_ok_def)
  ultimately have "es_event_queue s = map fst ?p"
    by (intro sorted_distinct_set_unique) (auto simp: strict_sorted_iff)
  moreover have "map (\<lambda>i. the (map_of (es_events s) i)) (map fst ?p) = map snd ?p"
    using dist by auto
  ultimately show ?thesis
    by (simp add: pending_events_def filter_map case_prod_unfold comp_def)
qed

lemma quiet_numbered:
  assumes "\<forall>(ty, f) \<in> set rs. \<forall>e. f e \<noteq> None" and "es_handlers s = numbered rs"
  shows "quiet s"
proof -
  have "(ty, f) \<in> set rs" if "(n, ty, f) \<in> set (enumerate 0 rs)" for n ty f
    using that by (auto simp: in_set_enumerate_eq) (metis nth_mem)
  with assms show ?thesis by (fastforce simp: quiet_def numbered_def)
qed

lemma registered_quiet: "list_all never_throws cs \<Longrightarrow> \<forall>(ty, f) \<in> set (registered cs). \<forall>e. f e \<noteq> None"
  by (induction cs rule: registered.induct) auto

lemma process_pending:
  assumes "events_ok s" and "pending_ok s" and "quiet s"
  shows "process_events s =
    (Some True, concat (map (\<lambda>e. calls_for e (es_handlers s)) (pending_events s)),
     s\<lparr>es_events := map (\<lambda>(i, e). (i, e\<lparr>ev_processed := True\<rparr>)) (es_events s), es_event_queue := []\<rparr>)"
proof -
  have q: "omap_ok (es_events s)" "distinct (es_event_queue s)"
      "set (es_event_queue s) \<subseteq> event_ids (es_events s)"
    using assms(1) by (auto simp: events_ok_def strict_sorted_iff)
  have "(if i \<in> set (es_event_queue s) then e\<lparr>ev_processed := True\<rparr> else e) = e\<lparr>ev_processed := True\<rparr>"
    if "(i, e) \<in> set (es_events s)" for i e
    using that assms(2) omap_ok_distinct [OF q(1)] by (auto simp: pending_ok_def)
  then have evs: "map (\<lambda>(i, e). (i, if i \<in> set (es_event_queue s) then e\<lparr>ev_processed := True\<rparr> else e)) (es_events s)
      = map (\<lambda>(i, e). (i, e\<lparr>ev_processed := True\<rparr>)) (es_events s)" by auto
  have calls: "map (\<lambda>i. calls_for (the (map_of (es_events s) i)) (es_handlers s)) (es_event_queue s) =
      map (\<lambda>e. calls_for e (es_handlers s)) (pending_events s)"
    unfolding queue_pending [OF assms(1,2), symmetric] by simp
  show ?thesis
    unfolding process_events_def process_loop_quiet [OF assms(3) q] evs calls ..
qed

lemma es_run_pending:
  "length cs < 2 ^ 64 - 1 \<Longrightarrow> list_all never_throws cs \<Longrightarrow>
   events_ok (es_run cs) \<and> pending_ok (es_run cs) \<and> es_handlers (es_run cs) = numbered (registered cs)
   \<and> quiet (es_run cs)"
proof (induction cs rule: rev_induct)
  case Nil
  then show ?case
    by (simp add: event_system_new_def events_ok_def pending_ok_def numbered_def quiet_def)
next
  case (snoc c cs)
  then have IH: "events_ok (es_run cs)" "pending_ok (es_run cs)" "quiet (es_run cs)" by simp_all
  have "length (filter is_raise (cs @ [c])) \<le> length (cs @ [c])" by (rule length_filter_le)
  moreover have "length (registered cs) \<le> length cs" for cs
    by (induction cs rule: registered.induct) auto
  from this [of "cs @ [c]"] have "length (registered (cs @ [c])) \<le> length (cs @ [c])" .
  ultimately have ok: "events_ok (es_run (cs @ [c]))"
      and hs: "es_handlers (es_run (cs @ [c])) = numbered (registered (cs @ [c]))"
    using es_run_ok [of "cs @ [c]"] es_run_handlers [of "cs @ [c]"] snoc.prems by simp_all
  have "pending_ok (es_run (cs @ [c]))"
  proof (cases c)
    case (RaiseEvent ty row parent now junk)
    with IH show ?thesis by (simp add: run_steps_append pending_ok_raise)
  next
    case (RegisterHandler ty f)
    with IH show ?thesis by (simp add: run_steps_append register_handler_def Let_def pending_ok_def)
  next
    case ProcessEvents
    with IH show ?thesis
      by (auto simp: run_steps_append process_pending pending_ok_def map_of_map)
  qed
  moreover have "quiet (es_run (cs @ [c]))"
    using registered_quiet [OF snoc.prems(2)] hs by (rule quiet_numbered)
  ultimately show ?case using ok hs by simp
qed

section \<open>Properties\<close>

text \<open>
  C35. Cascades are bounded. Whatever the uninitialised depths of root events are, no chain of
  parents and children of a reachable state has more than 16 links; with zero depths, as
  intended, it has at most 15, and every stored depth is at most 15. (Fewer than \<open>2 ^ 64 - 1\<close>
  events have been raised, so that the ids have not wrapped around.)
\<close>

theorem cascade_bounded:
  assumes "Suc (length (filter is_raise cs)) < 2 ^ 64"
  shows "(\<forall>i j n. (i, j) \<in> child_rel (es_events (es_run cs)) ^^ n \<longrightarrow> n \<le> 16) \<and>
    (list_all zero_depth cs \<longrightarrow>
       (\<forall>i j n. (i, j) \<in> child_rel (es_events (es_run cs)) ^^ n \<longrightarrow> n \<le> 15) \<and>
       (\<forall>i e. map_of (es_events (es_run cs)) i = Some e \<longrightarrow> ev_depth e \<le> MAX_EVENT_DEPTH))"
proof -
  let ?s = "es_run cs"
  have ok: "events_ok ?s" using es_run_ok [OF assms] by simp
  have "n \<le> 15" if "list_all zero_depth cs" and "(i, j) \<in> child_rel (es_events ?s) ^^ n" for i j n
  proof (cases n)
    case (Suc m)
    with that(2) obtain k where "(i, k) \<in> child_rel (es_events ?s)" by (metis relpow_Suc_D2)
    from child_rel_ok [OF ok this] obtain e where e: "map_of (es_events ?s) i = Some e" by blast
    with es_run_depths [OF that(1)] have "unat (ev_depth e) \<le> 15" by (simp add: depths_ok_def)
    from chain_depth [OF ok e this that(2)] show ?thesis by auto
  qed simp
  moreover have "ev_depth e \<le> MAX_EVENT_DEPTH"
    if "list_all zero_depth cs" and "map_of (es_events ?s) i = Some e" for i e
    using es_run_depths [OF that(1)] that(2) by (simp add: depths_ok_def MAX_EVENT_DEPTH_def word_le_nat_alt)
  ultimately show ?thesis using chain_length [OF ok] by blast
qed

theorem cascade_bounded_witness:
  "(\<lambda>e. ev_depth e \<le> MAX_EVENT_DEPTH) (the (map_of (es_events (es_run
     [RaiseEvent INSERT_EVENT 7 0 0 0, RaiseEvent UPDATE_EVENT 7 1 1 0])) 2))"
  using cascade_bounded [of "[RaiseEvent INSERT_EVENT 7 0 0 0, RaiseEvent UPDATE_EVENT 7 1 1 0]"]
  by (simp add: event_system_new_def raise_event_def Let_def enqueue_event_def fresh_event_def
      parent_of_def MAX_EVENT_DEPTH_def)

text \<open>
  The search for cycles. On any event table the recursion is at most one deeper than the
  table has events, so it returns; started with an empty visited set, it answers whether a
  cycle of parents and children is reachable from the event. In a reachable state there is none: it
  answers no for every event and leaves the visited set empty.
\<close>

theorem cycle_detection:
  assumes "Suc (length (filter is_raise cs)) < 2 ^ 64"
  shows "(\<forall>evs n i. Suc (length evs) < n \<longrightarrow>
      (\<exists>b v. detect_cycle n evs i {} = Some (b, v) \<and>
        b = (\<exists>x. (i, x) \<in> (child_rel evs)\<^sup>* \<and> (x, x) \<in> (child_rel evs)\<^sup>+))) \<and>
    (\<forall>n i. Suc (length (es_events (es_run cs))) < n \<longrightarrow>
      detect_cycle n (es_events (es_run cs)) i {} = Some (False, {}))"
proof (intro conjI allI impI)
  fix n i
  let ?evs = "es_events (es_run cs)"
  assume "Suc (length ?evs) < n"
  from detect_cycle_iff [OF this] obtain b v where r: "detect_cycle n ?evs i {} = Some (b, v)"
      "b = (\<exists>x. (i, x) \<in> (child_rel ?evs)\<^sup>* \<and> (x, x) \<in> (child_rel ?evs)\<^sup>+)" by blast
  have "(x, x) \<notin> (child_rel ?evs)\<^sup>+" for x
    using child_rel_increasing es_run_ok [OF assms] by blast
  with r have "detect_cycle n ?evs i {} = Some (False, v)" by simp
  with detect_cycle_restores [OF this] show "detect_cycle n ?evs i {} = Some (False, {})" by simp
qed (rule detect_cycle_iff)

theorem cycle_detection_witness:
  "detect_cycle 9 (es_events (es_run [RaiseEvent INSERT_EVENT 7 0 0 0])) 1 {} = Some (False, {})"
  using cycle_detection [of "[RaiseEvent INSERT_EVENT 7 0 0 0]"]
  by (simp add: event_system_new_def raise_event_def Let_def enqueue_event_def fresh_event_def parent_of_def)

text \<open>
  C34. Delivery. In every history of calls whose handlers do not throw, \<open>process_events\<close> hands
  every event not processed yet, in the order the events were raised, to every handler registered
  for its type, in the order of registration, once; afterwards every event is marked as processed and
  the queue is empty.
\<close>

theorem events_delivered:
  assumes "length cs < 2 ^ 64 - 1" and "list_all never_throws cs"
  shows "process_events (es_run cs) =
    (Some True,
     concat (map (\<lambda>e. calls_for e (numbered (registered cs))) (pending_events (es_run cs))),
     (es_run cs)\<lparr>es_events := map (\<lambda>(i, e). (i, e\<lparr>ev_processed := True\<rparr>)) (es_events (es_run cs)),
       es_event_queue := []\<rparr>) \<and>
    sorted_wrt (<) (map ev_event_id (pending_events (es_run cs)))"
proof -
  let ?s = "es_run cs"
  from es_run_pending [OF assms] have r: "events_ok ?s" "pending_ok ?s" "quiet ?s"
      "es_handlers ?s = numbered (registered cs)" by simp_all
  have "map ev_event_id (pending_events ?s) = es_event_queue ?s"
    unfolding queue_pending [OF r(1,2), symmetric]
    using queued_known [OF r(1)] event_okD [OF r(1)] by (auto simp: event_ok_def intro!: map_idI)
  moreover have "sorted_wrt (<) (es_event_queue ?s)" using r(1) by (simp add: events_ok_def)
  ultimately show ?thesis using process_pending [OF r(1-3)] r(4) by simp
qed

theorem events_delivered_witness:
  "fst (process_events (es_run
     [RegisterHandler INSERT_EVENT (\<lambda>e. Some True), RaiseEvent INSERT_EVENT 7 0 0 0])) = Some True"
  using events_delivered
    [of "[RegisterHandler INSERT_EVENT (\<lambda>e. Some True), RaiseEvent INSERT_EVENT 7 0 0 0]"]
  by simp

section \<open>What the uninitialised depth and a throwing handler do\<close>

text \<open>Whether a child of a root event is accepted depends on the uninitialised depth of the root.\<close>

lemma cascade_depends_on_junk:
  "fst (raise_event UPDATE_EVENT row 1 now' junk' (es_run [RaiseEvent INSERT_EVENT row 0 now junk])) =
     (if junk + 1 \<le> 15 then 2 else 0)"
  by (auto simp: event_system_new_def raise_event_def Let_def enqueue_event_def fresh_event_def
      parent_of_def MAX_EVENT_DEPTH_def)

text \<open>An event whose handler throws leaves the queue and is never marked as processed.\<close>

lemma thrown_event_lost:
  assumes "map_of (es_events s) i = Some e" and "es_event_queue s = i # q"
    and "snd (call_handlers e (es_handlers s)) = False"
  shows "let s' = snd (snd (process_events s)) in
    es_event_queue s' = q \<and> map_of (es_events s') i = Some e \<and> fst (process_events s) = None"
  using assms by (cases "call_handlers e (es_handlers s)") (simp add: process_events_def)

end
