(* ===== verification/Event_Reentry.thy ===== *)
theory Event_Reentry
  imports Event_System
begin

text \<open>
  Handlers that call the event system (\<open>src/advanced_features.cpp\<close>).

  \<open>process_events\<close> holds \<open>event_mutex_\<close> from its start to its end and calls the handlers in between.
  \<open>raise_event\<close>, \<open>register_handler\<close> and \<open>process_events\<close> lock the same mutex; \<open>detect_cycle\<close> and the two
  counters do not. \<open>acts h e\<close> lists the calls that handler \<open>h\<close> makes on event \<open>e\<close> before it returns or
  throws. Its first call that locks the mutex asks for a lock its own thread holds, and the call of
  \<open>process_events\<close> ends there: it never returns, or fails in whatever way the platform treats such a
  request.
\<close>

section \<open>The code\<close>

datatype handler_action =
    Act_raise event_type u64 u64
  | Act_register event_type
  | Act_process
  | Act_detect u64
  | Act_counts

fun takes_lock :: "handler_action \<Rightarrow> bool" where
  "takes_lock (Act_raise ty row parent) = True"
| "takes_lock (Act_register ty) = True"
| "takes_lock Act_process = True"
| "takes_lock (Act_detect i) = False"
| "takes_lock Act_counts = False"

datatype process_end = Returned bool | Exception | Self_lock

fun call_handlers_in ::
  "(u64 \<Rightarrow> event \<Rightarrow> handler_action list) \<Rightarrow> event \<Rightarrow> (u64, event_handler) omap \<Rightarrow> handler_call list \<times> process_end" where
  "call_handlers_in acts e [] = ([], Returned True)"
| "call_handlers_in acts e ((i, h) # hs) =
     (if eh_event_type h = ev_event_type e then
        (if list_ex takes_lock (acts i e) then ([(i, e)], Self_lock)
         else case eh_handler_func h e of
           None \<Rightarrow> ([(i, e)], Exception)
         | Some _ \<Rightarrow> (let (cs, r) = call_handlers_in acts e hs in ((i, e) # cs, r)))
      else call_handlers_in acts e hs)"

fun process_loop_in ::
  "(u64 \<Rightarrow> event \<Rightarrow> handler_action list) \<Rightarrow> u64 list \<Rightarrow> event_system \<Rightarrow> process_end \<times> handler_call list \<times> event_system" where
  "process_loop_in acts [] s = (Returned True, [], s\<lparr>es_event_queue := []\<rparr>)"
| "process_loop_in acts (i # q) s =
     (case map_of (es_events s) i of
        None \<Rightarrow> process_loop_in acts q s
      | Some e \<Rightarrow>
          (case call_handlers_in acts e (es_handlers s) of
             (cs, Returned b) \<Rightarrow>
               (let (r, cs', s') = process_loop_in acts q (mark_processed i e s) in (r, cs @ cs', s'))
           | (cs, Exception) \<Rightarrow> (Exception, cs, s\<lparr>es_event_queue := q\<rparr>)
           | (cs, Self_lock) \<Rightarrow> (Self_lock, cs, s\<lparr>es_event_queue := q\<rparr>)))"

definition process_events_in ::
  "(u64 \<Rightarrow> event \<Rightarrow> handler_action list) \<Rightarrow> event_system \<Rightarrow> process_end \<times> handler_call list \<times> event_system" where
  "process_events_in acts s = process_loop_in acts (es_event_queue s) s"

section \<open>Handlers that keep out of the event system\<close>

definition quiet_acts :: "(u64 \<Rightarrow> event \<Rightarrow> handler_action list) \<Rightarrow> bool" where
  "quiet_acts acts \<longleftrightarrow> (\<forall>i e. \<not> list_ex takes_lock (acts i e))"

lemma call_handlers_in_quiet:
  assumes "quiet_acts acts"
  shows "call_handlers_in acts e hs =
    (case call_handlers e hs of (cs, ok) \<Rightarrow> (cs, if ok then Returned True else Exception))"
  using assms
proof (induction hs)
  case (Cons x hs)
  obtain i h where x: "x = (i, h)" by (cases x)
  have "\<not> list_ex takes_lock (acts i e)" using Cons.prems by (simp add: quiet_acts_def)
  with Cons x show ?case
    by (cases "call_handlers e hs"; cases "eh_event_type h = ev_event_type e"; cases "eh_handler_func h e") simp_all
qed simp

text \<open>With such handlers this is the function of the theory of the event system.\<close>

lemma process_in_quiet:
  assumes "quiet_acts acts"
  shows "process_events_in acts s =
    (case process_events s of (r, cs, s') \<Rightarrow>
       (case r of Some b \<Rightarrow> Returned b | None \<Rightarrow> Exception, cs, s'))"
proof -
  have "process_loop_in acts q s = (case process_loop q s of (r, cs, s') \<Rightarrow>
       (case r of Some b \<Rightarrow> Returned b | None \<Rightarrow> Exception, cs, s'))" for q
    by (induction q arbitrary: s)
      (auto simp: call_handlers_in_quiet [OF assms] Let_def split: option.splits prod.splits)
  then show ?thesis by (simp add: process_events_in_def process_events_def)
qed

section \<open>Handlers that do not\<close>

text \<open>
  \<open>process_events\<close> locks its own mutex exactly when one of the handlers it calls calls back; the calls
  before that one did not, it is the last call made, and no event raised by a handler ever
  reaches the queue.
\<close>

definition calls_back :: "(u64 \<Rightarrow> event \<Rightarrow> handler_action list) \<Rightarrow> handler_call \<Rightarrow> bool" where
  "calls_back acts c \<longleftrightarrow> list_ex takes_lock (acts (fst c) (snd c))"

lemma call_handlers_in_self:
  "call_handlers_in acts e hs = (cs, r) \<Longrightarrow>
     (r = Self_lock \<longleftrightarrow> list_ex (calls_back acts) cs) \<and>
     (r = Self_lock \<longrightarrow> cs \<noteq> [] \<and> calls_back acts (last cs))"
  by (induction hs arbitrary: cs) (auto simp: calls_back_def split: if_splits option.splits prod.splits)

lemma process_in_self:
  "process_loop_in acts q s = (r, cs, s') \<Longrightarrow>
     (r = Self_lock \<longleftrightarrow> list_ex (calls_back acts) cs) \<and>
     (r = Self_lock \<longrightarrow> cs \<noteq> [] \<and> calls_back acts (last cs)) \<and>
     set (es_event_queue s') \<subseteq> set q \<and> es_next_event_id s' = es_next_event_id s"
proof (induction q arbitrary: s r cs s')
  case (Cons i q)
  show ?case
  proof (cases "map_of (es_events s) i")
    case None
    with Cons.prems Cons.IH [of s r cs s'] show ?thesis by auto
  next
    case (Some e)
    obtain cs1 r1 where c: "call_handlers_in acts e (es_handlers s) = (cs1, r1)" by fastforce
    note self = call_handlers_in_self [OF c]
    show ?thesis
    proof (cases r1)
      case (Returned b)
      obtain cs2 where rest: "process_loop_in acts q (mark_processed i e s) = (r, cs2, s')" "cs = cs1 @ cs2"
        using Cons.prems Some c Returned by (auto split: prod.splits)
      from Cons.IH [OF rest(1)] self Returned rest(2) show ?thesis by (auto simp: mark_processed_def)
    qed (use Cons.prems Some c self in auto)
  qed
qed auto

lemma handlers_cannot_cascade:
  assumes "process_events_in acts s = (r, cs, s')"
  shows "(r = Self_lock \<longleftrightarrow> list_ex (calls_back acts) cs) \<and>
    set (es_event_queue s') \<subseteq> set (es_event_queue s) \<and> es_next_event_id s' = es_next_event_id s"
  using process_in_self [OF assms [unfolded process_events_in_def]] by blast

text \<open>The intended use: a handler of insertions that raises an update event for the row.\<close>

lemma cascade_self_locks:
  "fst (process_events_in (\<lambda>i e. [Act_raise UPDATE_EVENT (ev_source_row_id e) (ev_event_id e)])
     (es_run [RegisterHandler INSERT_EVENT (\<lambda>_. Some True), RaiseEvent INSERT_EVENT 7 0 0 0])) = Self_lock"
  by (simp add: process_events_in_def event_system_new_def register_handler_def raise_event_def Let_def
      parent_of_def enqueue_event_def fresh_event_def)

end
