(* ===== verification/Intent_Table.thy ===== *)
theory Intent_Table
  imports Dbx4_Prelude
begin

text \<open>
  Declared-intent tables of \<open>src/advanced_features.cpp\<close> (class \<open>DeclaredIntentTable\<close>): a table
  with a bit set of intents keeps an audit trail of its insertions and an approval state per
  row. The clock is an argument of the operations.
\<close>

unbundle bit_operations_syntax

section \<open>The code\<close>

definition TRACEABLE :: u8 where "TRACEABLE = 1"
definition APPROVAL_GATED :: u8 where "APPROVAL_GATED = 2"
definition EVENT_MANAGED :: u8 where "EVENT_MANAGED = 4"

record audit_trail =
  at_row_id :: u64
  at_timestamp :: u64
  at_performer_id :: u32
  at_operation_type :: u8
  at_before_image :: bytes
  at_after_image :: bytes
  at_performer_name :: string

record approval_state =
  as_row_id :: u64
  as_approval_level :: u8
  as_approvers :: "u32 list"
  as_approval_timestamps :: "u64 list"
  as_is_approved :: bool

record intent_table =
  it_table_name :: string
  it_intents :: u8
  it_audit_log :: "audit_trail list"
  it_approval_states :: "u64 \<Rightarrow> approval_state option"
  it_total_operations :: u64

definition intent_table_new :: "string \<Rightarrow> u8 \<Rightarrow> intent_table" where
  "intent_table_new name intents = \<lparr>it_table_name = name, it_intents = intents, it_audit_log = [],
     it_approval_states = Map.empty, it_total_operations = 0\<rparr>"

definition has_intent :: "u8 \<Rightarrow> intent_table \<Rightarrow> bool" where
  "has_intent flag t \<longleftrightarrow> it_intents t AND flag \<noteq> 0"

definition insert_trail :: "u64 \<Rightarrow> bytes \<Rightarrow> u32 \<Rightarrow> u64 \<Rightarrow> audit_trail" where
  "insert_trail row data performer now = \<lparr>at_row_id = row, at_timestamp = now,
     at_performer_id = performer, at_operation_type = 1, at_before_image = [],
     at_after_image = data, at_performer_name = []\<rparr>"

definition new_approval :: "u64 \<Rightarrow> approval_state" where
  "new_approval row = \<lparr>as_row_id = row, as_approval_level = 0, as_approvers = [],
     as_approval_timestamps = [], as_is_approved = False\<rparr>"

definition insert_with_intent ::
  "u64 \<Rightarrow> bytes \<Rightarrow> u32 \<Rightarrow> u64 \<Rightarrow> intent_table \<Rightarrow> bool \<times> intent_table" where
  "insert_with_intent row data performer now t0 =
     (let t1 = t0\<lparr>it_total_operations := it_total_operations t0 + 1\<rparr>;
          t2 = (if has_intent TRACEABLE t1
                then t1\<lparr>it_audit_log := it_audit_log t1 @ [insert_trail row data performer now]\<rparr>
                else t1);
          t3 = (if has_intent APPROVAL_GATED t2
                then t2\<lparr>it_approval_states := (it_approval_states t2)(row \<mapsto> new_approval row)\<rparr>
                else t2)
      in (True, t3))"

definition add_approval :: "u32 \<Rightarrow> u8 \<Rightarrow> u64 \<Rightarrow> approval_state \<Rightarrow> approval_state" where
  "add_approval approver level now a =
     a\<lparr>as_approval_level := max (as_approval_level a) level,
       as_approvers := as_approvers a @ [approver],
       as_approval_timestamps := as_approval_timestamps a @ [now],
       as_is_approved := (if 3 \<le> level then True else as_is_approved a)\<rparr>"

definition approve_row ::
  "u64 \<Rightarrow> u32 \<Rightarrow> u8 \<Rightarrow> u64 \<Rightarrow> intent_table \<Rightarrow> bool \<times> intent_table" where
  "approve_row row approver level now t =
     (case it_approval_states t row of
        None \<Rightarrow> (False, t)
      | Some a \<Rightarrow> (True, t\<lparr>it_approval_states :=
          (it_approval_states t)(row \<mapsto> add_approval approver level now a)\<rparr>))"

definition get_audit_trail :: "intent_table \<Rightarrow> audit_trail list" where
  "get_audit_trail t = it_audit_log t"

definition get_operation_count :: "intent_table \<Rightarrow> u64" where
  "get_operation_count t = it_total_operations t"

section \<open>Histories\<close>

datatype it_call =
    It_Insert u64 bytes u32 u64
  | It_Approve u64 u32 u8 u64

fun it_step :: "intent_table \<Rightarrow> it_call \<Rightarrow> intent_table" where
  "it_step t (It_Insert row data performer now) = snd (insert_with_intent row data performer now t)"
| "it_step t (It_Approve row approver level now) = snd (approve_row row approver level now t)"

abbreviation it_run :: "string \<Rightarrow> u8 \<Rightarrow> it_call list \<Rightarrow> intent_table" where
  "it_run name intents cs \<equiv> run_steps it_step (intent_table_new name intents) cs"

text \<open>What a history means: its insertions, and the approvals of a row since its last insertion.\<close>

fun trail_of :: "it_call \<Rightarrow> audit_trail list" where
  "trail_of (It_Insert row data performer now) = [insert_trail row data performer now]"
| "trail_of (It_Approve _ _ _ _) = []"

fun is_insert :: "it_call \<Rightarrow> bool" where
  "is_insert (It_Insert _ _ _ _) = True"
| "is_insert _ = False"

fun approvals_step ::
  "u64 \<Rightarrow> (u32 \<times> u8 \<times> u64) list option \<Rightarrow> it_call \<Rightarrow> (u32 \<times> u8 \<times> u64) list option" where
  "approvals_step r h (It_Insert row _ _ _) = (if row = r then Some [] else h)"
| "approvals_step r h (It_Approve row approver level now) =
     (if row = r then map_option (\<lambda>as. as @ [(approver, level, now)]) h else h)"

definition approvals :: "u64 \<Rightarrow> it_call list \<Rightarrow> (u32 \<times> u8 \<times> u64) list option" where
  "approvals r cs = foldl (approvals_step r) None cs"

definition state_of :: "u64 \<Rightarrow> (u32 \<times> u8 \<times> u64) list \<Rightarrow> approval_state" where
  "state_of r h = \<lparr>as_row_id = r, as_approval_level = foldl (\<lambda>m (_, l, _). max m l) 0 h,
     as_approvers = map fst h, as_approval_timestamps = map (snd \<circ> snd) h,
     as_is_approved = list_ex (\<lambda>(_, l, _). 3 \<le> l) h\<rparr>"

lemma state_of_add: "add_approval a l now (state_of r h) = state_of r (h @ [(a, l, now)])"
  by (auto simp: add_approval_def state_of_def)

lemma state_of_new: "new_approval r = state_of r []"
  by (simp add: new_approval_def state_of_def)

lemma approvals_snoc [simp]: "approvals r (cs @ [c]) = approvals_step r (approvals r cs) c"
  by (simp add: approvals_def)

lemma it_run_intents [simp]: "it_intents (it_run name intents cs) = intents"
proof (induction cs rule: rev_induct)
  case (snoc c cs)
  then show ?case
    by (cases c) (auto simp: run_steps_append insert_with_intent_def approve_row_def Let_def split: option.splits)
qed (simp add: intent_table_new_def)

lemma it_run_state:
  "it_approval_states (it_run name intents cs) r =
     (if intents AND APPROVAL_GATED \<noteq> 0 then map_option (state_of r) (approvals r cs) else None)"
proof (induction cs arbitrary: r rule: rev_induct)
  case Nil
  then show ?case by (simp add: intent_table_new_def approvals_def)
next
  case (snoc c cs)
  then show ?case
    by (cases c)
      (auto simp: run_steps_append insert_with_intent_def approve_row_def has_intent_def Let_def
        state_of_new state_of_add split: option.splits)
qed

lemma it_run_log:
  "it_audit_log (it_run name intents cs) =
     (if intents AND TRACEABLE \<noteq> 0 then concat (map trail_of cs) else [])"
proof (induction cs rule: rev_induct)
  case Nil
  then show ?case by (simp add: intent_table_new_def)
next
  case (snoc c cs)
  then show ?case
    by (cases c)
      (auto simp: run_steps_append insert_with_intent_def approve_row_def has_intent_def Let_def
        split: option.splits)
qed

lemma it_run_total:
  "it_total_operations (it_run name intents cs) = word_of_nat (length (filter is_insert cs))"
proof (induction cs rule: rev_induct)
  case Nil
  then show ?case by (simp add: intent_table_new_def)
next
  case (snoc c cs)
  then show ?case
    by (cases c)
      (auto simp: run_steps_append insert_with_intent_def approve_row_def Let_def split: option.splits)
qed

section \<open>Properties\<close>

text \<open>
  C36. Audit and approval. After any history of calls, the audit trail of a traceable table lists
  all its insertions in order; the approval state of a row of a gated table records
  exactly the approvals since the last insertion of the row, and the row is approved iff one of
  them has level 3 or more; an approval is refused iff the table is not gated or the row was
  never inserted; other tables keep neither. The operation count is that of the insertions.
\<close>

theorem intent_history:
  "get_audit_trail (it_run name intents cs) =
      (if intents AND TRACEABLE \<noteq> 0 then concat (map trail_of cs) else []) \<and>
   it_approval_states (it_run name intents cs) r =
      (if intents AND APPROVAL_GATED \<noteq> 0 then map_option (state_of r) (approvals r cs) else None) \<and>
   fst (approve_row r approver level now (it_run name intents cs)) =
      (intents AND APPROVAL_GATED \<noteq> 0 \<and> approvals r cs \<noteq> None) \<and>
   get_operation_count (it_run name intents cs) = word_of_nat (length (filter is_insert cs))"
  by (auto simp: get_audit_trail_def get_operation_count_def it_run_log it_run_total it_run_state
      approve_row_def split: option.splits)

text \<open>One approval of level 3 is enough, whoever gives it and whatever the levels before.\<close>

lemma director_alone_approves:
  assumes "intents AND APPROVAL_GATED \<noteq> 0" and "approvals r cs \<noteq> None" and "3 \<le> level"
  shows "map_option as_is_approved
    (it_approval_states (it_run name intents (cs @ [It_Approve r approver level now])) r) = Some True"
  using assms by (auto simp: it_run_state state_of_def)

text \<open>The intent \<open>EVENT_MANAGED\<close> alone has no effect on any operation.\<close>

lemma event_managed_inert:
  "get_audit_trail (it_run name EVENT_MANAGED cs) = [] \<and>
   it_approval_states (it_run name EVENT_MANAGED cs) = Map.empty"
  by (auto simp: get_audit_trail_def it_run_log it_run_state EVENT_MANAGED_def TRACEABLE_def
      APPROVAL_GATED_def fun_eq_iff)

end
