(* ===== verification/Sql_Ast.thy ===== *)
theory Sql_Ast
  imports Dbx4_Prelude
begin

text \<open>
  The syntax trees that the query engine executes: token types (\<open>include/sql_lexer.h\<close>),
  expressions and statements (\<open>include/sql_parser.h\<close>), and the exceptions of
  \<open>include/dbx4_exceptions.h\<close> as error values with their messages. \<open>UB\<close> is undefined
  behaviour of the C++ program (signed overflow, an index out of range); it is not an
  exception and is never caught.
\<close>

section \<open>Tokens\<close>

text \<open>
  The 93 values of \<open>TokenType\<close>, in the order of the enumeration, cut into five groups; the name
  \<open>T_X\<close> stands for the enumerator \<open>X\<close>.
\<close>

datatype statement_keyword =
    KW_SELECT | KW_FROM | KW_WHERE | KW_INSERT | KW_INTO | KW_VALUES | KW_UPDATE | KW_SET |
    KW_DELETE | KW_CREATE | KW_TABLE | KW_DROP | KW_ALTER | KW_ADD | KW_MODIFY | KW_PRIMARY |
    KW_KEY | KW_NOT_KEYWORD | KW_NULL_KEYWORD | KW_UNIQUE | KW_FOREIGN | KW_REFERENCES |
    KW_DEFAULT | KW_CHECK | KW_CONSTRAINT

datatype clause_keyword =
    CW_AND | CW_OR | CW_NOT_OP | CW_IN | CW_BETWEEN | CW_LIKE | CW_IS | CW_ORDER | CW_BY |
    CW_GROUP | CW_HAVING | CW_LIMIT | CW_OFFSET | CW_DISTINCT | CW_INNER | CW_LEFT | CW_RIGHT
    | CW_FULL | CW_OUTER | CW_JOIN | CW_ON | CW_USING | CW_UNION | CW_INTERSECT | CW_EXCEPT |
    CW_CASE | CW_WHEN | CW_THEN | CW_ELSE | CW_END | CW_AS | CW_ASC | CW_DESC

datatype type_keyword =
    TY_INT | TY_BIGINT | TY_FLOAT | TY_DOUBLE | TY_DECIMAL | TY_VARCHAR | TY_CHAR | TY_BOOLEAN
    | TY_DATE | TY_TIMESTAMP | TY_TEXT | TY_BLOB

datatype operator_token =
    OP_EQUALS | OP_NOT_EQUALS | OP_LESS | OP_LESS_EQUAL | OP_GREATER | OP_GREATER_EQUAL |
    OP_PLUS | OP_MINUS | OP_MULTIPLY | OP_DIVIDE | OP_MODULO | OP_CONCAT

datatype other_token =
    OT_LPAREN | OT_RPAREN | OT_COMMA | OT_DOT | OT_SEMICOLON | OT_STAR | OT_NUMBER | OT_STRING
    | OT_IDENTIFIER | OT_EOF_TOKEN | OT_UNKNOWN

datatype token_type =
    Statement_Keyword statement_keyword | Clause_Keyword clause_keyword
  | Type_Keyword type_keyword | Operator_Token operator_token | Other_Token other_token

abbreviation "T_SELECT \<equiv> Statement_Keyword KW_SELECT"
abbreviation "T_FROM \<equiv> Statement_Keyword KW_FROM"
abbreviation "T_WHERE \<equiv> Statement_Keyword KW_WHERE"
abbreviation "T_INSERT \<equiv> Statement_Keyword KW_INSERT"
abbreviation "T_INTO \<equiv> Statement_Keyword KW_INTO"
abbreviation "T_VALUES \<equiv> Statement_Keyword KW_VALUES"
abbreviation "T_UPDATE \<equiv> Statement_Keyword KW_UPDATE"
abbreviation "T_SET \<equiv> Statement_Keyword KW_SET"
abbreviation "T_DELETE \<equiv> Statement_Keyword KW_DELETE"
abbreviation "T_CREATE \<equiv> Statement_Keyword KW_CREATE"
abbreviation "T_TABLE \<equiv> Statement_Keyword KW_TABLE"
abbreviation "T_DROP \<equiv> Statement_Keyword KW_DROP"
abbreviation "T_ALTER \<equiv> Statement_Keyword KW_ALTER"
abbreviation "T_ADD \<equiv> Statement_Keyword KW_ADD"
abbreviation "T_MODIFY \<equiv> Statement_Keyword KW_MODIFY"
abbreviation "T_PRIMARY \<equiv> Statement_Keyword KW_PRIMARY"
abbreviation "T_KEY \<equiv> Statement_Keyword KW_KEY"
abbreviation "T_NOT_KEYWORD \<equiv> Statement_Keyword KW_NOT_KEYWORD"
abbreviation "T_NULL_KEYWORD \<equiv> Statement_Keyword KW_NULL_KEYWORD"
abbreviation "T_UNIQUE \<equiv> Statement_Keyword KW_UNIQUE"
abbreviation "T_FOREIGN \<equiv> Statement_Keyword KW_FOREIGN"
abbreviation "T_REFERENCES \<equiv> Statement_Keyword KW_REFERENCES"
abbreviation "T_DEFAULT \<equiv> Statement_Keyword KW_DEFAULT"
abbreviation "T_CHECK \<equiv> Statement_Keyword KW_CHECK"
abbreviation "T_CONSTRAINT \<equiv> Statement_Keyword KW_CONSTRAINT"

abbreviation "T_AND \<equiv> Clause_Keyword CW_AND"
abbreviation "T_OR \<equiv> Clause_Keyword CW_OR"
abbreviation "T_NOT_OP \<equiv> Clause_Keyword CW_NOT_OP"
abbreviation "T_IN \<equiv> Clause_Keyword CW_IN"
abbreviation "T_BETWEEN \<equiv> Clause_Keyword CW_BETWEEN"
abbreviation "T_LIKE \<equiv> Clause_Keyword CW_LIKE"
abbreviation "T_IS \<equiv> Clause_Keyword CW_IS"
abbreviation "T_ORDER \<equiv> Clause_Keyword CW_ORDER"
abbreviation "T_BY \<equiv> Clause_Keyword CW_BY"
abbreviation "T_GROUP \<equiv> Clause_Keyword CW_GROUP"
abbreviation "T_HAVING \<equiv> Clause_Keyword CW_HAVING"
abbreviation "T_LIMIT \<equiv> Clause_Keyword CW_LIMIT"
abbreviation "T_OFFSET \<equiv> Clause_Keyword CW_OFFSET"
abbreviation "T_DISTINCT \<equiv> Clause_Keyword CW_DISTINCT"
abbreviation "T_INNER \<equiv> Clause_Keyword CW_INNER"
abbreviation "T_LEFT \<equiv> Clause_Keyword CW_LEFT"
abbreviation "T_RIGHT \<equiv> Clause_Keyword CW_RIGHT"
abbreviation "T_FULL \<equiv> Clause_Keyword CW_FULL"
abbreviation "T_OUTER \<equiv> Clause_Keyword CW_OUTER"
abbreviation "T_JOIN \<equiv> Clause_Keyword CW_JOIN"
abbreviation "T_ON \<equiv> Clause_Keyword CW_ON"
abbreviation "T_USING \<equiv> Clause_Keyword CW_USING"
abbreviation "T_UNION \<equiv> Clause_Keyword CW_UNION"
abbreviation "T_INTERSECT \<equiv> Clause_Keyword CW_INTERSECT"
abbreviation "T_EXCEPT \<equiv> Clause_Keyword CW_EXCEPT"
abbreviation "T_CASE \<equiv> Clause_Keyword CW_CASE"
abbreviation "T_WHEN \<equiv> Clause_Keyword CW_WHEN"
abbreviation "T_THEN \<equiv> Clause_Keyword CW_THEN"
abbreviation "T_ELSE \<equiv> Clause_Keyword CW_ELSE"
abbreviation "T_END \<equiv> Clause_Keyword CW_END"
abbreviation "T_AS \<equiv> Clause_Keyword CW_AS"
abbreviation "T_ASC \<equiv> Clause_Keyword CW_ASC"
abbreviation "T_DESC \<equiv> Clause_Keyword CW_DESC"

abbreviation "T_INT \<equiv> Type_Keyword TY_INT"
abbreviation "T_BIGINT \<equiv> Type_Keyword TY_BIGINT"
abbreviation "T_FLOAT \<equiv> Type_Keyword TY_FLOAT"
abbreviation "T_DOUBLE \<equiv> Type_Keyword TY_DOUBLE"
abbreviation "T_DECIMAL \<equiv> Type_Keyword TY_DECIMAL"
abbreviation "T_VARCHAR \<equiv> Type_Keyword TY_VARCHAR"
abbreviation "T_CHAR \<equiv> Type_Keyword TY_CHAR"
abbreviation "T_BOOLEAN \<equiv> Type_Keyword TY_BOOLEAN"
abbreviation "T_DATE \<equiv> Type_Keyword TY_DATE"
abbreviation "T_TIMESTAMP \<equiv> Type_Keyword TY_TIMESTAMP"
abbreviation "T_TEXT \<equiv> Type_Keyword TY_TEXT"
abbreviation "T_BLOB \<equiv> Type_Keyword TY_BLOB"

abbreviation "T_EQUALS \<equiv> Operator_Token OP_EQUALS"
abbreviation "T_NOT_EQUALS \<equiv> Operator_Token OP_NOT_EQUALS"
abbreviation "T_LESS \<equiv> Operator_Token OP_LESS"
abbreviation "T_LESS_EQUAL \<equiv> Operator_Token OP_LESS_EQUAL"
abbreviation "T_GREATER \<equiv> Operator_Token OP_GREATER"
abbreviation "T_GREATER_EQUAL \<equiv> Operator_Token OP_GREATER_EQUAL"
abbreviation "T_PLUS \<equiv> Operator_Token OP_PLUS"
abbreviation "T_MINUS \<equiv> Operator_Token OP_MINUS"
abbreviation "T_MULTIPLY \<equiv> Operator_Token OP_MULTIPLY"
abbreviation "T_DIVIDE \<equiv> Operator_Token OP_DIVIDE"
abbreviation "T_MODULO \<equiv> Operator_Token OP_MODULO"
abbreviation "T_CONCAT \<equiv> Operator_Token OP_CONCAT"

abbreviation "T_LPAREN \<equiv> Other_Token OT_LPAREN"
abbreviation "T_RPAREN \<equiv> Other_Token OT_RPAREN"
abbreviation "T_COMMA \<equiv> Other_Token OT_COMMA"
abbreviation "T_DOT \<equiv> Other_Token OT_DOT"
abbreviation "T_SEMICOLON \<equiv> Other_Token OT_SEMICOLON"
abbreviation "T_STAR \<equiv> Other_Token OT_STAR"
abbreviation "T_NUMBER \<equiv> Other_Token OT_NUMBER"
abbreviation "T_STRING \<equiv> Other_Token OT_STRING"
abbreviation "T_IDENTIFIER \<equiv> Other_Token OT_IDENTIFIER"
abbreviation "T_EOF_TOKEN \<equiv> Other_Token OT_EOF_TOKEN"
abbreviation "T_UNKNOWN \<equiv> Other_Token OT_UNKNOWN"

section \<open>Expressions and statements\<close>

text \<open>
  A pointer to an expression: to one of the four classes, or null (\<open>Null_Expression\<close>, which every cast
  of the code treats like an expression of a fifth class).
\<close>

datatype expr =
    Literal string token_type
  | Identifier string
  | BinaryOp expr expr token_type
  | UnaryOp expr token_type
  | Null_Expression

record column_def =
  cd_name :: string
  cd_type :: token_type
  cd_not_null :: bool
  cd_primary_key :: bool
  cd_unique :: bool
  cd_default_value :: string

record create_table_stmt =
  ct_table_name :: string
  ct_columns :: "column_def list"

record select_statement =
  ss_distinct :: bool
  ss_columns :: "expr list"
  ss_table_name :: string
  ss_where_clause :: "expr option"
  ss_order_by :: "(string \<times> bool) list"
  ss_limit :: int
  ss_offset :: int

record insert_stmt =
  is_table_name :: string
  is_columns :: "string list"
  is_values :: "expr list list"

record update_stmt =
  us_table_name :: string
  us_assignments :: "(string \<times> expr) list"
  us_where_clause :: "expr option"

record delete_stmt =
  ds_table_name :: string
  ds_where_clause :: "expr option"

text \<open>The dynamic types of a node that \<open>execute\<close> tells apart.\<close>

datatype ast =
    CreateTable create_table_stmt
  | Insert insert_stmt
  | Select select_statement
  | Update update_stmt
  | Delete delete_stmt
  | Other_Node

section \<open>Exceptions\<close>

datatype qerr =
    DBX4Exception string
  | SQLParseException string
  | SQLValidationException string
  | StorageException string
  | ConstraintException string
  | NotNullException string
  | UniqueConstraintException string
  | TypeException string
  | TypeCastException string string
  | OutOfRangeException string string
  | ConfigurationException string
  | InvalidStateException string string
  | StdException string
  | UB

fun what :: "qerr \<Rightarrow> string" where
  "what (DBX4Exception msg) = msg"
| "what (SQLParseException msg) = ''SQL Parse Error: '' @ msg"
| "what (SQLValidationException msg) = ''SQL Validation Error: '' @ msg"
| "what (StorageException msg) = ''Storage Error: '' @ msg"
| "what (ConstraintException msg) = ''Constraint Violation: '' @ msg"
| "what (NotNullException col) =
     ''Constraint Violation: '' @ ''NOT NULL constraint violated in column: '' @ col"
| "what (UniqueConstraintException col) =
     ''Constraint Violation: '' @ ''Duplicate value in unique column: '' @ col"
| "what (TypeException msg) = ''Type Error: '' @ msg"
| "what (TypeCastException a b) = ''Type Error: '' @ ''Cannot cast from '' @ a @ '' to '' @ b"
| "what (OutOfRangeException v t) =
     ''Type Error: '' @ ''Value '' @ v @ '' is out of range for type '' @ t"
| "what (ConfigurationException msg) = ''Configuration Error: '' @ msg"
| "what (InvalidStateException state reason) = ''Invalid state '' @ [CHR 0x27] @ state @ [CHR 0x27] @ '': '' @ reason"
| "what (StdException msg) = msg"
| "what UB = []"

section \<open>Decimal numbers\<close>

text \<open>\<open>std::to_string\<close> of an integer, and \<open>std::stoll\<close> (\<open>None\<close> when it throws).\<close>

fun show_nat :: "nat \<Rightarrow> string" where
  "show_nat n =
     (if n < 10 then [char_of (48 + n)] else show_nat (n div 10) @ [char_of (48 + n mod 10)])"

declare show_nat.simps [simp del]

definition show_int :: "int \<Rightarrow> string" where
  "show_int i = (if i < 0 then CHR ''-'' # show_nat (nat (- i)) else show_nat (nat i))"

definition is_digit :: "char \<Rightarrow> bool" where
  "is_digit c \<longleftrightarrow> CHR ''0'' \<le> c \<and> c \<le> CHR ''9''"

definition is_space :: "char \<Rightarrow> bool" where
  "is_space c \<longleftrightarrow> c = CHR '' '' \<or> (CHR 0x09 \<le> c \<and> c \<le> CHR 0x0D)"

fun read_nat :: "nat \<Rightarrow> string \<Rightarrow> nat" where
  "read_nat acc [] = acc"
| "read_nat acc (c # cs) = read_nat (10 * acc + (of_char c - 48)) cs"

definition fits_i64 :: "int \<Rightarrow> bool" where
  "fits_i64 i \<longleftrightarrow> - (2 ^ 63) \<le> i \<and> i < 2 ^ 63"

definition stoll :: "string \<Rightarrow> int option" where
  "stoll s =
     (let s1 = dropWhile is_space s;
          neg = (s1 \<noteq> [] \<and> hd s1 = CHR ''-'');
          s2 = (if s1 \<noteq> [] \<and> (hd s1 = CHR ''-'' \<or> hd s1 = CHR ''+'') then tl s1 else s1);
          ds = takeWhile is_digit s2;
          v = (if neg then - int (read_nat 0 ds) else int (read_nat 0 ds))
      in if ds = [] \<or> \<not> fits_i64 v then None else Some v)"

lemma read_nat_append: "read_nat acc (xs @ [c]) = 10 * read_nat acc xs + (of_char c - 48)"
  by (induction xs arbitrary: acc) auto

lemma digit_char: "d < 10 \<Longrightarrow> of_char (char_of (48 + d) :: char) = 48 + (d :: nat)"
  by (simp add: of_char_of)

lemma is_digit_char: "d < 10 \<Longrightarrow> is_digit (char_of (48 + (d :: nat)))"
  by (simp add: is_digit_def less_eq_char_def digit_char)

lemma show_nat_digits: "list_all is_digit (show_nat n) \<and> show_nat n \<noteq> []"
  by (induction n rule: show_nat.induct) (subst (1 2) show_nat.simps, auto simp: is_digit_char)

lemma read_show_nat: "read_nat 0 (show_nat n) = n"
proof (induction n rule: show_nat.induct)
  case (1 n)
  show ?case
  proof (cases "n < 10")
    case True
    then show ?thesis by (subst show_nat.simps) (simp add: digit_char)
  next
    case False
    with 1 show ?thesis by (subst show_nat.simps) (simp add: read_nat_append digit_char)
  qed
qed

text \<open>Printing an integer and reading it back.\<close>

lemma show_nat_hd: "is_digit (hd (show_nat n))"
  using show_nat_digits [of n] by (cases "show_nat n") auto

lemma digit_not_space: "is_digit c \<Longrightarrow> \<not> is_space c \<and> c \<noteq> CHR ''-'' \<and> c \<noteq> CHR ''+''"
  by (auto simp: is_digit_def is_space_def less_eq_char_def)

lemma stoll_show_int:
  assumes "fits_i64 i"
  shows "stoll (show_int i) = Some i"
proof -
  have tw: "takeWhile is_digit (show_nat n) = show_nat n" for n
    using show_nat_digits [of n] by (simp add: list_all_iff)
  obtain c cs where c: "show_nat (nat \<bar>i\<bar>) = c # cs" "is_digit c"
    using show_nat_digits [of "nat \<bar>i\<bar>"] by (cases "show_nat (nat \<bar>i\<bar>)") auto
  note dc = digit_not_space [OF c(2)]
  show ?thesis
  proof (cases "i < 0")
    case True
    then have "show_int i = CHR ''-'' # c # cs" using c by (simp add: show_int_def)
    moreover have "read_nat 0 (c # cs) = nat (- i)"
      using read_show_nat [of "nat \<bar>i\<bar>"] c True by simp
    moreover have "takeWhile is_digit (c # cs) = c # cs" using tw [of "nat \<bar>i\<bar>"] c by simp
    ultimately show ?thesis using True assms
      by (simp add: stoll_def Let_def is_space_def del: takeWhile.simps read_nat.simps takeWhile_eq_all_conv)
  next
    case False
    then have "show_int i = c # cs" using c by (simp add: show_int_def)
    moreover have "read_nat 0 (c # cs) = nat i"
      using read_show_nat [of "nat \<bar>i\<bar>"] c False by simp
    moreover have "takeWhile is_digit (c # cs) = c # cs" using tw [of "nat \<bar>i\<bar>"] c by simp
    ultimately show ?thesis using False assms dc
      by (simp add: stoll_def Let_def del: takeWhile.simps read_nat.simps takeWhile_eq_all_conv)
  qed
qed

end
