(* ===== verification/Query_Value.thy ===== *)
theory Query_Value
  imports Sql_Ast
begin

text \<open>
  Values, rows and expression evaluation of the query engine
  (\<open>include/query_executor_engine.h\<close>, \<open>src/query_executor_engine.cpp\<close>): the tagged value and its
  printing, \<open>evaluate_expression\<close>, \<open>evaluate_where_clause\<close> and \<open>convert_to_type\<close>.

  Signed 64-bit integers are integers with a range check: leaving the range is undefined
  behaviour (\<open>UB\<close>). The operations on \<open>double\<close> are an argument, a record \<open>dops\<close> over a type
  \<open>'d\<close> of doubles: conversions from and to \<open>int64_t\<close> (the latter is undefined outside its
  range), arithmetic, comparison, \<open>std::stod\<close> (\<open>None\<close> when it throws) and \<open>std::to_string\<close>.
\<close>

section \<open>Results\<close>

type_synonym 'a res = "qerr + 'a"

definition rbind :: "'a res \<Rightarrow> ('a \<Rightarrow> 'b res) \<Rightarrow> 'b res" where
  "rbind m f = (case m of Inl e \<Rightarrow> Inl e | Inr x \<Rightarrow> f x)"

lemma rbind_simps [simp]: "rbind (Inl e) f = Inl e" "rbind (Inr x) f = f x"
  by (simp_all add: rbind_def)

lemma rbind_Inr: "rbind m f = Inr y \<longleftrightarrow> (\<exists>x. m = Inr x \<and> f x = Inr y)"
  by (cases m) simp_all

section \<open>Values\<close>

record 'd dops =
  d_of_i64 :: "int \<Rightarrow> 'd"
  d_to_i64 :: "'d \<Rightarrow> int option"
  d_add :: "'d \<Rightarrow> 'd \<Rightarrow> 'd"
  d_sub :: "'d \<Rightarrow> 'd \<Rightarrow> 'd"
  d_mul :: "'d \<Rightarrow> 'd \<Rightarrow> 'd"
  d_div :: "'d \<Rightarrow> 'd \<Rightarrow> 'd"
  d_neg :: "'d \<Rightarrow> 'd"
  d_eq :: "'d \<Rightarrow> 'd \<Rightarrow> bool"
  d_lt :: "'d \<Rightarrow> 'd \<Rightarrow> bool"
  d_le :: "'d \<Rightarrow> 'd \<Rightarrow> bool"
  d_stod :: "string \<Rightarrow> 'd option"
  d_to_string :: "'d \<Rightarrow> string"

datatype 'd val =
    NULL_VAL
  | INT_VAL int
  | DOUBLE_VAL 'd
  | STRING_VAL string
  | BOOL_VAL bool

type_synonym 'd row = "string \<rightharpoonup> 'd val"

fun is_null :: "'d val \<Rightarrow> bool" where
  "is_null NULL_VAL = True"
| "is_null _ = False"

fun to_string :: "'d dops \<Rightarrow> 'd val \<Rightarrow> string res" where
  "to_string D NULL_VAL = Inr ''NULL''"
| "to_string D (INT_VAL i) = Inr (show_int i)"
| "to_string D (DOUBLE_VAL x) =
     (case d_to_i64 D x of
        None \<Rightarrow> Inl UB
      | Some i \<Rightarrow> if d_eq D x (d_of_i64 D i) then Inr (show_int i) else Inr (d_to_string D x))"
| "to_string D (STRING_VAL s) = Inr s"
| "to_string D (BOOL_VAL b) = Inr (if b then ''true'' else ''false'')"

section \<open>Expressions\<close>

definition checked_i64 :: "int \<Rightarrow> 'd val res" where
  "checked_i64 i = (if fits_i64 i then Inr (INT_VAL i) else Inl UB)"

text \<open>\<open>(v.type == INT_VAL) ? any_cast<int64_t>(v.data) : any_cast<double>(v.data)\<close>.\<close>

fun as_double :: "'d dops \<Rightarrow> 'd val \<Rightarrow> 'd res" where
  "as_double D (INT_VAL i) = Inr (d_of_i64 D i)"
| "as_double D (DOUBLE_VAL x) = Inr x"
| "as_double D _ = Inl (StdException ''bad any_cast'')"

fun arith :: "'d dops \<Rightarrow> (int \<Rightarrow> int \<Rightarrow> int) \<Rightarrow> ('d \<Rightarrow> 'd \<Rightarrow> 'd) \<Rightarrow> 'd val \<Rightarrow> 'd val \<Rightarrow> 'd val res" where
  "arith D fi fd (INT_VAL a) (INT_VAL b) = checked_i64 (fi a b)"
| "arith D fi fd u v =
     rbind (as_double D u) (\<lambda>l. rbind (as_double D v) (\<lambda>r. Inr (DOUBLE_VAL (fd l r))))"

definition divide_val :: "'d dops \<Rightarrow> 'd val \<Rightarrow> 'd val \<Rightarrow> 'd val res" where
  "divide_val D u v =
     rbind (as_double D u) (\<lambda>l. rbind (as_double D v) (\<lambda>r.
       if d_eq D r (d_of_i64 D 0) then Inl (OutOfRangeException ''0'' ''divisor'')
       else Inr (DOUBLE_VAL (d_div D l r))))"

fun negate_val :: "'d dops \<Rightarrow> 'd val \<Rightarrow> 'd val res" where
  "negate_val D (INT_VAL i) = checked_i64 (- i)"
| "negate_val D (DOUBLE_VAL x) = Inr (DOUBLE_VAL (d_neg D x))"
| "negate_val D _ = Inl (TypeException ''Cannot negate non-numeric value'')"

fun evaluate_expression :: "'d dops \<Rightarrow> expr \<Rightarrow> 'd row \<Rightarrow> 'd val res" where
  "evaluate_expression D (Literal v t) row =
     (if t = T_NULL_KEYWORD then Inr NULL_VAL else Inr (STRING_VAL v))"
| "evaluate_expression D (Identifier n) row =
     (case row n of
        Some v \<Rightarrow> Inr v
      | None \<Rightarrow> Inl (SQLValidationException (''Unknown column: '' @ [CHR 0x27] @ n @ [CHR 0x27])))"
| "evaluate_expression D (UnaryOp e op) row =
     rbind (evaluate_expression D e row) (\<lambda>operand.
       if op = T_MINUS then negate_val D operand else Inr operand)"
| "evaluate_expression D (BinaryOp l r op) row =
     rbind (evaluate_expression D l row) (\<lambda>u. rbind (evaluate_expression D r row) (\<lambda>v.
       if is_null u \<or> is_null v then Inr NULL_VAL
       else if op = T_PLUS then arith D (+) (d_add D) u v
       else if op = T_MINUS then arith D (-) (d_sub D) u v
       else if op = T_MULTIPLY then arith D (*) (d_mul D) u v
       else if op = T_DIVIDE then divide_val D u v
       else Inl (SQLValidationException ''Unsupported operator in expression'')))"
| "evaluate_expression D Null_Expression row =
     Inl (SQLValidationException ''Unable to evaluate expression'')"

section \<open>Conditions\<close>

fun equals_val :: "'d dops \<Rightarrow> 'd val \<Rightarrow> 'd val \<Rightarrow> bool" where
  "equals_val D (INT_VAL a) (INT_VAL b) = (a = b)"
| "equals_val D (DOUBLE_VAL a) (DOUBLE_VAL b) = d_eq D a b"
| "equals_val D (STRING_VAL a) (STRING_VAL b) = (a = b)"
| "equals_val D (BOOL_VAL a) (BOOL_VAL b) = (a = b)"
| "equals_val D _ _ = False"

fun is_double :: "'d val \<Rightarrow> bool" where
  "is_double (DOUBLE_VAL _) = True"
| "is_double _ = False"

fun compare_val ::
  "'d dops \<Rightarrow> (int \<Rightarrow> int \<Rightarrow> bool) \<Rightarrow> ('d \<Rightarrow> 'd \<Rightarrow> bool) \<Rightarrow> 'd val \<Rightarrow> 'd val \<Rightarrow> bool res" where
  "compare_val D fi fd (INT_VAL a) (INT_VAL b) = Inr (fi a b)"
| "compare_val D fi fd u v =
     (if is_double u \<or> is_double v
      then rbind (as_double D u) (\<lambda>l. rbind (as_double D v) (\<lambda>r. Inr (fd l r)))
      else Inr False)"

text \<open>
  \<open>NOT_EQUALS\<close> builds an \<open>EQUALS\<close> node over the same operands and negates its verdict, so the
  recursion is not structural; the measure counts a node and whether its operator is that one.
\<close>

function evaluate_where_clause :: "'d dops \<Rightarrow> expr \<Rightarrow> 'd row \<Rightarrow> bool res" where
  "evaluate_where_clause D (BinaryOp l r op) row =
     (if op = T_AND then
        (case evaluate_where_clause D l row of
           Inl e \<Rightarrow> Inl e
         | Inr b \<Rightarrow> if \<not> b then Inr False else evaluate_where_clause D r row)
      else if op = T_OR then
        (case evaluate_where_clause D l row of
           Inl e \<Rightarrow> Inl e
         | Inr b \<Rightarrow> if b then Inr True else evaluate_where_clause D r row)
      else
        (case evaluate_expression D l row of Inl e \<Rightarrow> Inl e | Inr u \<Rightarrow>
        (case evaluate_expression D r row of Inl e \<Rightarrow> Inl e | Inr v \<Rightarrow>
           if is_null u \<or> is_null v then Inr False
           else if op = T_EQUALS then Inr (equals_val D u v)
           else if op = T_NOT_EQUALS then
             (case evaluate_where_clause D (BinaryOp l r T_EQUALS) row of
                Inl e \<Rightarrow> Inl e | Inr b \<Rightarrow> Inr (\<not> b))
           else if op = T_LESS then compare_val D (<) (d_lt D) u v
           else if op = T_LESS_EQUAL then compare_val D (\<le>) (d_le D) u v
           else if op = T_GREATER then compare_val D (>) (\<lambda>a b. d_lt D b a) u v
           else if op = T_GREATER_EQUAL then compare_val D (\<ge>) (\<lambda>a b. d_le D b a) u v
           else Inl (SQLValidationException ''Unsupported operator in WHERE clause''))))"
| "evaluate_where_clause D (Literal s t) row = Inl (SQLValidationException ''Invalid WHERE clause'')"
| "evaluate_where_clause D (Identifier n) row = Inl (SQLValidationException ''Invalid WHERE clause'')"
| "evaluate_where_clause D (UnaryOp e t) row = Inl (SQLValidationException ''Invalid WHERE clause'')"
| "evaluate_where_clause D Null_Expression row = Inl (SQLValidationException ''Invalid WHERE clause'')"
  by pat_completeness auto

fun where_weight :: "expr \<Rightarrow> nat" where
  "where_weight (BinaryOp l r op) =
     2 + where_weight l + where_weight r + (if op = T_NOT_EQUALS then 1 else 0)"
| "where_weight _ = 0"

termination evaluate_where_clause
  by (relation "measure (\<lambda>(D, e, row). where_weight e)") auto

section \<open>Conversion\<close>

definition token_type_to_string :: "token_type \<Rightarrow> string" where
  "token_type_to_string t =
     (if t = T_INT then ''INT'' else if t = T_BIGINT then ''BIGINT''
      else if t = T_DOUBLE then ''DOUBLE'' else if t = T_FLOAT then ''FLOAT''
      else if t = T_VARCHAR then ''VARCHAR'' else if t = T_CHAR then ''CHAR''
      else if t = T_BOOLEAN then ''BOOLEAN'' else if t = T_TIMESTAMP then ''TIMESTAMP''
      else if t = T_TEXT then ''TEXT'' else ''UNKNOWN'')"

fun to_int_type :: "'d dops \<Rightarrow> 'd val \<Rightarrow> token_type \<Rightarrow> 'd val res" where
  "to_int_type D (DOUBLE_VAL x) t =
     (case d_to_i64 D x of None \<Rightarrow> Inl UB | Some i \<Rightarrow> Inr (INT_VAL i))"
| "to_int_type D (STRING_VAL s) t =
     (case stoll s of
        None \<Rightarrow> Inl (TypeCastException s (token_type_to_string t))
      | Some i \<Rightarrow> Inr (INT_VAL i))"
| "to_int_type D v t = Inr v"

fun to_double_type :: "'d dops \<Rightarrow> 'd val \<Rightarrow> token_type \<Rightarrow> 'd val res" where
  "to_double_type D (INT_VAL i) t = Inr (DOUBLE_VAL (d_of_i64 D i))"
| "to_double_type D (STRING_VAL s) t =
     (case d_stod D s of
        None \<Rightarrow> Inl (TypeCastException s (token_type_to_string t))
      | Some x \<Rightarrow> Inr (DOUBLE_VAL x))"
| "to_double_type D v t = Inr v"

fun to_bool_type :: "'d val \<Rightarrow> 'd val" where
  "to_bool_type (INT_VAL i) = BOOL_VAL (i \<noteq> 0)"
| "to_bool_type (STRING_VAL s) =
     BOOL_VAL (s = ''true'' \<or> s = ''1'' \<or> s = ''TRUE'' \<or> s = ''YES'')"
| "to_bool_type v = v"

definition convert_to_type :: "'d dops \<Rightarrow> 'd val \<Rightarrow> token_type \<Rightarrow> 'd val res" where
  "convert_to_type D v t =
     (if is_null v then Inr NULL_VAL
      else if t = T_INT \<or> t = T_BIGINT then to_int_type D v t
      else if t = T_DOUBLE \<or> t = T_FLOAT then to_double_type D v t
      else if t = T_VARCHAR \<or> t = T_TEXT \<or> t = T_CHAR
        then rbind (to_string D v) (\<lambda>s. Inr (STRING_VAL s))
      else if t = T_BOOLEAN then Inr (to_bool_type v)
      else Inr v)"

text \<open>A literal of an \<open>INSERT\<close>, converted to the type of its token.\<close>

fun literal_value :: "'d dops \<Rightarrow> expr \<Rightarrow> 'd val res" where
  "literal_value D (Literal v t) =
     convert_to_type D (STRING_VAL v) (if t = T_STRING then T_VARCHAR else t)"
| "literal_value D _ = Inl (SQLValidationException ''Only literal values supported in INSERT'')"

section \<open>Facts about values\<close>

lemma is_null_iff [simp]: "is_null v \<longleftrightarrow> v = NULL_VAL"
  by (cases v) simp_all

text \<open>
  A literal never becomes a null: the token \<open>NULL\<close> and every token type the conversion does
  not know keep the text as a string.
\<close>

lemma convert_not_null: "convert_to_type D v t = Inr w \<Longrightarrow> v \<noteq> NULL_VAL \<Longrightarrow> w \<noteq> NULL_VAL"
  by (cases v) (auto simp: convert_to_type_def rbind_Inr split: if_splits option.splits)

lemma literal_not_null: "literal_value D e = Inr w \<Longrightarrow> w \<noteq> NULL_VAL"
  by (cases e) (auto dest: convert_not_null)

lemma literal_number: "t = T_NUMBER \<or> t = T_STRING \<or> t = T_NULL_KEYWORD \<Longrightarrow>
    literal_value D (Literal s t) = Inr (STRING_VAL s)"
  by (auto simp: convert_to_type_def)

text \<open>Strings compare only by equality: every order comparison of two of them is false.\<close>

lemma compare_strings [simp]: "compare_val D fi fd (STRING_VAL a) (STRING_VAL b) = Inr False"
  by simp

text \<open>
  A conversion to an integer type and printing are inverse on the integers that fit, and the
  value printed for a string, an integer or a boolean does not depend on the doubles.
\<close>

lemma int_print_convert:
  "fits_i64 i \<Longrightarrow> rbind (to_string D (INT_VAL i)) (\<lambda>s. convert_to_type D (STRING_VAL s) T_BIGINT)
     = Inr (INT_VAL i)"
  by (simp add: convert_to_type_def stoll_show_int)

end
