(* ===== verification/Query_Engine.thy ===== *)
theory Query_Engine
  imports Query_Value "HOL-Library.Multiset"
begin

text \<open>
  The in-memory query engine of \<open>src/query_executor_engine.cpp\<close>: the database of tables, schema
  creation, and the five statements \<open>CREATE TABLE\<close>, \<open>INSERT\<close>, \<open>SELECT\<close>, \<open>UPDATE\<close> and \<open>DELETE\<close>.

  A statement returns a result or an exception together with the database it leaves behind: an
  exception does not undo what was done before it. \<open>execute\<close> turns exceptions into failed results;
  undefined behaviour is the value \<open>None\<close>. Counts of rows are integers (a table has fewer than
  \<open>2 ^ 31\<close> rows); \<open>unique_indexes\<close>, which no code reads or writes, is left out.
\<close>

section \<open>State\<close>

record table_schema =
  ts_name :: string
  ts_columns :: "column_def list"
  ts_column_index :: "string \<rightharpoonup> nat"
  ts_primary_keys :: "string list"
  ts_unique_columns :: "string list"
  ts_not_null_columns :: "string list"

record 'd table =
  tb_schema :: table_schema
  tb_rows :: "'d row list"

record 'd database =
  db_tables :: "string \<rightharpoonup> 'd table"
  db_name :: string

record 'd query_result =
  qr_column_names :: "string list"
  qr_rows :: "'d row list"
  qr_rows_affected :: int
  qr_success :: bool
  qr_error_message :: string

definition empty_result :: "'d query_result" where
  "empty_result = \<lparr>qr_column_names = [], qr_rows = [], qr_rows_affected = 0, qr_success = False,
     qr_error_message = []\<rparr>"

definition quoted :: "string \<Rightarrow> string" where
  "quoted s = [CHR 0x27] @ s @ [CHR 0x27]"

section \<open>The database\<close>

definition database_new :: "string \<Rightarrow> 'd database" where
  "database_new name = \<lparr>db_tables = Map.empty, db_name = name\<rparr>"

text \<open>An executor holds its database and nothing else; so its methods are functions of the database.\<close>

type_synonym 'd query_executor = "'d database"

definition query_executor_new :: "string \<Rightarrow> 'd query_executor" where
  "query_executor_new name = database_new name"

definition get_database :: "'d query_executor \<Rightarrow> 'd database" where
  "get_database ex = ex"

definition get_table :: "'d database \<Rightarrow> string \<Rightarrow> 'd table res" where
  "get_table db name =
     (case db_tables db name of
        None \<Rightarrow> Inl (StorageException (''Table '' @ quoted name @ '' does not exist''))
      | Some t \<Rightarrow> Inr t)"

definition table_exists :: "'d database \<Rightarrow> string \<Rightarrow> bool" where
  "table_exists db name \<longleftrightarrow> db_tables db name \<noteq> None"

definition put_table :: "'d database \<Rightarrow> string \<Rightarrow> 'd table \<Rightarrow> 'd database" where
  "put_table db name t = db\<lparr>db_tables := (db_tables db)(name \<mapsto> t)\<rparr>"

text \<open>One round of the loop over the columns; the sets are kept in their iteration order.\<close>

definition add_column :: "table_schema \<Rightarrow> nat \<times> column_def \<Rightarrow> table_schema" where
  "add_column ts = (\<lambda>(i, c). ts
     \<lparr>ts_column_index := (ts_column_index ts)(cd_name c \<mapsto> i),
      ts_primary_keys := (if cd_primary_key c then insort_insert (cd_name c) (ts_primary_keys ts)
                          else ts_primary_keys ts),
      ts_unique_columns := (if cd_unique c then insort_insert (cd_name c) (ts_unique_columns ts)
                            else ts_unique_columns ts),
      ts_not_null_columns := (if cd_not_null c then insort_insert (cd_name c) (ts_not_null_columns ts)
                              else ts_not_null_columns ts)\<rparr>)"

definition make_schema :: "string \<Rightarrow> column_def list \<Rightarrow> table_schema" where
  "make_schema name cols =
     foldl add_column
       \<lparr>ts_name = name, ts_columns = cols, ts_column_index = Map.empty, ts_primary_keys = [],
        ts_unique_columns = [], ts_not_null_columns = []\<rparr>
       (enumerate 0 cols)"

definition create_table :: "'d database \<Rightarrow> string \<Rightarrow> column_def list \<Rightarrow> unit res \<times> 'd database" where
  "create_table db name cols =
     (if table_exists db name
      then (Inl (StorageException (''Table '' @ quoted name @ '' already exists'')), db)
      else if cols = []
      then (Inl (SQLValidationException ''Table must have at least one column''), db)
      else (Inr (), put_table db name \<lparr>tb_schema = make_schema name cols, tb_rows = []\<rparr>))"

definition drop_table :: "'d database \<Rightarrow> string \<Rightarrow> unit res \<times> 'd database" where
  "drop_table db name =
     (if \<not> table_exists db name
      then (Inl (StorageException (''Table '' @ quoted name @ '' does not exist'')), db)
      else (Inr (), db\<lparr>db_tables := (db_tables db)(name := None)\<rparr>))"

section \<open>Validation\<close>

definition validate_column_exists :: "string \<Rightarrow> 'd table \<Rightarrow> unit res" where
  "validate_column_exists c t =
     (if ts_column_index (tb_schema t) c = None
      then Inl (SQLValidationException
        (''Column '' @ quoted c @ '' does not exist in table '' @ quoted (ts_name (tb_schema t))))
      else Inr ())"

fun check_not_null :: "'d row \<Rightarrow> string list \<Rightarrow> unit res" where
  "check_not_null row [] = Inr ()"
| "check_not_null row (c # cs) =
     (if row c = Some NULL_VAL then Inl (NotNullException c) else check_not_null row cs)"

fun check_against :: "'d dops \<Rightarrow> string \<Rightarrow> 'd val \<Rightarrow> 'd row list \<Rightarrow> unit res" where
  "check_against D c v [] = Inr ()"
| "check_against D c v (r # rs) =
     (case r c of
        None \<Rightarrow> check_against D c v rs
      | Some w \<Rightarrow>
          if is_null w then check_against D c v rs
          else rbind (to_string D v) (\<lambda>s. rbind (to_string D w) (\<lambda>s'.
            if s = s' then Inl (UniqueConstraintException c) else check_against D c v rs)))"

fun check_unique :: "'d dops \<Rightarrow> 'd row \<Rightarrow> 'd row list \<Rightarrow> string list \<Rightarrow> unit res" where
  "check_unique D row rows [] = Inr ()"
| "check_unique D row rows (c # cs) =
     (case row c of
        None \<Rightarrow> check_unique D row rows cs
      | Some v \<Rightarrow>
          if is_null v then check_unique D row rows cs
          else rbind (check_against D c v rows) (\<lambda>_. check_unique D row rows cs))"

definition validate_row :: "'d dops \<Rightarrow> 'd row \<Rightarrow> 'd table \<Rightarrow> unit res" where
  "validate_row D row t =
     rbind (check_not_null row (ts_not_null_columns (tb_schema t))) (\<lambda>_.
       check_unique D row (tb_rows t) (ts_unique_columns (tb_schema t)))"

section \<open>CREATE TABLE\<close>

definition execute_create_table ::
  "create_table_stmt \<Rightarrow> 'd database \<Rightarrow> 'd query_result res \<times> 'd database" where
  "execute_create_table st db =
     (if ct_table_name st = [] then (Inl (SQLValidationException ''Table name cannot be empty''), db)
      else if ct_columns st = []
      then (Inl (SQLValidationException ''Table must have at least one column''), db)
      else case create_table db (ct_table_name st) (ct_columns st) of
             (Inl e, db') \<Rightarrow> (Inl e, db')
           | (Inr _, db') \<Rightarrow> (Inr (empty_result\<lparr>qr_success := True, qr_rows_affected := 0\<rparr>), db'))"

section \<open>INSERT\<close>

definition count_mismatch :: "nat \<Rightarrow> nat \<Rightarrow> qerr" where
  "count_mismatch expected got = SQLValidationException
     (''Column count mismatch: expected '' @ show_nat expected @ '', got '' @ show_nat got)"

fun fill_explicit :: "'d dops \<Rightarrow> 'd table \<Rightarrow> (string \<times> expr) list \<Rightarrow> 'd row \<Rightarrow> 'd row res" where
  "fill_explicit D t [] row = Inr row"
| "fill_explicit D t ((c, e) # ps) row =
     rbind (validate_column_exists c t) (\<lambda>_.
     rbind (literal_value D e) (\<lambda>v. fill_explicit D t ps (row(c \<mapsto> v))))"

fun fill_defaults :: "'d dops \<Rightarrow> column_def list \<Rightarrow> 'd row \<Rightarrow> 'd row res" where
  "fill_defaults D [] row = Inr row"
| "fill_defaults D (c # cs) row =
     (if row (cd_name c) = None then
        if cd_default_value c \<noteq> []
        then rbind (convert_to_type D (STRING_VAL (cd_default_value c)) (cd_type c)) (\<lambda>v.
               fill_defaults D cs (row(cd_name c \<mapsto> v)))
        else if \<not> cd_not_null c then fill_defaults D cs (row(cd_name c \<mapsto> NULL_VAL))
        else Inl (NotNullException (cd_name c))
      else fill_defaults D cs row)"

fun fill_positional :: "'d dops \<Rightarrow> (column_def \<times> expr) list \<Rightarrow> 'd row \<Rightarrow> 'd row res" where
  "fill_positional D [] row = Inr row"
| "fill_positional D ((c, e) # ps) row =
     rbind (literal_value D e) (\<lambda>v. fill_positional D ps (row(cd_name c \<mapsto> v)))"

definition build_row :: "'d dops \<Rightarrow> string list \<Rightarrow> 'd table \<Rightarrow> expr list \<Rightarrow> 'd row res" where
  "build_row D cols t vs =
     (if cols \<noteq> [] then
        if length vs \<noteq> length cols then Inl (count_mismatch (length cols) (length vs))
        else rbind (fill_explicit D t (zip cols vs) Map.empty)
               (fill_defaults D (ts_columns (tb_schema t)))
      else
        if length vs \<noteq> length (ts_columns (tb_schema t))
        then Inl (count_mismatch (length (ts_columns (tb_schema t))) (length vs))
        else fill_positional D (zip (ts_columns (tb_schema t)) vs) Map.empty)"

fun insert_rows ::
  "'d dops \<Rightarrow> string list \<Rightarrow> expr list list \<Rightarrow> int \<Rightarrow> 'd table \<Rightarrow> int res \<times> 'd table" where
  "insert_rows D cols [] n t = (Inr n, t)"
| "insert_rows D cols (vs # vss) n t =
     (case build_row D cols t vs of
        Inl e \<Rightarrow> (Inl e, t)
      | Inr row \<Rightarrow>
          (case validate_row D row t of
             Inl e \<Rightarrow> (Inl e, t)
           | Inr _ \<Rightarrow> insert_rows D cols vss (n + 1) (t\<lparr>tb_rows := tb_rows t @ [row]\<rparr>)))"

text \<open>What every changing statement does around its loop over the rows of the named table.\<close>

definition on_table ::
  "string \<Rightarrow> ('d table \<Rightarrow> int res \<times> 'd table) \<Rightarrow> 'd database \<Rightarrow> 'd query_result res \<times> 'd database" where
  "on_table name f db =
     (if name = [] then (Inl (SQLValidationException ''Table name cannot be empty''), db)
      else case get_table db name of
             Inl e \<Rightarrow> (Inl e, db)
           | Inr t \<Rightarrow>
               (case f t of
                  (Inl e, t') \<Rightarrow> (Inl e, put_table db name t')
                | (Inr n, t') \<Rightarrow>
                    (Inr (empty_result\<lparr>qr_success := True, qr_rows_affected := n\<rparr>),
                     put_table db name t')))"

definition execute_insert ::
  "'d dops \<Rightarrow> insert_stmt \<Rightarrow> 'd database \<Rightarrow> 'd query_result res \<times> 'd database" where
  "execute_insert D st = on_table (is_table_name st) (insert_rows D (is_columns st) (is_values st) 0)"

section \<open>SELECT\<close>

fun select_columns_of :: "'d table \<Rightarrow> expr list \<Rightarrow> string list res" where
  "select_columns_of t [] = Inr []"
| "select_columns_of t (Identifier n # es) =
     rbind (validate_column_exists n t) (\<lambda>_.
     rbind (select_columns_of t es) (\<lambda>cs. Inr (n # cs)))"
| "select_columns_of t (_ # es) = select_columns_of t es"

definition select_columns :: "'d table \<Rightarrow> expr list \<Rightarrow> string list res" where
  "select_columns t es =
     (if es = [Identifier ''*''] then Inr (map cd_name (ts_columns (tb_schema t)))
      else select_columns_of t es)"

definition where_holds :: "'d dops \<Rightarrow> expr option \<Rightarrow> 'd row \<Rightarrow> bool res" where
  "where_holds D w row = (case w of None \<Rightarrow> Inr True | Some e \<Rightarrow> evaluate_where_clause D e row)"

fun filter_rows :: "'d dops \<Rightarrow> expr option \<Rightarrow> 'd row list \<Rightarrow> 'd row list res" where
  "filter_rows D w [] = Inr []"
| "filter_rows D w (r # rs) =
     rbind (where_holds D w r) (\<lambda>b.
     rbind (filter_rows D w rs) (\<lambda>rs'. Inr (if b then r # rs' else rs')))"

fun compare_string :: "string \<Rightarrow> string \<Rightarrow> int" where
  "compare_string a b = (if a < b then -1 else if b < a then 1 else 0)"

fun order_cmp :: "'d dops \<Rightarrow> 'd val \<Rightarrow> 'd val \<Rightarrow> int" where
  "order_cmp D (INT_VAL a) (INT_VAL b) = (if a < b then -1 else if a > b then 1 else 0)"
| "order_cmp D (DOUBLE_VAL a) (DOUBLE_VAL b) =
     (if d_lt D a b then -1 else if d_lt D b a then 1 else 0)"
| "order_cmp D (STRING_VAL a) (STRING_VAL b) = compare_string a b"
| "order_cmp D _ _ = 0"

definition row_at :: "'d row \<Rightarrow> string \<Rightarrow> 'd val res" where
  "row_at row c = (case row c of None \<Rightarrow> Inl (StdException ''map::at'') | Some v \<Rightarrow> Inr v)"

text \<open>The comparator of \<open>ORDER BY\<close>.\<close>

fun row_less :: "'d dops \<Rightarrow> 'd table \<Rightarrow> (string \<times> bool) list \<Rightarrow> 'd row \<Rightarrow> 'd row \<Rightarrow> bool res" where
  "row_less D t [] a b = Inr False"
| "row_less D t ((c, is_desc) # os) a b =
     rbind (validate_column_exists c t) (\<lambda>_.
     rbind (row_at a c) (\<lambda>u. rbind (row_at b c) (\<lambda>v.
       if is_null u \<and> is_null v then row_less D t os a b
       else if is_null u then Inr (\<not> is_desc)
       else if is_null v then Inr is_desc
       else let cmp = order_cmp D u v in
            if cmp \<noteq> 0 then Inr (if is_desc then cmp > 0 else cmp < 0)
            else row_less D t os a b)))"

text \<open>
  \<open>std::sort\<close> as an insertion sort whose comparisons may throw (what \<open>std::sort\<close> does on short
  ranges). It requires a strict weak order of the elements and is undefined on any other comparator:
  \<open>weak_order\<close> checks irreflexivity, transitivity and the transitivity of incomparability. The lemmas
  use of the sort that the result is a permutation with no pair out of order.
\<close>

definition weak_order :: "('a \<Rightarrow> 'a \<Rightarrow> bool) \<Rightarrow> 'a list \<Rightarrow> bool" where
  "weak_order lt xs \<longleftrightarrow> list_all (\<lambda>a. \<not> lt a a \<and> list_all (\<lambda>b. list_all (\<lambda>c.
     (lt a b \<and> lt b c \<longrightarrow> lt a c) \<and>
     (\<not> lt a b \<and> \<not> lt b a \<and> \<not> lt b c \<and> \<not> lt c b \<longrightarrow> \<not> lt a c)) xs) xs) xs"

fun sort_insert :: "('a \<Rightarrow> 'a \<Rightarrow> bool res) \<Rightarrow> 'a \<Rightarrow> 'a list \<Rightarrow> 'a list res" where
  "sort_insert lt x [] = Inr [x]"
| "sort_insert lt x (y # ys) =
     rbind (lt x y) (\<lambda>b.
       if b then Inr (x # y # ys) else rbind (sort_insert lt x ys) (\<lambda>zs. Inr (y # zs)))"

fun sort_rows :: "('a \<Rightarrow> 'a \<Rightarrow> bool res) \<Rightarrow> 'a list \<Rightarrow> 'a list \<Rightarrow> 'a list res" where
  "sort_rows lt done [] = Inr done"
| "sort_rows lt done (x # xs) =
     rbind (sort_insert lt x done) (\<lambda>done'. sort_rows lt done' xs)"

definition order_rows ::
  "'d dops \<Rightarrow> 'd table \<Rightarrow> (string \<times> bool) list \<Rightarrow> 'd row list \<Rightarrow> 'd row list res" where
  "order_rows D t os rows =
     (if os = [] then Inr rows
      else if \<not> weak_order (\<lambda>a b. row_less D t os a b = Inr True) rows then Inl UB
      else sort_rows (row_less D t os) [] rows)"

definition fits_i32 :: "int \<Rightarrow> bool" where
  "fits_i32 i \<longleftrightarrow> - (2 ^ 31) \<le> i \<and> i < 2 ^ 31"

definition project :: "string list \<Rightarrow> 'd row \<Rightarrow> 'd row" where
  "project cs row =
     foldl (\<lambda>r c. case row c of None \<Rightarrow> r | Some v \<Rightarrow> r(c \<mapsto> v)) Map.empty cs"

text \<open>The loop over \<open>start_idx .. end_idx\<close>; indexing the vector with a negative number is undefined.\<close>

definition slice_rows :: "int \<Rightarrow> int \<Rightarrow> 'a list \<Rightarrow> 'a list res" where
  "slice_rows limit start rows =
     (if limit > 0 \<and> \<not> fits_i32 (start + limit) then Inl UB
      else let end_idx = (if limit = 0 then start
                          else if limit > 0 then start + limit else int (length rows));
               hi = min end_idx (int (length rows))
           in if start < 0 \<and> start < hi then Inl UB
              else Inr (map (\<lambda>i. rows ! nat i) [start..hi - 1]))"

definition execute_select :: "'d dops \<Rightarrow> select_statement \<Rightarrow> 'd database \<Rightarrow> 'd query_result res" where
  "execute_select D st db =
     (if ss_table_name st = [] then Inl (SQLValidationException ''SELECT requires FROM clause'')
      else
        rbind (get_table db (ss_table_name st)) (\<lambda>t.
        rbind (select_columns t (ss_columns st)) (\<lambda>cols.
        rbind (filter_rows D (ss_where_clause st) (tb_rows t)) (\<lambda>filtered.
        rbind (order_rows D t (ss_order_by st) filtered) (\<lambda>ordered.
        rbind (slice_rows (ss_limit st) (ss_offset st) ordered) (\<lambda>rows.
          Inr \<lparr>qr_column_names = cols, qr_rows = map (project cols) rows,
               qr_rows_affected = int (length rows), qr_success = True,
               qr_error_message = []\<rparr>))))))"

section \<open>UPDATE\<close>

fun assign_columns ::
  "'d dops \<Rightarrow> 'd table \<Rightarrow> (string \<times> expr) list \<Rightarrow> 'd row \<Rightarrow> unit res \<times> 'd row" where
  "assign_columns D t [] row = (Inr (), row)"
| "assign_columns D t ((c, e) # as) row =
     (case validate_column_exists c t of
        Inl x \<Rightarrow> (Inl x, row)
      | Inr _ \<Rightarrow>
          (case evaluate_expression D e row of
             Inl x \<Rightarrow> (Inl x, row)
           | Inr v \<Rightarrow> assign_columns D t as (row(c \<mapsto> v))))"

text \<open>
  The loop over the rows by reference: \<open>done\<close> holds the rows already visited, and a row is
  validated against the table that contains it.
\<close>

fun update_rows ::
  "'d dops \<Rightarrow> update_stmt \<Rightarrow> 'd table \<Rightarrow> 'd row list \<Rightarrow> 'd row list \<Rightarrow> int \<Rightarrow> int res \<times> 'd table" where
  "update_rows D st t done [] n = (Inr n, t\<lparr>tb_rows := done\<rparr>)"
| "update_rows D st t done (row # rest) n =
     (case where_holds D (us_where_clause st) row of
        Inl e \<Rightarrow> (Inl e, t\<lparr>tb_rows := done @ row # rest\<rparr>)
      | Inr False \<Rightarrow> update_rows D st t (done @ [row]) rest n
      | Inr True \<Rightarrow>
          (case assign_columns D t (us_assignments st) row of
             (Inl e, row') \<Rightarrow> (Inl e, t\<lparr>tb_rows := done @ row' # rest\<rparr>)
           | (Inr _, row') \<Rightarrow>
               (case validate_row D row' (t\<lparr>tb_rows := done @ row' # rest\<rparr>) of
                  Inl e \<Rightarrow> (Inl e, t\<lparr>tb_rows := done @ row' # rest\<rparr>)
                | Inr _ \<Rightarrow> update_rows D st t (done @ [row']) rest (n + 1))))"

definition execute_update ::
  "'d dops \<Rightarrow> update_stmt \<Rightarrow> 'd database \<Rightarrow> 'd query_result res \<times> 'd database" where
  "execute_update D st = on_table (us_table_name st) (\<lambda>t. update_rows D st t [] (tb_rows t) 0)"

section \<open>DELETE\<close>

text \<open>
  \<open>std::remove_if\<close> in place: \<open>kept\<close> is the range before \<open>result\<close>, \<open>gap\<close> the range between \<open>result\<close> and
  \<open>first\<close>. Moving a row forward overwrites the head of the gap and leaves an empty map behind.
  When the predicate throws the vector keeps this intermediate state.
\<close>

fun remove_if ::
  "('d row \<Rightarrow> bool res) \<Rightarrow> 'd row list \<Rightarrow> 'd row list \<Rightarrow> 'd row list \<Rightarrow> int res \<times> 'd row list" where
  "remove_if p kept gap [] = (Inr (int (length gap)), kept)"
| "remove_if p kept gap (x # xs) =
     (case p x of
        Inl e \<Rightarrow> (Inl e, kept @ gap @ x # xs)
      | Inr True \<Rightarrow> remove_if p kept (gap @ [x]) xs
      | Inr False \<Rightarrow>
          if gap = [] then remove_if p (kept @ [x]) [] xs
          else remove_if p (kept @ [x]) (tl gap @ [Map.empty]) xs)"

definition delete_rows :: "'d dops \<Rightarrow> expr option \<Rightarrow> 'd table \<Rightarrow> int res \<times> 'd table" where
  "delete_rows D w t =
     (case remove_if (where_holds D w) [] [] (tb_rows t) of (r, rows) \<Rightarrow> (r, t\<lparr>tb_rows := rows\<rparr>))"

definition execute_delete ::
  "'d dops \<Rightarrow> delete_stmt \<Rightarrow> 'd database \<Rightarrow> 'd query_result res \<times> 'd database" where
  "execute_delete D st = on_table (ds_table_name st) (delete_rows D (ds_where_clause st))"

section \<open>Statements\<close>

fun run_statement :: "'d dops \<Rightarrow> ast \<Rightarrow> 'd database \<Rightarrow> 'd query_result res \<times> 'd database" where
  "run_statement D (CreateTable st) db = execute_create_table st db"
| "run_statement D (Insert st) db = execute_insert D st db"
| "run_statement D (Select st) db = (execute_select D st db, db)"
| "run_statement D (Update st) db = execute_update D st db"
| "run_statement D (Delete st) db = execute_delete D st db"
| "run_statement D Other_Node db = (Inl (SQLValidationException ''Unknown statement type''), db)"

definition error_text :: "qerr \<Rightarrow> string" where
  "error_text e = (case e of StdException m \<Rightarrow> ''Execution error: '' @ m | _ \<Rightarrow> what e)"

definition execute :: "'d dops \<Rightarrow> ast \<Rightarrow> 'd database \<Rightarrow> ('d query_result \<times> 'd database) option" where
  "execute D a db =
     (case run_statement D a db of
        (Inr r, db') \<Rightarrow> Some (r, db')
      | (Inl e, db') \<Rightarrow>
          if e = UB then None
          else Some (empty_result\<lparr>qr_success := False, qr_error_message := error_text e\<rparr>, db'))"

end
