(* ===== verification/Query_Correct.thy ===== *)
theory Query_Correct
  imports Query_Engine
begin

text \<open>
  Properties of the query engine: the shape of every reachable database, the constraints that
  \<open>INSERT\<close>, \<open>DELETE\<close> and successful \<open>UPDATE\<close> statements keep, and what each statement does to the
  rows of its table.
\<close>

section \<open>Schemas\<close>

abbreviation column_names :: "'d table \<Rightarrow> string set" where
  "column_names t \<equiv> cd_name ` set (ts_columns (tb_schema t))"

lemma add_column_simps [simp]:
  "ts_columns (add_column ts ic) = ts_columns ts"
  "ts_name (add_column ts ic) = ts_name ts"
  "dom (ts_column_index (add_column ts ic)) = insert (cd_name (snd ic)) (dom (ts_column_index ts))"
  "set (ts_unique_columns (add_column ts ic)) =
     set (ts_unique_columns ts) \<union> cd_name ` {c. c = snd ic \<and> cd_unique c}"
  "set (ts_not_null_columns (add_column ts ic)) =
     set (ts_not_null_columns ts) \<union> cd_name ` {c. c = snd ic \<and> cd_not_null c}"
  by (auto simp: add_column_def set_insort_insert split: prod.splits if_splits)

lemma foldl_add_column [simp]:
  "ts_columns (foldl add_column ts ics) = ts_columns ts"
  "ts_name (foldl add_column ts ics) = ts_name ts"
  "dom (ts_column_index (foldl add_column ts ics)) =
     dom (ts_column_index ts) \<union> cd_name ` snd ` set ics"
  "set (ts_unique_columns (foldl add_column ts ics)) =
     set (ts_unique_columns ts) \<union> cd_name ` {c \<in> snd ` set ics. cd_unique c}"
  "set (ts_not_null_columns (foldl add_column ts ics)) =
     set (ts_not_null_columns ts) \<union> cd_name ` {c \<in> snd ` set ics. cd_not_null c}"
  by (induction ics arbitrary: ts) auto

lemma make_schema_simps [simp]:
  "ts_columns (make_schema n cols) = cols"
  "ts_name (make_schema n cols) = n"
  "dom (ts_column_index (make_schema n cols)) = cd_name ` set cols"
  "set (ts_unique_columns (make_schema n cols)) = cd_name ` {c \<in> set cols. cd_unique c}"
  "set (ts_not_null_columns (make_schema n cols)) = cd_name ` {c \<in> set cols. cd_not_null c}"
proof -
  have "snd ` set (enumerate 0 cols) = set cols"
    by (metis map_snd_enumerate set_map)
  then show "ts_columns (make_schema n cols) = cols"
    "ts_name (make_schema n cols) = n"
    "dom (ts_column_index (make_schema n cols)) = cd_name ` set cols"
    "set (ts_unique_columns (make_schema n cols)) = cd_name ` {c \<in> set cols. cd_unique c}"
    "set (ts_not_null_columns (make_schema n cols)) = cd_name ` {c \<in> set cols. cd_not_null c}"
    by (simp_all add: make_schema_def foldl_add_column)
qed

text \<open>A table as the engine keeps it under a name.\<close>

definition table_shape :: "string \<Rightarrow> 'd table \<Rightarrow> bool" where
  "table_shape name t \<longleftrightarrow> name \<noteq> [] \<and> ts_columns (tb_schema t) \<noteq> [] \<and>
     tb_schema t = make_schema name (ts_columns (tb_schema t)) \<and>
     (\<forall>row \<in> set (tb_rows t). dom row \<subseteq> column_names t)"

lemma table_shape_index: "table_shape n t \<Longrightarrow> dom (ts_column_index (tb_schema t)) = column_names t"
  unfolding table_shape_def by (metis make_schema_simps(3))

lemma validate_column_ok:
  "table_shape n t \<Longrightarrow> validate_column_exists c t = Inr u \<longleftrightarrow> c \<in> column_names t"
  using table_shape_index [of n t] by (auto simp: validate_column_exists_def)

section \<open>The loops keep the schema\<close>

lemma insert_rows_schema [simp]: "tb_schema (snd (insert_rows D cols vss n t)) = tb_schema t"
  by (induction D cols vss n t rule: insert_rows.induct) (auto split: sum.splits)

lemma update_rows_schema [simp]: "tb_schema (snd (update_rows D st t dn rest n)) = tb_schema t"
  by (induction D st t dn rest n rule: update_rows.induct)
    (auto split: sum.splits prod.splits bool.splits)

section \<open>Rows stay within the columns\<close>

lemma fill_explicit_dom:
  "fill_explicit D t ps row = Inr row' \<Longrightarrow> table_shape n t \<Longrightarrow> dom row \<subseteq> column_names t \<Longrightarrow>
     dom row' \<subseteq> column_names t"
  by (induction D t ps row rule: fill_explicit.induct)
    (auto simp: rbind_Inr validate_column_ok)

lemma fill_defaults_dom:
  "fill_defaults D cs row = Inr row' \<Longrightarrow> dom row' = dom row \<union> cd_name ` set cs"
proof (induction cs arbitrary: row)
  case (Cons c cs)
  show ?case
  proof (cases "row (cd_name c)")
    case None
    then obtain v where "fill_defaults D cs (row(cd_name c \<mapsto> v)) = Inr row'"
      using Cons(2) by (auto simp: rbind_Inr split: if_splits)
    from Cons.IH [OF this] show ?thesis by auto
  qed (use Cons in auto)
qed simp

lemma fill_positional_dom:
  "fill_positional D ps row = Inr row' \<Longrightarrow> dom row' = dom row \<union> cd_name ` fst ` set ps"
proof (induction D ps row rule: fill_positional.induct)
  case (2 D c e ps row)
  then obtain v where "fill_positional D ps (row(cd_name c \<mapsto> v)) = Inr row'"
    by (auto simp: rbind_Inr)
  from 2(1) [OF this] show ?case by auto
qed simp

text \<open>A row that an \<open>INSERT\<close> builds has exactly the columns of its table.\<close>

lemma build_row_dom:
  assumes "build_row D cols t vs = Inr row" "table_shape n t"
  shows "dom row = column_names t"
proof (cases "cols = []")
  case True
  with assms(1) have "length vs = length (ts_columns (tb_schema t))"
    and "fill_positional D (zip (ts_columns (tb_schema t)) vs) Map.empty = Inr row"
    by (auto simp: build_row_def split: if_splits)
  then show ?thesis
    by (auto dest!: fill_positional_dom simp: image_image) (force simp: set_zip in_set_conv_nth)+
next
  case False
  with assms(1) obtain r where "fill_explicit D t (zip cols vs) Map.empty = Inr r"
    and "fill_defaults D (ts_columns (tb_schema t)) r = Inr row"
    by (auto simp: build_row_def rbind_Inr split: if_splits)
  with assms(2) show ?thesis
    using fill_explicit_dom [of D t "zip cols vs" Map.empty r n] fill_defaults_dom [of D _ r row]
    by auto
qed

lemma insert_rows_dom:
  "table_shape nm t \<Longrightarrow> table_shape nm (snd (insert_rows D cols vss n t))"
proof (induction D cols vss n t rule: insert_rows.induct)
  case (2 D cols vs vss n t)
  show ?case
  proof (cases "build_row D cols t vs")
    case (Inr row)
    then have "table_shape nm (t\<lparr>tb_rows := tb_rows t @ [row]\<rparr>)"
      using 2(2) build_row_dom [OF Inr 2(2)] by (auto simp: table_shape_def)
    with Inr 2 show ?thesis by (auto split: sum.splits)
  qed (use 2 in simp)
qed simp

lemma assign_columns_dom:
  "table_shape nm t \<Longrightarrow> dom row \<subseteq> column_names t \<Longrightarrow>
     dom (snd (assign_columns D t as row)) \<subseteq> column_names t"
proof (induction as arbitrary: row)
  case (Cons a as)
  obtain c e where a: "a = (c, e)" by (cases a)
  show ?case
  proof (cases "validate_column_exists c t")
    case (Inr u)
    with Cons.prems(1) have "c \<in> column_names t" by (simp add: validate_column_ok)
    then have "dom (row(c \<mapsto> v)) \<subseteq> column_names t" for v using Cons.prems(2) by auto
    with Inr Cons a show ?thesis by (auto split: sum.splits)
  qed (use Cons.prems a in simp)
qed simp

lemma update_rows_dom:
  "table_shape nm t \<Longrightarrow> \<forall>r \<in> set (dn @ rest). dom r \<subseteq> column_names t \<Longrightarrow>
     table_shape nm (snd (update_rows D st t dn rest n))"
proof (induction rest arbitrary: dn n)
  case (Cons row rest)
  have "dom (snd (assign_columns D t (us_assignments st) row)) \<subseteq> column_names t"
    using Cons.prems by (intro assign_columns_dom) auto
  then obtain a row' where a: "assign_columns D t (us_assignments st) row = (a, row')"
    and row': "dom row' \<subseteq> column_names t" by (metis prod.exhaust_sel)
  have here: "table_shape nm (t\<lparr>tb_rows := dn @ x # rest\<rparr>)" if "dom x \<subseteq> column_names t" for x
    using Cons.prems that by (simp add: table_shape_def ball_Un)
  show ?case
  proof (cases "where_holds D (us_where_clause st) row")
    case (Inr b)
    show ?thesis
    proof (cases b)
      case True
      have "table_shape nm (snd (update_rows D st t (dn @ [row']) rest (n + 1)))"
        using Cons.prems row' by (intro Cons.IH) auto
      with Inr True a here [OF row'] show ?thesis
        by (auto split: sum.splits)
    next
      case False
      have "table_shape nm (snd (update_rows D st t (dn @ [row]) rest n))"
        using Cons.prems by (intro Cons.IH) auto
      with Inr False show ?thesis by simp
    qed
  qed (use here [of row] Cons.prems in simp)
qed (simp add: table_shape_def)

text \<open>
  What \<open>remove_if\<close> leaves, also when the predicate throws: every row is an old one or an emptied
  one, and a symmetric relation between distinct rows that emptied rows satisfy is kept.
\<close>

lemma remove_if_set:
  "set (snd (remove_if p kept gap xs)) \<subseteq> insert Map.empty (set kept \<union> set gap \<union> set xs)"
proof (induction p kept gap xs rule: remove_if.induct)
  case (2 p kept gap x xs)
  have tl: "set (tl gap) \<subseteq> set gap" by (cases gap) auto
  show ?case
  proof (cases "p x")
    case (Inr b)
    with 2(1,2,3) [of b] tl show ?thesis by (cases b; cases "gap = []") auto
  qed auto
qed auto

lemma remove_if_pairwise:
  assumes sym: "\<And>a b. R a b \<Longrightarrow> R b a" and emp: "\<And>a. R a Map.empty"
  shows "sorted_wrt R (kept @ gap @ xs) \<Longrightarrow> sorted_wrt R (snd (remove_if p kept gap xs))"
proof (induction p kept gap xs rule: remove_if.induct)
  case (2 p kept gap x xs)
  have emp': "R Map.empty a" for a using sym emp by blast
  show ?case
  proof (cases "p x")
    case (Inr b)
    show ?thesis
    proof (cases b)
      case True
      with 2 Inr show ?thesis by simp
    next
      case False
      show ?thesis
      proof (cases gap)
        case (Cons g gs)
        have "sorted_wrt R ((kept @ [x]) @ (tl gap @ [Map.empty]) @ xs)"
          using 2(4) Cons by (auto simp: sorted_wrt_append emp emp' intro: sym)
        then show ?thesis using 2(3) [of b] Inr False Cons by simp
      qed (use 2 Inr False in simp)
    qed
  qed (use 2 in simp)
qed (auto simp: sorted_wrt_append)

lemma remove_if_shape:
  assumes "table_shape n t"
  shows "table_shape n (t\<lparr>tb_rows := snd (remove_if p [] [] (tb_rows t))\<rparr>)"
proof -
  have "dom row \<subseteq> column_names t" if "row \<in> set (snd (remove_if p [] [] (tb_rows t)))" for row
    using subsetD [OF remove_if_set that] assms by (auto simp: table_shape_def)
  with assms show ?thesis by (simp add: table_shape_def)
qed

lemma delete_rows_snd:
  "snd (delete_rows D w t) = t\<lparr>tb_rows := snd (remove_if (where_holds D w) [] [] (tb_rows t))\<rparr>"
  by (simp add: delete_rows_def split: prod.splits)

section \<open>Databases\<close>

definition all_tables :: "(string \<Rightarrow> 'd table \<Rightarrow> bool) \<Rightarrow> 'd database \<Rightarrow> bool" where
  "all_tables P db \<longleftrightarrow> (\<forall>n t. db_tables db n = Some t \<longrightarrow> P n t)"

lemma all_tables_put: "all_tables P db \<Longrightarrow> P n t \<Longrightarrow> all_tables P (put_table db n t)"
  by (auto simp: all_tables_def put_table_def)

lemma get_table_Inr [simp]: "get_table db n = Inr t \<longleftrightarrow> db_tables db n = Some t"
  by (auto simp: get_table_def split: option.splits)

lemma on_table_all:
  assumes "all_tables P db" "\<And>t. db_tables db name = Some t \<Longrightarrow> P name (snd (f t))"
  shows "all_tables P (snd (on_table name f db))"
  using assms by (auto simp: on_table_def intro: all_tables_put split: sum.splits prod.splits)

lemma on_table_Inr:
  "on_table name f db = (Inr r, db') \<longleftrightarrow>
     (\<exists>t n t'. name \<noteq> [] \<and> db_tables db name = Some t \<and> f t = (Inr n, t') \<and>
        db' = put_table db name t' \<and> r = empty_result\<lparr>qr_success := True, qr_rows_affected := n\<rparr>)"
  by (auto simp: on_table_def get_table_def split: sum.splits prod.splits option.splits)

lemma create_table_all:
  assumes "all_tables P db" "\<And>n cols. n \<noteq> [] \<Longrightarrow> cols \<noteq> [] \<Longrightarrow>
    P n \<lparr>tb_schema = make_schema n cols, tb_rows = []\<rparr>"
  shows "all_tables P (snd (execute_create_table st db))"
  using assms by (auto simp: execute_create_table_def create_table_def
      intro: all_tables_put split: sum.splits prod.splits if_splits)

lemma drop_table_all: "all_tables P db \<Longrightarrow> all_tables P (snd (drop_table db n))"
  by (auto simp: drop_table_def all_tables_def)

lemma run_statement_shape:
  "all_tables table_shape db \<Longrightarrow> all_tables table_shape (snd (run_statement D a db))"
proof (cases a)
  case (CreateTable st)
  assume "all_tables table_shape db"
  then show ?thesis unfolding CreateTable run_statement.simps
    by (rule create_table_all) (simp add: table_shape_def)
next
  case (Insert st)
  assume inv: "all_tables table_shape db"
  show ?thesis unfolding Insert run_statement.simps execute_insert_def
    by (rule on_table_all [OF inv], rule insert_rows_dom) (use inv in \<open>simp add: all_tables_def\<close>)
next
  case (Update st)
  assume inv: "all_tables table_shape db"
  show ?thesis unfolding Update run_statement.simps execute_update_def
    by (rule on_table_all [OF inv], rule update_rows_dom)
      (use inv in \<open>auto simp: all_tables_def table_shape_def\<close>)
next
  case (Delete st)
  assume inv: "all_tables table_shape db"
  have "table_shape n (snd (delete_rows D w t))" if "db_tables db n = Some t" for n w t
    using remove_if_shape inv that unfolding delete_rows_snd all_tables_def by blast
  then show ?thesis unfolding Delete run_statement.simps execute_delete_def
    by (intro on_table_all [OF inv])
qed simp_all

section \<open>Constraints\<close>

text \<open>Two rows clash on a column when both hold a value there and the values print alike.\<close>

definition clash :: "'d dops \<Rightarrow> string \<Rightarrow> 'd row \<Rightarrow> 'd row \<Rightarrow> bool" where
  "clash D c r s \<longleftrightarrow> (\<exists>v w x. r c = Some v \<and> s c = Some w \<and> v \<noteq> NULL_VAL \<and> w \<noteq> NULL_VAL \<and>
     to_string D v = Inr x \<and> to_string D w = Inr x)"

lemma clash_sym: "clash D c r s \<Longrightarrow> clash D c s r"
  unfolding clash_def by blast

lemma clash_empty [simp]: "\<not> clash D c r Map.empty" "\<not> clash D c Map.empty r"
  by (simp_all add: clash_def)

definition constraints :: "'d dops \<Rightarrow> 'd table \<Rightarrow> bool" where
  "constraints D t \<longleftrightarrow>
     (\<forall>row \<in> set (tb_rows t). \<forall>c \<in> set (ts_not_null_columns (tb_schema t)). row c \<noteq> Some NULL_VAL) \<and>
     (\<forall>c \<in> set (ts_unique_columns (tb_schema t)).
        sorted_wrt (\<lambda>r s. \<not> clash D c r s) (tb_rows t))"

lemma check_not_null_ok: "check_not_null row cs = Inr u \<longleftrightarrow> (\<forall>c \<in> set cs. row c \<noteq> Some NULL_VAL)"
  by (induction row cs rule: check_not_null.induct) auto

lemma check_against_ok:
  "check_against D c v rows = Inr u \<Longrightarrow> row c = Some v \<Longrightarrow> r \<in> set rows \<Longrightarrow> \<not> clash D c row r"
proof (induction rows)
  case (Cons s rows)
  then show ?case
    by (cases "s c") (auto simp: clash_def rbind_Inr split: if_splits)
qed simp

lemma check_unique_ok:
  "check_unique D row rows cs = Inr u \<Longrightarrow> c \<in> set cs \<Longrightarrow> r \<in> set rows \<Longrightarrow> \<not> clash D c row r"
proof (induction cs)
  case (Cons d cs)
  show ?case
  proof (cases "c = d")
    case True
    with Cons.prems show ?thesis
      by (cases "row d") (auto simp: clash_def [of D d row] rbind_Inr dest: check_against_ok
          split: if_splits)
  next
    case False
    with Cons show ?thesis by (auto simp: rbind_Inr split: option.splits if_splits)
  qed
qed simp

lemma validate_row_ok:
  assumes "validate_row D row t = Inr u"
  shows "\<forall>c \<in> set (ts_not_null_columns (tb_schema t)). row c \<noteq> Some NULL_VAL"
    and "c \<in> set (ts_unique_columns (tb_schema t)) \<Longrightarrow> r \<in> set (tb_rows t) \<Longrightarrow> \<not> clash D c row r"
  using assms by (auto simp: validate_row_def rbind_Inr check_not_null_ok dest: check_unique_ok)

lemma insert_rows_constraints:
  "constraints D t \<Longrightarrow> constraints D (snd (insert_rows D cols vss n t))"
proof (induction D cols vss n t rule: insert_rows.induct)
  case (2 D cols vs vss n t)
  show ?case
  proof (cases "build_row D cols t vs")
    case (Inr row)
    show ?thesis
    proof (cases "validate_row D row t")
      case v: (Inr u)
      have "constraints D (t\<lparr>tb_rows := tb_rows t @ [row]\<rparr>)"
        using 2(2) validate_row_ok [OF v] by (auto simp: constraints_def sorted_wrt_append dest: clash_sym)
      with 2 Inr v show ?thesis by simp
    qed (use 2 Inr in simp)
  qed (use 2 in simp)
qed simp

text \<open>A successful \<open>UPDATE\<close> has validated every row it changed against the table as it then was.\<close>

lemma update_rows_constraints:
  "update_rows D st t dn rest n = (Inr m, t') \<Longrightarrow> constraints D (t\<lparr>tb_rows := dn @ rest\<rparr>) \<Longrightarrow>
     constraints D t'"
proof (induction rest arbitrary: dn n)
  case (Cons row rest)
  obtain a row' where a: "assign_columns D t (us_assignments st) row = (a, row')" by fastforce
  from Cons.prems(1) obtain b where b: "where_holds D (us_where_clause st) row = Inr b"
    by (cases "where_holds D (us_where_clause st) row") auto
  show ?case
  proof (cases b)
    case False
    with Cons b show ?thesis by simp
  next
    case True
    with Cons.prems(1) a b obtain u
      where v: "validate_row D row' (t\<lparr>tb_rows := dn @ row' # rest\<rparr>) = Inr u"
        and run: "update_rows D st t (dn @ [row']) rest (n + 1) = (Inr m, t')"
      by (auto split: sum.splits)
    have "constraints D (t\<lparr>tb_rows := (dn @ [row']) @ rest\<rparr>)"
      using Cons.prems(2) validate_row_ok [OF v]
      by (auto simp: constraints_def sorted_wrt_append dest: clash_sym)
    with run Cons.IH show ?thesis by blast
  qed
qed simp

lemma delete_constraints:
  assumes "constraints D t"
  shows "constraints D (t\<lparr>tb_rows := snd (remove_if p [] [] (tb_rows t))\<rparr>)"
proof -
  have "row c \<noteq> Some NULL_VAL" if "row \<in> set (snd (remove_if p [] [] (tb_rows t)))"
    "c \<in> set (ts_not_null_columns (tb_schema t))" for row c
    using subsetD [OF remove_if_set that(1)] that(2) assms by (auto simp: constraints_def)
  moreover have "sorted_wrt (\<lambda>r s. \<not> clash D c r s) (snd (remove_if p [] [] (tb_rows t)))"
    if "c \<in> set (ts_unique_columns (tb_schema t))" for c
    using that assms by (intro remove_if_pairwise) (auto simp: constraints_def dest: clash_sym)
  ultimately show ?thesis by (simp add: constraints_def)
qed

lemma run_statement_constraints:
  assumes inv: "all_tables (\<lambda>n. constraints D) db"
    and ok: "\<forall>st. a = Update st \<longrightarrow> (\<exists>r. fst (run_statement D a db) = Inr r)"
  shows "all_tables (\<lambda>n. constraints D) (snd (run_statement D a db))"
proof (cases a)
  case (CreateTable st)
  from inv show ?thesis unfolding CreateTable run_statement.simps
    by (rule create_table_all) (simp add: constraints_def)
next
  case (Insert st)
  show ?thesis unfolding Insert run_statement.simps execute_insert_def
    by (rule on_table_all [OF inv], rule insert_rows_constraints)
      (use inv in \<open>simp add: all_tables_def\<close>)
next
  case (Update st)
  with ok obtain r db' where "execute_update D st db = (Inr r, db')"
    by (metis prod.collapse run_statement.simps(4))
  moreover then obtain t n t' where "db_tables db (us_table_name st) = Some t"
    and "update_rows D st t [] (tb_rows t) 0 = (Inr n, t')"
    and "db' = put_table db (us_table_name st) t'"
    by (auto simp: execute_update_def on_table_Inr)
  moreover then have "constraints D t'"
    using inv by (elim update_rows_constraints) (simp add: all_tables_def)
  ultimately show ?thesis using inv by (simp add: Update all_tables_put)
next
  case (Delete st)
  have "constraints D (snd (delete_rows D w t))" if "db_tables db n = Some t" for n w t
    using delete_constraints inv that unfolding delete_rows_snd all_tables_def by blast
  then show ?thesis unfolding Delete run_statement.simps execute_delete_def
    by (intro on_table_all [OF inv])
qed (use inv in simp_all)

section \<open>Sessions\<close>

text \<open>
  The databases that sequences of statements reach from an empty one, whether the statements
  succeed or fail, and those reached when no \<open>UPDATE\<close> fails.
\<close>

inductive session :: "'d dops \<Rightarrow> 'd database \<Rightarrow> bool" for D where
  session_start: "session D (database_new name)"
| session_step: "session D db \<Longrightarrow> execute D a db = Some (r, db') \<Longrightarrow> session D db'"
| session_drop: "session D db \<Longrightarrow> session D (snd (drop_table db n))"

inductive clean_session :: "'d dops \<Rightarrow> 'd database \<Rightarrow> bool" for D where
  clean_start: "clean_session D (database_new name)"
| clean_step: "clean_session D db \<Longrightarrow> execute D a db = Some (r, db') \<Longrightarrow>
    (\<forall>st. a = Update st \<longrightarrow> qr_success r) \<Longrightarrow> clean_session D db'"
| clean_drop: "clean_session D db \<Longrightarrow> clean_session D (snd (drop_table db n))"

lemma execute_Some:
  "execute D a db = Some (r, db') \<Longrightarrow> db' = snd (run_statement D a db) \<and>
     (qr_success r \<longrightarrow> fst (run_statement D a db) = Inr r)"
  by (auto simp: execute_def split: prod.splits sum.splits if_splits)

lemma run_success: "fst (run_statement D a db) = Inr r \<Longrightarrow> qr_success r"
  by (cases a) (auto simp: execute_create_table_def execute_insert_def execute_update_def
      execute_delete_def execute_select_def on_table_def rbind_Inr
      split: if_splits sum.splits prod.splits)

lemma database_new_all: "all_tables P (database_new n)"
  by (simp add: all_tables_def database_new_def)

lemma session_shape_inv: "session D db \<Longrightarrow> all_tables table_shape db"
  by (induction rule: session.induct)
    (auto simp: database_new_all run_statement_shape drop_table_all dest: execute_Some)

lemma clean_session_session: "clean_session D db \<Longrightarrow> session D db"
  by (induction rule: clean_session.induct) (auto intro: session.intros)

lemma clean_session_constraints: "clean_session D db \<Longrightarrow> all_tables (\<lambda>n. constraints D) db"
proof (induction rule: clean_session.induct)
  case (clean_step db a r db')
  from execute_Some [OF clean_step(2)] clean_step(3,4) show ?case
    by (auto intro!: run_statement_constraints)
qed (simp_all add: database_new_all drop_table_all)

section \<open>INSERT\<close>

lemma build_row_rows [simp]: "build_row D cols (t\<lparr>tb_rows := x\<rparr>) vs = build_row D cols t vs"
proof -
  have "fill_explicit D (t\<lparr>tb_rows := x\<rparr>) ps row = fill_explicit D t ps row" for ps row
    by (induction ps arbitrary: row) (auto simp: validate_column_exists_def)
  then show ?thesis by (simp add: build_row_def)
qed

text \<open>Where an \<open>INSERT\<close> stops, and why.\<close>

definition insert_stops :: "'d dops \<Rightarrow> string list \<Rightarrow> 'd table \<Rightarrow> expr list \<Rightarrow> qerr \<Rightarrow> bool" where
  "insert_stops D cols t vs e \<longleftrightarrow> build_row D cols t vs = Inl e \<or>
     (\<exists>row. build_row D cols t vs = Inr row \<and> validate_row D row t = Inl e)"

lemma insert_rows_prefix:
  "insert_rows D cols vss n t = (res, t') \<Longrightarrow>
     \<exists>rows. t' = t\<lparr>tb_rows := tb_rows t @ rows\<rparr> \<and> length rows \<le> length vss \<and>
       map (build_row D cols t) (take (length rows) vss) = map Inr rows \<and>
       (case res of Inr m \<Rightarrow> length rows = length vss \<and> m = n + int (length vss)
        | Inl e \<Rightarrow> length rows < length vss \<and> insert_stops D cols t' (vss ! length rows) e)"
proof (induction vss arbitrary: n t)
  case Nil
  then show ?case by (auto intro: exI [of _ "[]"])
next
  case (Cons vs vss)
  show ?case
  proof (cases "\<exists>row u. build_row D cols t vs = Inr row \<and> validate_row D row t = Inr u")
    case True
    then obtain row u where row: "build_row D cols t vs = Inr row" "validate_row D row t = Inr u"
      by blast
    with Cons.prems have "insert_rows D cols vss (n + 1) (t\<lparr>tb_rows := tb_rows t @ [row]\<rparr>) = (res, t')"
      by simp
    from Cons.IH [OF this] obtain rows where "t' = t\<lparr>tb_rows := tb_rows t @ row # rows\<rparr>"
      "length rows \<le> length vss" "map (build_row D cols t) (take (length rows) vss) = map Inr rows"
      "case res of Inr m \<Rightarrow> length rows = length vss \<and> m = n + 1 + int (length vss)
        | Inl e \<Rightarrow> length rows < length vss \<and> insert_stops D cols t' (vss ! length rows) e"
      by auto
    with row(1) show ?thesis by (intro exI [of _ "row # rows"]) (auto split: sum.splits)
  next
    case False
    with Cons.prems show ?thesis
      by (intro exI [of _ "[]"]) (auto simp: insert_stops_def split: sum.splits)
  qed
qed

section \<open>SELECT\<close>

abbreviation matches :: "'d dops \<Rightarrow> expr option \<Rightarrow> 'd row \<Rightarrow> bool" where
  "matches D w row \<equiv> where_holds D w row = Inr True"

lemma filter_rows_Inr: "filter_rows D w rows = Inr rs \<longleftrightarrow>
    (\<forall>row \<in> set rows. \<exists>b. where_holds D w row = Inr b) \<and> rs = filter (matches D w) rows"
proof (induction rows arbitrary: rs)
  case (Cons row rows)
  show ?case
  proof (cases "where_holds D w row")
    case (Inr b)
    then show ?thesis by (cases b) (auto simp: rbind_Inr Cons.IH)
  qed simp
qed auto

abbreviation row_before :: "'d dops \<Rightarrow> 'd table \<Rightarrow> (string \<times> bool) list \<Rightarrow> 'd row \<Rightarrow> 'd row \<Rightarrow> bool" where
  "row_before D t os a b \<equiv> row_less D t os a b = Inr True"

lemma weak_order_iff: "weak_order lt xs \<longleftrightarrow> (\<forall>a \<in> set xs. \<not> lt a a) \<and>
    (\<forall>a \<in> set xs. \<forall>b \<in> set xs. \<forall>c \<in> set xs. (lt a b \<and> lt b c \<longrightarrow> lt a c) \<and>
      (\<not> lt a b \<and> \<not> lt b a \<and> \<not> lt b c \<and> \<not> lt c b \<longrightarrow> \<not> lt a c))"
  by (auto simp: weak_order_def list_all_iff)

lemma sort_insert_mset: "sort_insert lt x ys = Inr zs \<Longrightarrow> mset zs = add_mset x (mset ys)"
  by (induction ys arbitrary: zs) (auto simp: rbind_Inr split: if_splits)

lemma sort_insert_set: "sort_insert lt x ys = Inr zs \<Longrightarrow> set zs = insert x (set ys)"
  by (metis set_mset_add_mset_insert set_mset_mset sort_insert_mset)

abbreviation in_order :: "('a \<Rightarrow> 'a \<Rightarrow> bool res) \<Rightarrow> 'a list \<Rightarrow> bool" where
  "in_order lt xs \<equiv> sorted_wrt (\<lambda>a b. lt b a \<noteq> Inr True) xs"

lemma sort_insert_order:
  assumes weak: "weak_order (\<lambda>a b. lt a b = Inr True) xs" and "x \<in> set xs"
  shows "sort_insert lt x ys = Inr zs \<Longrightarrow> set ys \<subseteq> set xs \<Longrightarrow> in_order lt ys \<Longrightarrow> in_order lt zs"
proof (induction ys arbitrary: zs)
  case (Cons y ys)
  have trans: "lt a c = Inr True"
    if "lt a b = Inr True" "lt b c = Inr True" "a \<in> set xs" "b \<in> set xs" "c \<in> set xs" for a b c
    using weak that unfolding weak_order_iff by blast
  have irrefl: "lt y y \<noteq> Inr True" using weak Cons.prems(2) by (auto simp: weak_order_iff)
  from Cons.prems(1) obtain b where b: "lt x y = Inr b" by (auto simp: rbind_Inr)
  show ?case
  proof (cases b)
    case True
    then have "zs = x # y # ys" using Cons.prems(1) b by simp
    moreover have "lt z x \<noteq> Inr True" if "z \<in> set (y # ys)" for z
    proof
      assume "lt z x = Inr True"
      then have "lt z y = Inr True" using trans [of z x y] b True that Cons.prems(2) assms(2) by auto
      with that irrefl Cons.prems(3) show False by auto
    qed
    ultimately show ?thesis using Cons.prems(3) by simp
  next
    case False
    with Cons.prems(1) b obtain zs' where zs: "sort_insert lt x ys = Inr zs'" "zs = y # zs'"
      by (auto simp: rbind_Inr)
    with Cons.IH [OF zs(1)] Cons.prems b False show ?thesis by (auto simp: sort_insert_set)
  qed
qed simp

lemma sort_rows_sorts:
  assumes "weak_order (\<lambda>a b. lt a b = Inr True) all"
  shows "sort_rows lt dn xs = Inr zs \<Longrightarrow> set dn \<union> set xs \<subseteq> set all \<Longrightarrow> in_order lt dn \<Longrightarrow>
     mset zs = mset dn + mset xs \<and> in_order lt zs"
proof (induction xs arbitrary: dn)
  case (Cons x xs)
  then obtain d where d: "sort_insert lt x dn = Inr d" "sort_rows lt d xs = Inr zs"
    by (auto simp: rbind_Inr)
  moreover have "in_order lt d" using sort_insert_order [OF assms _ d(1)] Cons.prems by simp
  ultimately show ?case using Cons.IH [of d] Cons.prems(2) by (simp add: sort_insert_mset sort_insert_set)
qed simp

lemma order_rows_sorts:
  assumes "order_rows D t os rows = Inr ordered"
  shows "mset ordered = mset rows \<and> (os = [] \<longrightarrow> ordered = rows) \<and>
    in_order (row_less D t os) ordered \<and> weak_order (row_before D t os) ordered"
proof (cases "os = []")
  case True
  have "in_order (\<lambda>a b. Inr False) xs" for xs :: "'a row list" by (induction xs) auto
  with True assms show ?thesis by (simp add: order_rows_def weak_order_iff)
next
  case False
  with assms have w: "weak_order (row_before D t os) rows" and "sort_rows (row_less D t os) [] rows = Inr ordered"
    by (auto simp: order_rows_def split: if_splits)
  from sort_rows_sorts [OF w this(2)] have sorted: "mset ordered = mset rows" "in_order (row_less D t os) ordered"
    by auto
  then have "set ordered = set rows" by (metis set_mset_mset)
  with w have "weak_order (row_before D t os) ordered" by (simp only: weak_order_iff)
  with sorted False show ?thesis by simp
qed

text \<open>
  When the sort is defined: the columns of \<open>ORDER BY\<close> exist, every row has them, the values of each that
  are not null are of one type, and \<open><\<close> on doubles is a strict weak order (there is no NaN).
\<close>

fun val_kind :: "'d val \<Rightarrow> nat" where
  "val_kind NULL_VAL = 0"
| "val_kind (INT_VAL i) = 1"
| "val_kind (DOUBLE_VAL x) = 2"
| "val_kind (STRING_VAL v) = 3"
| "val_kind (BOOL_VAL b) = 4"

definition one_kind :: "'d val \<Rightarrow> 'd val \<Rightarrow> bool" where
  "one_kind u v \<longleftrightarrow> is_null u \<or> is_null v \<or> val_kind u = val_kind v"

definition uniform :: "'d table \<Rightarrow> (string \<times> bool) list \<Rightarrow> 'd row list \<Rightarrow> bool" where
  "uniform t os rows \<longleftrightarrow> (\<forall>c \<in> fst ` set os. ts_column_index (tb_schema t) c \<noteq> None \<and>
     (\<forall>a \<in> set rows. \<forall>b \<in> set rows. \<exists>u v. a c = Some u \<and> b c = Some v \<and> one_kind u v))"

definition doubles_ordered :: "'d dops \<Rightarrow> bool" where
  "doubles_ordered D \<longleftrightarrow> (\<forall>x. \<not> d_lt D x x) \<and> (\<forall>x y z. (d_lt D x y \<and> d_lt D y z \<longrightarrow> d_lt D x z) \<and>
     (\<not> d_lt D x y \<and> \<not> d_lt D y x \<and> \<not> d_lt D y z \<and> \<not> d_lt D z y \<longrightarrow> \<not> d_lt D x z))"

text \<open>The order of one column, and the order of two columns one after the other.\<close>

definition val_before :: "'d dops \<Rightarrow> bool \<Rightarrow> 'd val \<Rightarrow> 'd val \<Rightarrow> bool" where
  "val_before D desc u v \<longleftrightarrow>
     (if is_null u \<and> is_null v then False else if is_null u then \<not> desc else if is_null v then desc
      else if desc then 0 < order_cmp D u v else order_cmp D u v < 0)"

lemma val_before_weak:
  assumes "doubles_ordered D" "one_kind u v" "one_kind v w" "one_kind u w"
  shows "\<not> val_before D desc u u \<and> (val_before D desc u v \<and> val_before D desc v w \<longrightarrow> val_before D desc u w) \<and>
    (\<not> val_before D desc u v \<and> \<not> val_before D desc v u \<and> \<not> val_before D desc v w \<and>
       \<not> val_before D desc w v \<longrightarrow> \<not> val_before D desc u w)"
proof (cases u)
  case (DOUBLE_VAL x)
  have dl: "\<not> d_lt D x x" "d_lt D x y \<Longrightarrow> d_lt D y z \<Longrightarrow> d_lt D x z"
    "\<not> d_lt D x y \<Longrightarrow> \<not> d_lt D y x \<Longrightarrow> \<not> d_lt D y z \<Longrightarrow> \<not> d_lt D z y \<Longrightarrow> \<not> d_lt D x z" for x y z
    using assms(1) unfolding doubles_ordered_def by blast+
  have double: "val_before D dir (DOUBLE_VAL a) (DOUBLE_VAL b) \<longleftrightarrow> (if dir then d_lt D b a else d_lt D a b)"
    for a b dir using dl(1) [of a] dl(2) [of a b a] by (auto simp: val_before_def)
  show ?thesis
  proof (cases "v \<noteq> NULL_VAL \<and> w \<noteq> NULL_VAL")
    case True
    with assms(2,4) DOUBLE_VAL obtain y z where "v = DOUBLE_VAL y" "w = DOUBLE_VAL z"
      by (cases v; cases w) (auto simp: one_kind_def)
    with DOUBLE_VAL dl(1) [of x] dl(2,3) [of x y z] dl(2,3) [of z y x] show ?thesis
      by (cases desc) (simp_all add: double)
  next
    case False
    with DOUBLE_VAL assms(2-4) dl(1) [of x] show ?thesis
      by (cases v; cases w; cases desc) (simp_all add: val_before_def one_kind_def)
  qed
next
  case NULL_VAL
  with assms(2-4) show ?thesis by (cases v; cases w) (auto simp: val_before_def one_kind_def split: if_splits)
next
  case (INT_VAL i)
  with assms(2-4) show ?thesis by (cases v; cases w) (auto simp: val_before_def one_kind_def split: if_splits)
next
  case (STRING_VAL str)
  with assms(2-4) show ?thesis by (cases v; cases w) (auto simp: val_before_def one_kind_def split: if_splits)
next
  case (BOOL_VAL b)
  with assms(2-4) show ?thesis by (cases v; cases w) (auto simp: val_before_def one_kind_def split: if_splits)
qed

lemma weak_order_lex:
  assumes "weak_order f xs" "weak_order g xs"
  shows "weak_order (\<lambda>a b. f a b \<or> (\<not> f a b \<and> \<not> f b a \<and> g a b)) xs"
  unfolding weak_order_iff
proof (intro conjI ballI)
  note f = assms(1) [unfolded weak_order_iff, THEN conjunct2, rule_format]
    and g = assms(2) [unfolded weak_order_iff, THEN conjunct2, rule_format]
    and irrefl = assms [unfolded weak_order_iff, THEN conjunct1, rule_format]
  fix a
  assume a: "a \<in> set xs"
  then show "\<not> (f a a \<or> (\<not> f a a \<and> \<not> f a a \<and> g a a))" using irrefl by simp
  fix b c
  assume "b \<in> set xs" "c \<in> set xs"
  note in_set = a this
  note fs = f [OF in_set(1) in_set(2) in_set(3)] f [OF in_set(2) in_set(1) in_set(3)]
    f [OF in_set(1) in_set(3) in_set(2)] f [OF in_set(2) in_set(3) in_set(1)]
    f [OF in_set(3) in_set(1) in_set(2)] f [OF in_set(3) in_set(2) in_set(1)]
    f [OF in_set(1) in_set(2) in_set(1)] f [OF in_set(2) in_set(3) in_set(2)] f [OF in_set(1) in_set(3) in_set(1)]
  note gs = g [OF in_set(1) in_set(2) in_set(3)] irrefl(1) [OF in_set(1)] irrefl(1) [OF in_set(2)]
  show "(f a b \<or> (\<not> f a b \<and> \<not> f b a \<and> g a b)) \<and> (f b c \<or> (\<not> f b c \<and> \<not> f c b \<and> g b c)) \<longrightarrow>
      f a c \<or> (\<not> f a c \<and> \<not> f c a \<and> g a c)"
    using fs gs by blast
  show "\<not> (f a b \<or> (\<not> f a b \<and> \<not> f b a \<and> g a b)) \<and> \<not> (f b a \<or> (\<not> f b a \<and> \<not> f a b \<and> g b a)) \<and>
      \<not> (f b c \<or> (\<not> f b c \<and> \<not> f c b \<and> g b c)) \<and> \<not> (f c b \<or> (\<not> f c b \<and> \<not> f b c \<and> g c b)) \<longrightarrow>
      \<not> (f a c \<or> (\<not> f a c \<and> \<not> f c a \<and> g a c))"
    using fs gs by blast
qed

lemma weak_order_cong:
  assumes "\<And>a b. a \<in> set xs \<Longrightarrow> b \<in> set xs \<Longrightarrow> f a b = g a b"
  shows "weak_order f xs = weak_order g xs"
  using assms by (simp add: weak_order_iff)

lemma order_cmp_null: "order_cmp D u v \<noteq> 0 \<Longrightarrow> u \<noteq> NULL_VAL \<and> v \<noteq> NULL_VAL"
  by (cases u; cases v) auto

lemma row_less_Cons:
  assumes "ts_column_index (tb_schema t) c \<noteq> None" "a c = Some u" "b c = Some v"
    and "row_less D t os a b = Inr x" "doubles_ordered D"
  shows "row_less D t ((c, desc) # os) a b =
    Inr (val_before D desc u v \<or> (\<not> val_before D desc u v \<and> \<not> val_before D desc v u \<and> x))"
proof -
  have "\<not> d_lt D y x \<or> \<not> d_lt D x y" for x y using assms(5) unfolding doubles_ordered_def by blast
  then have "order_cmp D v u = - order_cmp D u v" by (cases u; cases v) auto
  with assms(1-4) show ?thesis
    by (cases "order_cmp D u v" "0 :: int" rule: linorder_cases)
      (simp_all add: validate_column_exists_def row_at_def val_before_def Let_def)
qed

lemma uniform_row_less:
  assumes "uniform t os rows" "doubles_ordered D"
  shows "(\<forall>a \<in> set rows. \<forall>b \<in> set rows. \<exists>x. row_less D t os a b = Inr x) \<and> weak_order (row_before D t os) rows"
  using assms(1)
proof (induction os)
  case Nil
  then show ?case by (auto simp: weak_order_iff)
next
  case (Cons od os)
  obtain c desc where od: "od = (c, desc)" by (cases od)
  have IH: "\<forall>a \<in> set rows. \<forall>b \<in> set rows. \<exists>x. row_less D t os a b = Inr x"
    "weak_order (row_before D t os) rows"
    using Cons by (simp_all add: uniform_def)
  have index: "ts_column_index (tb_schema t) c \<noteq> None"
    and vals: "a \<in> set rows \<Longrightarrow> b \<in> set rows \<Longrightarrow> \<exists>u v. a c = Some u \<and> b c = Some v \<and> one_kind u v" for a b
    using Cons.prems by (auto simp: uniform_def od)
  define before where "before a b = val_before D desc (the (a c)) (the (b c))" for a b :: "'a row"
  have kinds: "one_kind (the (a c)) (the (b c))" if "a \<in> set rows" "b \<in> set rows" for a b
    using vals [OF that] by auto
  have less: "row_less D t (od # os) a b = Inr (before a b \<or>
      (\<not> before a b \<and> \<not> before b a \<and> row_before D t os a b))" if ab: "a \<in> set rows" "b \<in> set rows" for a b
  proof -
    obtain u v x where uv: "a c = Some u" "b c = Some v" "row_less D t os a b = Inr x"
      using vals [OF ab] IH(1) ab by blast
    from row_less_Cons [OF index uv assms(2), of desc] uv show ?thesis by (simp add: before_def od)
  qed
  have "\<not> before x x \<and> (before x y \<and> before y z \<longrightarrow> before x z) \<and>
      (\<not> before x y \<and> \<not> before y x \<and> \<not> before y z \<and> \<not> before z y \<longrightarrow> \<not> before x z)"
    if "x \<in> set rows" "y \<in> set rows" "z \<in> set rows" for x y z
    unfolding before_def
    using val_before_weak [OF assms(2) kinds [OF that(1,2)] kinds [OF that(2,3)] kinds [OF that(1,3)]] .
  then have "weak_order before rows" unfolding weak_order_iff by blast
  from weak_order_lex [OF this IH(2)]
  have "weak_order (row_before D t (od # os)) rows" by (subst weak_order_cong) (auto simp: less)
  with less show ?case by blast
qed

lemma sort_insert_total:
  assumes "\<forall>y \<in> set ys. \<exists>b. lt x y = Inr b"
  shows "\<exists>zs. sort_insert lt x ys = Inr zs"
  using assms
proof (induction ys)
  case (Cons y ys)
  then obtain b zs where "lt x y = Inr b" "sort_insert lt x ys = Inr zs" by auto
  then show ?case by (cases b) simp_all
qed simp

lemma sort_rows_total:
  "\<forall>a \<in> set dn \<union> set xs. \<forall>b \<in> set dn \<union> set xs. \<exists>x. lt a b = Inr x \<Longrightarrow> \<exists>zs. sort_rows lt dn xs = Inr zs"
proof (induction xs arbitrary: dn)
  case (Cons x xs)
  then obtain d where d: "sort_insert lt x dn = Inr d" using sort_insert_total [of dn lt x] by auto
  with Cons.prems have "\<exists>zs. sort_rows lt d xs = Inr zs" by (intro Cons.IH) (auto simp: sort_insert_set)
  with d show ?case by simp
qed simp

lemma order_rows_total:
  assumes "uniform t os rows" "doubles_ordered D"
  shows "\<exists>ordered. order_rows D t os rows = Inr ordered"
  using uniform_row_less [OF assms] sort_rows_total [of "[]" rows "row_less D t os"]
  by (simp add: order_rows_def)

text \<open>The identifiers of a select list.\<close>

fun selected_names :: "expr list \<Rightarrow> string list" where
  "selected_names [] = []"
| "selected_names (Identifier n # es) = n # selected_names es"
| "selected_names (_ # es) = selected_names es"

lemma select_columns_names:
  assumes "select_columns t es = Inr cols"
  shows "cols = (if es = [Identifier ''*''] then map cd_name (ts_columns (tb_schema t)) else selected_names es) \<and>
    (es \<noteq> [Identifier ''*''] \<longrightarrow> set cols \<subseteq> dom (ts_column_index (tb_schema t)))"
proof -
  have "select_columns_of t es = Inr cs \<Longrightarrow> cs = selected_names es \<and> set cs \<subseteq> dom (ts_column_index (tb_schema t))"
    for cs
  proof (induction es arbitrary: cs)
    case (Cons e es)
    then show ?case
      by (cases e) (auto simp: rbind_Inr validate_column_exists_def split: if_splits)
  qed simp
  with assms show ?thesis by (auto simp: select_columns_def split: if_splits)
qed

lemma project_restrict [simp]: "project cs row = row |` set cs"
proof -
  have "foldl (\<lambda>r c. case row c of None \<Rightarrow> r | Some v \<Rightarrow> r(c \<mapsto> v)) r0 cs =
      (\<lambda>c. if c \<in> set cs \<and> row c \<noteq> None then row c else r0 c)" for r0
    by (induction cs arbitrary: r0) (auto simp: fun_eq_iff split: option.splits)
  then show ?thesis by (auto simp: project_def restrict_map_def fun_eq_iff)
qed

text \<open>The rows that \<open>LIMIT\<close> and \<open>OFFSET\<close> ask for; a negative limit asks for all of them.\<close>

definition window :: "int \<Rightarrow> int \<Rightarrow> 'a list \<Rightarrow> 'a list" where
  "window limit offset xs =
     (if limit < 0 then drop (nat offset) xs else take (nat limit) (drop (nat offset) xs))"

lemma map_nth_upto:
  "0 \<le> s \<Longrightarrow> hi \<le> int (length xs) \<Longrightarrow>
     map (\<lambda>i. xs ! nat i) [s..hi - 1] = take (nat (hi - s)) (drop (nat s) xs)"
  by (rule nth_equalityI) (auto simp: nth_upto nat_add_distrib)

lemma slice_rows_window:
  assumes "slice_rows limit offset xs = Inr ys" "0 \<le> offset"
  shows "ys = window limit offset xs"
proof -
  have "ys = take (nat (min (if limit = 0 then offset else if limit > 0 then offset + limit
      else int (length xs)) (int (length xs)) - offset)) (drop (nat offset) xs)"
    using assms by (subst map_nth_upto [symmetric])
      (auto simp: slice_rows_def Let_def split: if_splits)
  then show ?thesis using assms(2)
    by (auto simp: window_def min_def)
qed

section \<open>UPDATE\<close>

definition updated :: "'d dops \<Rightarrow> update_stmt \<Rightarrow> 'd table \<Rightarrow> 'd row \<Rightarrow> 'd row" where
  "updated D st t row =
     (if matches D (us_where_clause st) row then snd (assign_columns D t (us_assignments st) row)
      else row)"

lemma check_against_self:
  "check_against D c v rows = Inr u \<Longrightarrow> row \<in> set rows \<Longrightarrow> row c = Some v \<Longrightarrow> v = NULL_VAL"
proof (induction rows)
  case (Cons r rows)
  then show ?case
    by (cases "r c") (auto simp: rbind_Inr split: if_splits)
qed simp

lemma validate_self:
  assumes "validate_row D row t = Inr u" "row \<in> set (tb_rows t)" "row c = Some v"
    and c: "c \<in> set (ts_unique_columns (tb_schema t))"
  shows "v = NULL_VAL"
proof -
  have "v = NULL_VAL" if "check_unique D row (tb_rows t) cs = Inr u" "c \<in> set cs" for cs
    using that
  proof (induction cs)
    case (Cons d cs)
    then show ?case
      using assms(2,3) check_against_self [of D c v "tb_rows t" _ row]
      by (cases "row d") (auto simp: rbind_Inr split: if_splits)
  qed simp
  with assms(1) c show ?thesis by (auto simp: validate_row_def rbind_Inr)
qed

definition update_accepts :: "'d dops \<Rightarrow> update_stmt \<Rightarrow> 'd table \<Rightarrow> 'd row \<Rightarrow> bool" where
  "update_accepts D st t row \<longleftrightarrow>
     (\<exists>b. where_holds D (us_where_clause st) row = Inr b) \<and>
     (matches D (us_where_clause st) row \<longrightarrow>
        fst (assign_columns D t (us_assignments st) row) = Inr () \<and>
        (\<forall>c \<in> set (ts_not_null_columns (tb_schema t)). updated D st t row c \<noteq> Some NULL_VAL) \<and>
        (\<forall>c \<in> set (ts_unique_columns (tb_schema t)). updated D st t row c \<in> {None, Some NULL_VAL}))"

text \<open>Why an \<open>UPDATE\<close> stops at a row: \<open>t'\<close> is the table it leaves, with the row as far as it was assigned.\<close>

definition update_stops :: "'d dops \<Rightarrow> update_stmt \<Rightarrow> 'd table \<Rightarrow> 'd table \<Rightarrow> 'd row \<Rightarrow> qerr \<Rightarrow> bool" where
  "update_stops D st t t' row e \<longleftrightarrow> where_holds D (us_where_clause st) row = Inl e \<or>
     (matches D (us_where_clause st) row \<and>
        (fst (assign_columns D t (us_assignments st) row) = Inl e \<or>
         (fst (assign_columns D t (us_assignments st) row) = Inr () \<and>
          validate_row D (updated D st t row) t' = Inl e)))"

definition update_outcome ::
  "'d dops \<Rightarrow> update_stmt \<Rightarrow> 'd table \<Rightarrow> 'd row list \<Rightarrow> 'd row list \<Rightarrow> int \<Rightarrow> int res \<Rightarrow> 'd table \<Rightarrow> bool" where
  "update_outcome D st t dn rest n res t' \<longleftrightarrow>
     (case res of
        Inr m \<Rightarrow> t' = t\<lparr>tb_rows := dn @ map (updated D st t) rest\<rparr> \<and>
          m = n + int (length (filter (matches D (us_where_clause st)) rest)) \<and>
          (\<forall>row \<in> set rest. update_accepts D st t row)
      | Inl e \<Rightarrow> \<exists>k < length rest.
          t' = t\<lparr>tb_rows := dn @ map (updated D st t) (take (Suc k) rest) @ drop (Suc k) rest\<rparr> \<and>
          (\<forall>row \<in> set (take k rest). update_accepts D st t row) \<and> update_stops D st t t' (rest ! k) e)"

lemma update_outcome_Cons:
  assumes "update_accepts D st t row"
    and "update_outcome D st t (dn @ [updated D st t row]) rest
      (if matches D (us_where_clause st) row then n + 1 else n) res t'"
  shows "update_outcome D st t dn (row # rest) n res t'"
proof (cases res)
  case (Inl e)
  with assms(2) obtain k where "k < length rest"
    "t' = t\<lparr>tb_rows := dn @ map (updated D st t) (take (Suc (Suc k)) (row # rest)) @ drop (Suc (Suc k)) (row # rest)\<rparr>"
    "\<forall>x \<in> set (take k rest). update_accepts D st t x" "update_stops D st t t' (rest ! k) e"
    by (auto simp: update_outcome_def)
  with Inl assms(1) show ?thesis
    unfolding update_outcome_def by (simp del: take_Suc_Cons drop_Suc_Cons) (intro exI [of _ "Suc k"], simp)
qed (use assms in \<open>auto simp: update_outcome_def split: if_splits\<close>)

lemma update_rows_outcome:
  "update_rows D st t dn rest n = (res, t') \<Longrightarrow> update_outcome D st t dn rest n res t'"
proof (induction rest arbitrary: dn n)
  case (Cons row rest)
  obtain a row' where a: "assign_columns D t (us_assignments st) row = (a, row')" by fastforce
  show ?case
  proof (cases "\<exists>u. matches D (us_where_clause st) row \<and> a = Inr () \<and>
        validate_row D row' (t\<lparr>tb_rows := dn @ row' # rest\<rparr>) = Inr u")
    case True
    then obtain u where m: "matches D (us_where_clause st) row" "a = Inr ()"
      and v: "validate_row D row' (t\<lparr>tb_rows := dn @ row' # rest\<rparr>) = Inr u" by blast
    have "row' c \<in> {None, Some NULL_VAL}" if "c \<in> set (ts_unique_columns (tb_schema t))" for c
      using validate_self [OF v, of c] that by (cases "row' c") auto
    then have "update_accepts D st t row"
      using m a validate_row_ok(1) [OF v]
      by (auto simp: update_accepts_def updated_def)
    moreover have "update_rows D st t (dn @ [row']) rest (n + 1) = (res, t')"
      using Cons.prems m a v by simp
    moreover have "updated D st t row = row'" using m a by (simp add: updated_def)
    ultimately show ?thesis using Cons.IH [of "dn @ [row']" "n + 1"] m
      by (intro update_outcome_Cons) simp_all
  next
    case stop: False
    show ?thesis
    proof (cases "where_holds D (us_where_clause st) row = Inr False")
      case True
      then have "updated D st t row = row" "update_accepts D st t row"
        by (auto simp: updated_def update_accepts_def intro: exI [of _ False])
      with Cons.IH [of "dn @ [row]" n] Cons.prems True show ?thesis
        by (intro update_outcome_Cons) simp_all
    next
      case False
      with stop Cons.prems a
      have "\<exists>e. res = Inl e \<and> t' = t\<lparr>tb_rows := dn @ updated D st t row # rest\<rparr> \<and> update_stops D st t t' row e"
        by (auto simp: updated_def update_stops_def split: sum.splits bool.splits)
      then show ?thesis by (auto simp: update_outcome_def intro!: exI [of _ 0])
    qed
  qed
qed (auto simp: update_outcome_def)

section \<open>DELETE\<close>

lemma remove_if_total:
  "\<forall>x \<in> set xs. \<exists>b. p x = Inr b \<Longrightarrow>
     remove_if p kept gap xs =
       (Inr (int (length gap + length (filter (\<lambda>x. p x = Inr True) xs))),
        kept @ filter (\<lambda>x. p x \<noteq> Inr True) xs)"
proof (induction xs arbitrary: kept gap)
  case (Cons x xs)
  then obtain b where "p x = Inr b" by auto
  with Cons show ?case by (cases b; cases gap) auto
qed simp

lemma remove_if_throws:
  "\<not> (\<forall>x \<in> set xs. \<exists>b. p x = Inr b) \<Longrightarrow>
     \<exists>e. fst (remove_if p kept gap xs) = Inl e \<and>
       length (snd (remove_if p kept gap xs)) = length kept + length gap + length xs \<and>
       set kept \<union> {x \<in> set xs. p x \<noteq> Inr True} \<subseteq> set (snd (remove_if p kept gap xs))"
proof (induction xs arbitrary: kept gap)
  case (Cons x xs)
  show ?case
  proof (cases "p x")
    case (Inr b)
    with Cons.prems have more: "\<not> (\<forall>x \<in> set xs. \<exists>b. p x = Inr b)" by auto
    show ?thesis
    proof (cases b)
      case True
      with Inr Cons.IH [OF more, of kept "gap @ [x]"] show ?thesis by auto
    next
      case False
      with Inr Cons.IH [OF more, of "kept @ [x]"] show ?thesis
        by (cases gap) (auto simp: add.commute)
    qed
  qed auto
qed simp

section \<open>Properties\<close>

text \<open>Whole numbers in the place of doubles, for the examples.\<close>

definition whole :: "int dops" where
  "whole = \<lparr>d_of_i64 = id, d_to_i64 = (\<lambda>x. if fits_i64 x then Some x else None),
     d_add = (+), d_sub = (-), d_mul = (*), d_div = (div), d_neg = uminus, d_eq = (=), d_lt = (<),
     d_le = (\<le>), d_stod = stoll, d_to_string = show_int\<rparr>"

abbreviation "ex_id \<equiv> \<lparr>cd_name = ''id'', cd_type = T_INT, cd_not_null = True, cd_primary_key = True,
  cd_unique = True, cd_default_value = []\<rparr>"
abbreviation "ex_name \<equiv> \<lparr>cd_name = ''name'', cd_type = T_VARCHAR, cd_not_null = False,
  cd_primary_key = False, cd_unique = False, cd_default_value = []\<rparr>"
abbreviation "ex_row a b \<equiv> [''id'' \<mapsto> STRING_VAL a, ''name'' \<mapsto> STRING_VAL b] :: int row"
abbreviation "ex_table rows \<equiv> \<lparr>tb_schema = make_schema ''t'' [ex_id, ex_name], tb_rows = rows\<rparr>"
abbreviation "ex_db rows \<equiv> put_table (database_new ''db'') ''t'' (ex_table rows) :: int database"
abbreviation "ex_create \<equiv> CreateTable \<lparr>ct_table_name = ''t'', ct_columns = [ex_id, ex_name]\<rparr>"
abbreviation "ex_insert vss \<equiv> \<lparr>is_table_name = ''t'', is_columns = [], is_values = vss\<rparr>"
abbreviation "ex_values a b \<equiv> [Literal a T_NUMBER, Literal b T_STRING]"

lemmas ex_simps = execute_def execute_create_table_def create_table_def table_exists_def
  database_new_def put_table_def execute_insert_def on_table_def get_table_def build_row_def
  convert_to_type_def validate_row_def empty_result_def make_schema_def add_column_def
  insort_insert_key_def

lemma ex_created: "execute whole ex_create (database_new ''db'') =
    Some (empty_result\<lparr>qr_success := True, qr_rows_affected := 0\<rparr>, ex_db [])"
  by (simp add: ex_simps)

lemma ex_inserted: "execute whole (Insert (ex_insert [ex_values ''1'' ''a''])) (ex_db []) =
    Some (empty_result\<lparr>qr_success := True, qr_rows_affected := 1\<rparr>, ex_db [ex_row ''1'' ''a''])"
  by (simp add: ex_simps)

lemma ex_clean: "clean_session whole (ex_db [ex_row ''1'' ''a''])"
  by (rule clean_step [OF clean_step [OF clean_start ex_created] ex_inserted]) simp_all

lemma ex_lookup: "db_tables (ex_db rows) ''t'' = Some (ex_table rows)"
  by (simp add: put_table_def)

text \<open>
  C16. The shape of every reachable database. Whatever statements have run, and whether they
  succeeded or threw half way, every table is stored under its non-empty name, its index and its
  constraint sets are those of the declared columns, and no row has a value under a name that is
  not a column of the table.
\<close>

theorem session_shape:
  assumes "session D db" "db_tables db n = Some t"
  shows "n \<noteq> [] \<and> ts_name (tb_schema t) = n \<and> ts_columns (tb_schema t) \<noteq> [] \<and>
    dom (ts_column_index (tb_schema t)) = column_names t \<and>
    set (ts_unique_columns (tb_schema t)) = cd_name ` {c \<in> set (ts_columns (tb_schema t)). cd_unique c} \<and>
    set (ts_not_null_columns (tb_schema t)) =
      cd_name ` {c \<in> set (ts_columns (tb_schema t)). cd_not_null c} \<and>
    (\<forall>row \<in> set (tb_rows t). dom row \<subseteq> column_names t)"
proof -
  have shape: "table_shape n t" using session_shape_inv [OF assms(1)] assms(2)
    by (simp add: all_tables_def)
  define cols where "cols = ts_columns (tb_schema t)"
  from shape have "tb_schema t = make_schema n cols" by (simp add: table_shape_def cols_def)
  with shape show ?thesis by (simp add: table_shape_def)
qed

theorem session_shape_witness:
  "ts_name (tb_schema (ex_table [ex_row ''1'' ''a''])) = ''t'' \<and>
   dom (ex_row ''1'' ''a'') \<subseteq> {''id'', ''name''}"
  using session_shape [OF clean_session_session [OF ex_clean] ex_lookup] by simp

text \<open>
  C17. Constraints. As long as every \<open>UPDATE\<close> that ran has succeeded, no row of any table holds a
  null in a column declared \<open>NOT NULL\<close>, and no two rows hold values that print alike in a column
  declared \<open>UNIQUE\<close>. Statements of the other kinds keep this also when they fail.
\<close>

theorem constraints_hold:
  assumes "clean_session D db" "db_tables db n = Some t" "col \<in> set (ts_columns (tb_schema t))"
  shows "(cd_not_null col \<longrightarrow> (\<forall>row \<in> set (tb_rows t). row (cd_name col) \<noteq> Some NULL_VAL)) \<and>
    (cd_unique col \<longrightarrow> (\<forall>j < length (tb_rows t). \<forall>i < j.
      \<not> clash D (cd_name col) (tb_rows t ! i) (tb_rows t ! j)))"
proof -
  have c: "constraints D t" and shape: "table_shape n t"
    using clean_session_constraints [OF assms(1)] session_shape_inv [OF clean_session_session [OF assms(1)]]
      assms(2) by (auto simp: all_tables_def)
  define cols where "cols = ts_columns (tb_schema t)"
  from shape have s: "tb_schema t = make_schema n cols" by (simp add: table_shape_def cols_def)
  with c assms(3) show ?thesis by (auto simp: constraints_def sorted_wrt_iff_nth_less)
qed

theorem constraints_hold_witness:
  "ex_row ''1'' ''a'' ''id'' \<noteq> Some NULL_VAL"
  using constraints_hold [OF ex_clean ex_lookup, of ex_id] by simp

text \<open>
  C18. \<open>INSERT\<close>. The rows built from the value lists are appended in order, each with exactly the
  columns of the table. The statement succeeds iff all of them were appended, and reports their
  number; when it fails, the rows before the offending list stay in the table, and the error is
  the one of building or validating that list against the table as it then is.
\<close>

theorem insert_correct:
  assumes "session D db" "db_tables db (is_table_name st) = Some t"
    and "execute D (Insert st) db = Some (r, db')"
  shows "\<exists>rows.
    db' = put_table db (is_table_name st) (t\<lparr>tb_rows := tb_rows t @ rows\<rparr>) \<and>
    map (build_row D (is_columns st) t) (take (length rows) (is_values st)) = map Inr rows \<and>
    (\<forall>row \<in> set rows. dom row = column_names t) \<and>
    (qr_success r \<longleftrightarrow> length rows = length (is_values st)) \<and>
    (qr_success r \<longrightarrow> qr_rows_affected r = int (length rows)) \<and>
    (\<not> qr_success r \<longrightarrow> (\<exists>e. qr_error_message r = error_text e \<and>
       insert_stops D (is_columns st) (t\<lparr>tb_rows := tb_rows t @ rows\<rparr>)
         (is_values st ! length rows) e))"
proof -
  have shape: "table_shape (is_table_name st) t"
    using session_shape_inv [OF assms(1)] assms(2) by (simp add: all_tables_def)
  then have name: "is_table_name st \<noteq> []" by (simp add: table_shape_def)
  obtain res t' where run: "insert_rows D (is_columns st) (is_values st) 0 t = (res, t')" by fastforce
  from insert_rows_prefix [OF run] obtain rows where rows: "t' = t\<lparr>tb_rows := tb_rows t @ rows\<rparr>"
    "map (build_row D (is_columns st) t) (take (length rows) (is_values st)) = map Inr rows"
    "case res of Inr m \<Rightarrow> length rows = length (is_values st) \<and> m = 0 + int (length (is_values st))
     | Inl e \<Rightarrow> length rows < length (is_values st) \<and>
         insert_stops D (is_columns st) t' (is_values st ! length rows) e"
    by blast
  have "dom row = column_names t" if "row \<in> set rows" for row
  proof -
    from that have "Inr row \<in> set (map (build_row D (is_columns st) t) (take (length rows) (is_values st)))"
      by (simp add: rows(2))
    then show ?thesis using build_row_dom [OF _ shape] by (metis (no_types, lifting) imageE set_map)
  qed
  with run rows assms(2,3) name show ?thesis
    by (intro exI [of _ rows])
      (auto simp: execute_def execute_insert_def on_table_def get_table_def empty_result_def
        split: sum.splits if_splits)
qed

theorem insert_correct_witness:
  "\<exists>rows. ex_db [ex_row ''1'' ''a''] = put_table (ex_db []) ''t'' (ex_table rows) \<and>
     length rows = 1"
proof -
  have s: "session whole (ex_db [])"
    by (rule session_step [OF session_start ex_created])
  show ?thesis
    using insert_correct [OF s _ ex_inserted] by (auto simp: put_table_def)
qed

text \<open>
  C19. \<open>SELECT\<close>. A successful query changes nothing. Its column names are those of the table for \<open>*\<close>, and
  otherwise the identifiers of the select list, in order, all of them columns of the table (other
  expressions are dropped). Its rows are restricted to these columns and form the window given by \<open>LIMIT\<close>
  and \<open>OFFSET\<close> of a permutation of exactly the rows that satisfy the condition: in table order without
  \<open>ORDER BY\<close>; with it, no row stands before one that the comparator puts first, and the comparator is a
  strict weak order of these rows (the sort, and with it the query, is undefined otherwise). In particular
  \<open>LIMIT 0\<close> returns no rows. \<open>DISTINCT\<close>, which the documentation lists as supported, makes no difference.
\<close>

theorem select_correct:
  assumes "execute D (Select st) db = Some (r, db')" "qr_success r"
    and "db_tables db (ss_table_name st) = Some t" and "0 \<le> ss_offset st"
  shows "db' = db \<and>
    qr_column_names r = (if ss_columns st = [Identifier ''*''] then map cd_name (ts_columns (tb_schema t))
      else selected_names (ss_columns st)) \<and>
    (ss_columns st \<noteq> [Identifier ''*''] \<longrightarrow> set (qr_column_names r) \<subseteq> dom (ts_column_index (tb_schema t))) \<and>
    (\<exists>ordered. mset ordered = mset (filter (matches D (ss_where_clause st)) (tb_rows t)) \<and>
      (ss_order_by st = [] \<longrightarrow> ordered = filter (matches D (ss_where_clause st)) (tb_rows t)) \<and>
      sorted_wrt (\<lambda>a b. \<not> row_before D t (ss_order_by st) b a) ordered \<and>
      weak_order (row_before D t (ss_order_by st)) ordered \<and>
      qr_rows r = map (\<lambda>row. row |` set (qr_column_names r))
        (window (ss_limit st) (ss_offset st) ordered) \<and>
      qr_rows_affected r = int (length (qr_rows r))) \<and>
    execute D (Select (st\<lparr>ss_distinct := d\<rparr>)) db = execute D (Select st) db"
proof -
  from assms(1,2) have "db' = db" and "execute_select D st db = Inr r"
    by (auto dest: execute_Some)
  with assms(3) obtain cols filtered ordered rows where steps:
    "filter_rows D (ss_where_clause st) (tb_rows t) = Inr filtered"
    "order_rows D t (ss_order_by st) filtered = Inr ordered"
    "slice_rows (ss_limit st) (ss_offset st) ordered = Inr rows"
    "select_columns t (ss_columns st) = Inr cols"
    and r: "qr_column_names r = cols" "qr_rows r = map (project cols) rows"
    "qr_rows_affected r = int (length rows)"
    by (cases "ss_table_name st = []") (auto simp: execute_select_def rbind_Inr get_table_def)
  have f: "filtered = filter (matches D (ss_where_clause st)) (tb_rows t)"
    using steps(1) by (simp add: filter_rows_Inr)
  have "mset ordered = mset filtered \<and> (ss_order_by st = [] \<longrightarrow> ordered = filtered) \<and>
      in_order (row_less D t (ss_order_by st)) ordered \<and> weak_order (row_before D t (ss_order_by st)) ordered"
    using steps(2) by (rule order_rows_sorts)
  moreover have "rows = window (ss_limit st) (ss_offset st) ordered"
    using slice_rows_window steps(3) assms(4) by blast
  moreover have "execute D (Select (st\<lparr>ss_distinct := d\<rparr>)) db = execute D (Select st) db"
    by (simp add: execute_def execute_select_def)
  ultimately show ?thesis using \<open>db' = db\<close> r f select_columns_names [OF steps(4)] by auto
qed

text \<open>
  And a query succeeds whenever its condition can be evaluated on every row and its order is defined on
  the rows that satisfy it.
\<close>

lemma select_succeeds:
  assumes "ss_table_name st \<noteq> []" "db_tables db (ss_table_name st) = Some t"
    and "select_columns t (ss_columns st) = Inr cols"
    and "\<forall>row \<in> set (tb_rows t). \<exists>b. where_holds D (ss_where_clause st) row = Inr b"
    and "uniform t (ss_order_by st) (filter (matches D (ss_where_clause st)) (tb_rows t))" "doubles_ordered D"
    and "0 \<le> ss_offset st" "fits_i32 (ss_offset st + ss_limit st)"
  shows "\<exists>r. execute D (Select st) db = Some (r, db) \<and> qr_success r \<and> qr_column_names r = cols"
proof -
  let ?matching = "filter (matches D (ss_where_clause st)) (tb_rows t)"
  obtain ordered where ordered: "order_rows D t (ss_order_by st) ?matching = Inr ordered"
    using order_rows_total [OF assms(5,6)] by blast
  obtain rows where "slice_rows (ss_limit st) (ss_offset st) ordered = Inr rows"
    using assms(7,8) by (fastforce simp: slice_rows_def Let_def)
  moreover have "filter_rows D (ss_where_clause st) (tb_rows t) = Inr ?matching"
    using assms(4) by (simp add: filter_rows_Inr)
  ultimately show ?thesis using assms(1-3) ordered
    by (simp add: execute_def execute_select_def get_table_def)
qed

text \<open>
  A column of type \<open>INT\<close> with a default holds integers where the default was used and strings where a
  literal was given. Strings and integers count as equal in the order, so \<open>4\<close>, the default and \<open>5\<close> are no
  weakly ordered set, and sorting by this column is undefined.
\<close>

abbreviation "mx_schema \<equiv> make_schema ''t''
  [\<lparr>cd_name = ''n'', cd_type = T_INT, cd_not_null = False, cd_primary_key = False, cd_unique = False,
     cd_default_value = ''3''\<rparr>, ex_name]"
abbreviation "mx_insert cols vs \<equiv> Insert \<lparr>is_table_name = ''t'', is_columns = cols, is_values = [vs]\<rparr>"
abbreviation "mx_row v name \<equiv> [''n'' \<mapsto> v, ''name'' \<mapsto> STRING_VAL name] :: int row"
abbreviation "mx_db rows \<equiv> put_table (database_new ''db'') ''t'' \<lparr>tb_schema = mx_schema, tb_rows = rows\<rparr>"
abbreviation "mx_done rows \<equiv> Some (empty_result\<lparr>qr_success := True, qr_rows_affected := 1\<rparr>, mx_db rows)"

lemma stoll_3: "stoll ''3'' = Some 3"
  by code_simp

lemma mixed_rows_inserted:
  "execute whole (mx_insert [''n'', ''name''] [Literal ''5'' T_NUMBER, Literal ''a'' T_STRING]) (mx_db []) =
     mx_done [mx_row (STRING_VAL ''5'') ''a'']"
  "execute whole (mx_insert [''name''] [Literal ''b'' T_STRING]) (mx_db [mx_row (STRING_VAL ''5'') ''a'']) =
     mx_done [mx_row (STRING_VAL ''5'') ''a'', mx_row (INT_VAL 3) ''b'']"
  by (simp_all add: ex_simps validate_column_exists_def stoll_3 fun_upd_twist [of "''n''" "''name''"])

lemma mixed_order_undefined:
  "execute whole (Select \<lparr>ss_distinct = False, ss_columns = [Identifier ''name''], ss_table_name = ''t'',
     ss_where_clause = None, ss_order_by = [(''n'', False)], ss_limit = -1, ss_offset = 0\<rparr>)
     (mx_db [mx_row (STRING_VAL ''5'') ''a'', mx_row (INT_VAL 3) ''b'', mx_row (STRING_VAL ''4'') ''c'']) = None"
  by (simp add: execute_def execute_select_def get_table_def put_table_def select_columns_def
      validate_column_exists_def make_schema_def add_column_def where_holds_def row_at_def order_rows_def
      weak_order_def)

abbreviation "ex_select \<equiv> \<lparr>ss_distinct = False, ss_columns = [Identifier ''name''],
  ss_table_name = ''t'', ss_where_clause = None, ss_order_by = [(''id'', False)], ss_limit = 1,
  ss_offset = 0\<rparr>"

lemma ex_selected:
  "execute whole (Select ex_select) (ex_db [ex_row ''2'' ''b'', ex_row ''1'' ''a'']) =
    Some (\<lparr>qr_column_names = [''name''], qr_rows = [[''name'' \<mapsto> STRING_VAL ''a'']],
      qr_rows_affected = 1, qr_success = True, qr_error_message = []\<rparr>,
      ex_db [ex_row ''2'' ''b'', ex_row ''1'' ''a''])"
  by (auto simp: execute_def execute_select_def get_table_def put_table_def select_columns_def
      validate_column_exists_def make_schema_def add_column_def where_holds_def row_at_def order_rows_def
      weak_order_def slice_rows_def fits_i32_def fun_eq_iff restrict_map_def)

theorem select_correct_witness:
  "\<exists>ordered. mset ordered = mset [ex_row ''2'' ''b'', ex_row ''1'' ''a''] \<and>
     [[''name'' \<mapsto> STRING_VAL ''a'']] = map (\<lambda>row. row |` {''name''}) (window 1 0 ordered)"
proof -
  have all: "filter (matches whole None) xs = xs" for xs :: "int row list"
    by (simp add: where_holds_def)
  have look: "db_tables (ex_db rows) (ss_table_name ex_select) = Some (ex_table rows)" for rows
    by (simp add: put_table_def)
  have "0 \<le> ss_offset ex_select" by simp
  note result = select_correct [OF ex_selected _ look this, simplified query_result.simps, OF TrueI,
      THEN conjunct2, THEN conjunct2, THEN conjunct2, THEN conjunct1]
  from result obtain ordered where
    "mset ordered = mset (filter (matches whole (ss_where_clause ex_select)) (tb_rows (ex_table
       [ex_row ''2'' ''b'', ex_row ''1'' ''a''])))"
    "[[''name'' \<mapsto> STRING_VAL ''a'']] = map (\<lambda>row. row |` set [''name''])
       (window (ss_limit ex_select) (ss_offset ex_select) ordered)"
    by (elim exE conjE)
  then show ?thesis by (intro exI [of _ ordered]) (simp add: all)
qed

text \<open>
  C20. \<open>UPDATE\<close>. When it succeeds, exactly the rows that satisfy the condition have been rewritten,
  their number is reported, every rewritten row respects \<open>NOT NULL\<close>, and none of them holds a value
  in a unique column: a row is validated against a table that already contains it, so a value
  there clashes with itself. When it fails, there is a first offending row: all rows before it were
  accepted in this sense and have been rewritten, it has been rewritten as far as its assignments went,
  the rows behind it are as they were, and the reported error is the one of evaluating the condition on it,
  of assigning to it, or of validating it against the table that the statement leaves behind.
\<close>

theorem update_correct:
  assumes "us_table_name st \<noteq> []" "db_tables db (us_table_name st) = Some t"
    and "execute D (Update st) db = Some (r, db')"
  shows "\<exists>rows. db' = put_table db (us_table_name st) (t\<lparr>tb_rows := rows\<rparr>) \<and>
    (qr_success r \<longrightarrow>
       rows = map (updated D st t) (tb_rows t) \<and>
       qr_rows_affected r = int (length (filter (matches D (us_where_clause st)) (tb_rows t))) \<and>
       (\<forall>row \<in> set (tb_rows t). update_accepts D st t row)) \<and>
    (\<not> qr_success r \<longrightarrow> (\<exists>k < length (tb_rows t). \<exists>e.
       rows = map (updated D st t) (take (Suc k) (tb_rows t)) @ drop (Suc k) (tb_rows t) \<and>
       (\<forall>row \<in> set (take k (tb_rows t)). update_accepts D st t row) \<and>
       update_stops D st t (t\<lparr>tb_rows := rows\<rparr>) (tb_rows t ! k) e \<and>
       qr_error_message r = error_text e \<and> qr_rows_affected r = 0))"
proof -
  obtain res t' where run: "update_rows D st t [] (tb_rows t) 0 = (res, t')" by fastforce
  show ?thesis
  proof (cases res)
    case (Inr m)
    with run assms update_rows_outcome [OF run, unfolded update_outcome_def] show ?thesis
      by (auto simp: execute_def execute_update_def on_table_def get_table_def)
  next
    case (Inl e)
    from update_rows_outcome [OF run, unfolded update_outcome_def] Inl obtain k where k: "k < length (tb_rows t)"
      "t' = t\<lparr>tb_rows := map (updated D st t) (take (Suc k) (tb_rows t)) @ drop (Suc k) (tb_rows t)\<rparr>"
      "\<forall>row \<in> set (take k (tb_rows t)). update_accepts D st t row" "update_stops D st t t' (tb_rows t ! k) e"
      by auto
    have "db' = put_table db (us_table_name st) t' \<and> \<not> qr_success r \<and> qr_error_message r = error_text e \<and>
        qr_rows_affected r = 0"
      using Inl run assms
      by (auto simp: execute_def execute_update_def on_table_def get_table_def empty_result_def split: if_splits)
    with k show ?thesis
      by (intro exI [of _ "tb_rows t'"]) (simp, intro exI [of _ k], auto)
  qed
qed

abbreviation "ex_update \<equiv> \<lparr>us_table_name = ''t'', us_assignments = [(''name'', Literal ''z'' T_STRING)],
  us_where_clause = None\<rparr>"

lemma ex_updated:
  "execute whole (Update ex_update) (ex_db [ex_row ''1'' ''a'']) =
    Some (empty_result\<lparr>qr_error_message := error_text (UniqueConstraintException ''id'')\<rparr>,
      ex_db [ex_row ''1'' ''z''])"
  by (auto simp: execute_def execute_update_def on_table_def get_table_def put_table_def
      validate_column_exists_def validate_row_def make_schema_def add_column_def where_holds_def
      insort_insert_key_def empty_result_def fun_eq_iff)

theorem update_correct_witness:
  "\<exists>rows k e. ex_db [ex_row ''1'' ''z''] = put_table (ex_db [ex_row ''1'' ''a'']) ''t'' (ex_table rows) \<and>
     k < (1 :: nat) \<and> update_stops whole ex_update (ex_table [ex_row ''1'' ''a'']) (ex_table rows)
       ([ex_row ''1'' ''a''] ! k) e \<and> error_text (UniqueConstraintException ''id'') = error_text e"
proof -
  have look: "db_tables (ex_db rows) (us_table_name ex_update) = Some (ex_table rows)" for rows
    by (simp add: put_table_def)
  have nonempty: "us_table_name ex_update \<noteq> []" by simp
  show ?thesis using update_correct [OF nonempty look ex_updated]
    by (auto simp: empty_result_def)
qed

text \<open>
  An \<open>UPDATE\<close> that matches a row which afterwards holds a value in a unique column never
  succeeds, whatever it assigns.
\<close>

lemma update_unique_table_fails:
  assumes "us_table_name st \<noteq> []" "db_tables db (us_table_name st) = Some t"
    and "execute D (Update st) db = Some (r, db')"
    and "row \<in> set (tb_rows t)" "matches D (us_where_clause st) row"
    and "c \<in> set (ts_unique_columns (tb_schema t))" "updated D st t row c = Some v" "v \<noteq> NULL_VAL"
  shows "\<not> qr_success r"
proof
  obtain res t' where run: "update_rows D st t [] (tb_rows t) 0 = (res, t')" by fastforce
  assume "qr_success r"
  with assms(1-3) run obtain m where "res = Inr m"
    by (cases res) (auto simp: execute_def execute_update_def on_table_def get_table_def
        split: if_splits)
  with update_rows_outcome [OF run, unfolded update_outcome_def] assms(4) have "update_accepts D st t row" by simp
  with assms(5-8) show False by (auto simp: update_accepts_def)
qed

text \<open>
  C21. \<open>DELETE\<close>. It succeeds iff the condition can be evaluated on every row; then exactly the rows
  that satisfy it are gone, the others keep their order, and the number of deleted rows is
  reported. When the condition throws, the table keeps its number of rows and every row that does
  not satisfy the condition is still there.
\<close>

theorem delete_correct:
  assumes "ds_table_name st \<noteq> []" "db_tables db (ds_table_name st) = Some t"
    and "execute D (Delete st) db = Some (r, db')"
  shows "\<exists>rows. db' = put_table db (ds_table_name st) (t\<lparr>tb_rows := rows\<rparr>) \<and>
    (qr_success r \<longleftrightarrow> (\<forall>row \<in> set (tb_rows t). \<exists>b. where_holds D (ds_where_clause st) row = Inr b)) \<and>
    (qr_success r \<longrightarrow>
       rows = filter (\<lambda>row. \<not> matches D (ds_where_clause st) row) (tb_rows t) \<and>
       qr_rows_affected r = int (length (tb_rows t)) - int (length rows)) \<and>
    (\<not> qr_success r \<longrightarrow> length rows = length (tb_rows t) \<and>
       {row \<in> set (tb_rows t). \<not> matches D (ds_where_clause st) row} \<subseteq> set rows)"
proof -
  let ?p = "where_holds D (ds_where_clause st)"
  have count: "length (filter P xs) + length (filter (\<lambda>x. \<not> P x) xs) = length xs"
    for P and xs :: "'a row list" by (rule sum_length_filter_compl)
  obtain res rows where run: "remove_if ?p [] [] (tb_rows t) = (res, rows)" by fastforce
  show ?thesis
  proof (cases "\<forall>row \<in> set (tb_rows t). \<exists>b. ?p row = Inr b")
    case True
    with run assms remove_if_total [OF True, of "[]" "[]"] count [of "matches D (ds_where_clause st)" "tb_rows t"]
    show ?thesis
      by (auto simp: execute_def execute_delete_def delete_rows_def on_table_def get_table_def)
  next
    case False
    from remove_if_throws [OF False, of "[]" "[]"] run obtain e where "res = Inl e"
      "length rows = length (tb_rows t)" "{x \<in> set (tb_rows t). ?p x \<noteq> Inr True} \<subseteq> set rows"
      by auto
    moreover from this(1) run assms
    have "db' = put_table db (ds_table_name st) (t\<lparr>tb_rows := rows\<rparr>)" "\<not> qr_success r"
      by (auto simp: execute_def execute_delete_def delete_rows_def on_table_def get_table_def
          empty_result_def split: if_splits)
    ultimately show ?thesis using False by (intro exI [of _ rows]) simp
  qed
qed

abbreviation "ex_delete \<equiv> \<lparr>ds_table_name = ''t'', ds_where_clause =
  Some (BinaryOp (Identifier ''name'') (Literal ''a'' T_STRING) T_EQUALS)\<rparr>"

lemma ex_deleted:
  "execute whole (Delete ex_delete) (ex_db [ex_row ''1'' ''a'', ex_row ''2'' ''b'']) =
    Some (empty_result\<lparr>qr_success := True, qr_rows_affected := 1\<rparr>, ex_db [ex_row ''2'' ''b''])"
  by (simp add: execute_def execute_delete_def delete_rows_def on_table_def get_table_def
      put_table_def where_holds_def)

theorem delete_correct_witness:
  "\<exists>rows. ex_db [ex_row ''2'' ''b''] =
     put_table (ex_db [ex_row ''1'' ''a'', ex_row ''2'' ''b'']) ''t'' (ex_table rows) \<and>
     (1 :: int) = 2 - int (length rows)"
proof -
  have look: "db_tables (ex_db rows) (ds_table_name ex_delete) = Some (ex_table rows)" for rows
    by (simp add: put_table_def)
  have nonempty: "ds_table_name ex_delete \<noteq> []" by simp
  show ?thesis using delete_correct [OF nonempty look ex_deleted] by auto
qed

text \<open>
  Numeric literals. A number written in an \<open>INSERT\<close> is stored as a string whatever the type of
  its column, and a number written in a condition is compared as a string: against a column that
  holds an integer every comparison with it but \<open><>\<close> is false, and against a column that holds a
  string only \<open>=\<close> and \<open><>\<close> can be true.
\<close>

theorem number_literals:
  assumes "op \<in> {T_EQUALS, T_LESS, T_LESS_EQUAL, T_GREATER, T_GREATER_EQUAL}"
  shows "literal_value D (Literal s T_NUMBER) = Inr (STRING_VAL s) \<and>
    (row c = Some (INT_VAL i) \<longrightarrow>
       evaluate_where_clause D (BinaryOp (Identifier c) (Literal s T_NUMBER) op) row = Inr False \<and>
       evaluate_where_clause D (BinaryOp (Identifier c) (Literal s T_NUMBER) T_NOT_EQUALS) row
         = Inr True) \<and>
    (row c = Some (STRING_VAL k) \<longrightarrow>
       evaluate_where_clause D (BinaryOp (Identifier c) (Literal s T_NUMBER) op) row =
         Inr (op = T_EQUALS \<and> k = s))"
  using assms by (auto simp: convert_to_type_def)

theorem number_literals_witness:
  "evaluate_where_clause whole (BinaryOp (Identifier ''id'') (Literal ''5'' T_NUMBER) T_LESS)
     [''id'' \<mapsto> INT_VAL 3] = Inr False"
  using number_literals [of T_LESS whole "''5''" "[''id'' \<mapsto> INT_VAL 3]" "''id''" 3 "[]"] by simp

end
