(* ===== verification/Sql_Lexer.thy ===== *)
theory Sql_Lexer
  imports Sql_Ast
begin

text \<open>
  The lexer of \<open>src/sql_lexer.cpp\<close> (class \<open>SQLLexer\<close>), character by character, with the positions
  it gives to tokens and the exceptions it throws. Characters are classified as in the C
  locale; bytes from 0x80 on, on which those calls are undefined, belong to no class. Lines and columns are unbounded here; the theory of the grammar shows that they stay below
  the length of the input plus two, so that the \<open>int\<close> members cannot overflow on inputs shorter
  than \<open>2 ^ 31 - 2\<close> bytes.
\<close>

section \<open>The code\<close>

record token =
  tk_type :: token_type
  tk_value :: string
  tk_line :: nat
  tk_column :: nat

definition Token :: "token_type \<Rightarrow> string \<Rightarrow> nat \<Rightarrow> nat \<Rightarrow> token" where
  "Token ty v l c = \<lparr>tk_type = ty, tk_value = v, tk_line = l, tk_column = c\<rparr>"

record lexer =
  lx_input :: string
  lx_pos :: nat
  lx_line :: nat
  lx_column :: nat

definition lexer_new :: "string \<Rightarrow> lexer" where
  "lexer_new input = \<lparr>lx_input = input, lx_pos = 0, lx_line = 1, lx_column = 1\<rparr>"

definition keyword_table :: "(string \<times> token_type) list" where
  "keyword_table =
     [(''SELECT'', T_SELECT), (''FROM'', T_FROM), (''WHERE'', T_WHERE), (''INSERT'', T_INSERT),
      (''INTO'', T_INTO), (''VALUES'', T_VALUES), (''UPDATE'', T_UPDATE), (''SET'', T_SET),
      (''DELETE'', T_DELETE), (''CREATE'', T_CREATE), (''TABLE'', T_TABLE), (''DROP'', T_DROP),
      (''ALTER'', T_ALTER), (''ADD'', T_ADD), (''MODIFY'', T_MODIFY), (''PRIMARY'', T_PRIMARY),
      (''KEY'', T_KEY), (''NOT'', T_NOT_KEYWORD), (''NULL'', T_NULL_KEYWORD),
      (''UNIQUE'', T_UNIQUE), (''FOREIGN'', T_FOREIGN), (''REFERENCES'', T_REFERENCES),
      (''DEFAULT'', T_DEFAULT), (''CHECK'', T_CHECK), (''CONSTRAINT'', T_CONSTRAINT),
      (''AND'', T_AND), (''OR'', T_OR), (''IN'', T_IN), (''BETWEEN'', T_BETWEEN),
      (''LIKE'', T_LIKE), (''IS'', T_IS), (''ORDER'', T_ORDER), (''BY'', T_BY),
      (''GROUP'', T_GROUP), (''HAVING'', T_HAVING), (''LIMIT'', T_LIMIT),
      (''OFFSET'', T_OFFSET), (''DISTINCT'', T_DISTINCT), (''INNER'', T_INNER),
      (''LEFT'', T_LEFT), (''RIGHT'', T_RIGHT), (''FULL'', T_FULL), (''OUTER'', T_OUTER),
      (''JOIN'', T_JOIN), (''ON'', T_ON), (''USING'', T_USING), (''UNION'', T_UNION),
      (''INTERSECT'', T_INTERSECT), (''EXCEPT'', T_EXCEPT), (''CASE'', T_CASE),
      (''WHEN'', T_WHEN), (''THEN'', T_THEN), (''ELSE'', T_ELSE), (''END'', T_END),
      (''AS'', T_AS), (''ASC'', T_ASC), (''DESC'', T_DESC), (''INT'', T_INT),
      (''BIGINT'', T_BIGINT), (''FLOAT'', T_FLOAT), (''DOUBLE'', T_DOUBLE),
      (''DECIMAL'', T_DECIMAL), (''VARCHAR'', T_VARCHAR), (''CHAR'', T_CHAR),
      (''BOOLEAN'', T_BOOLEAN), (''DATE'', T_DATE), (''TIMESTAMP'', T_TIMESTAMP),
      (''TEXT'', T_TEXT), (''BLOB'', T_BLOB)]"

abbreviation NUL :: char where
  "NUL \<equiv> CHR 0x00"

definition current :: "lexer \<Rightarrow> char" where
  "current l = (if length (lx_input l) \<le> lx_pos l then NUL else lx_input l ! lx_pos l)"

definition peek :: "lexer \<Rightarrow> char" where
  "peek l = (if length (lx_input l) \<le> lx_pos l + 1 then NUL else lx_input l ! (lx_pos l + 1))"

definition advance :: "lexer \<Rightarrow> lexer" where
  "advance l =
     (if lx_pos l < length (lx_input l) then
        (if lx_input l ! lx_pos l = CHR 0x0A
         then l\<lparr>lx_line := lx_line l + 1, lx_column := 1, lx_pos := lx_pos l + 1\<rparr>
         else l\<lparr>lx_column := lx_column l + 1, lx_pos := lx_pos l + 1\<rparr>)
      else l)"

definition lx_left :: "lexer \<Rightarrow> nat" where
  "lx_left l = length (lx_input l) - lx_pos l"

lemma current_end: "current l \<noteq> NUL \<Longrightarrow> lx_pos l < length (lx_input l)"
  by (auto simp: current_def split: if_splits)

lemma advance_input [simp]: "lx_input (advance l) = lx_input l"
  by (simp add: advance_def)

lemma advance_pos: "lx_pos (advance l) = (if lx_pos l < length (lx_input l) then lx_pos l + 1 else lx_pos l)"
  by (simp add: advance_def)

lemma left_advance: "current l \<noteq> NUL \<Longrightarrow> lx_left (advance l) < lx_left l"
  using current_end [of l] by (simp add: lx_left_def advance_pos)

lemma left_advance_le: "lx_left (advance l) \<le> lx_left l"
  by (auto simp: lx_left_def advance_pos)

lemma not_special_NUL [simp]: "\<not> is_space NUL" "\<not> is_digit NUL"
  by (simp_all add: is_space_def is_digit_def less_eq_char_def)

function skip_whitespace :: "lexer \<Rightarrow> lexer" where
  "skip_whitespace l = (if is_space (current l) then skip_whitespace (advance l) else l)"
  by auto
termination by (relation "measure lx_left") (auto intro!: left_advance)

function skip_line :: "lexer \<Rightarrow> lexer" where
  "skip_line l = (if current l \<noteq> CHR 0x0A \<and> current l \<noteq> NUL then skip_line (advance l) else l)"
  by auto
termination by (relation "measure lx_left") (auto intro!: left_advance)

function skip_block :: "lexer \<Rightarrow> qerr + lexer" where
  "skip_block l =
     (if current l \<noteq> NUL then
        if current l = CHR ''*'' \<and> peek l = CHR ''/'' then Inr (advance (advance l))
        else skip_block (advance l)
      else Inl (SQLParseException ''Unterminated block comment''))"
  by auto
termination by (relation "measure lx_left") (auto intro!: left_advance)

definition at_comment :: "lexer \<Rightarrow> bool" where
  "at_comment l \<longleftrightarrow> (current l = CHR ''-'' \<and> peek l = CHR ''-'') \<or> (current l = CHR ''/'' \<and> peek l = CHR ''*'')"

definition skip_comment :: "lexer \<Rightarrow> qerr + lexer" where
  "skip_comment l =
     (if current l = CHR ''-'' \<and> peek l = CHR ''-'' then
        (let l' = skip_line l in Inr (if current l' = CHR 0x0A then advance l' else l'))
      else if current l = CHR ''/'' \<and> peek l = CHR ''*'' then skip_block (advance (advance l))
      else Inr l)"

definition escape_char :: "char \<Rightarrow> char" where
  "escape_char c = (if c = CHR ''n'' then CHR 0x0A else if c = CHR ''t'' then CHR 0x09
     else if c = CHR ''r'' then CHR 0x0D else c)"

function string_loop :: "char \<Rightarrow> string \<Rightarrow> lexer \<Rightarrow> string \<times> lexer" where
  "string_loop q v l =
     (if current l \<noteq> q \<and> current l \<noteq> NUL then
        if current l = CHR 0x5C then
          string_loop q (v @ [escape_char (current (advance l))]) (advance (advance l))
        else string_loop q (v @ [current l]) (advance l)
      else (v, l))"
  by auto
termination
  by (relation "measure (\<lambda>(q, v, l). lx_left l)")
    (auto intro: left_advance le_less_trans [OF left_advance_le left_advance])

definition read_string :: "char \<Rightarrow> lexer \<Rightarrow> qerr + (token \<times> lexer)" where
  "read_string q l =
     (let (v, l') = string_loop q [] (advance l) in
      if current l' \<noteq> q
      then Inl (SQLParseException (''Unterminated string literal at line '' @ show_nat (lx_line l)))
      else Inr (Token T_STRING v (lx_line l) (lx_column l), advance l'))"

function number_loop :: "bool \<Rightarrow> string \<Rightarrow> lexer \<Rightarrow> bool \<times> string \<times> lexer" where
  "number_loop has_dot v l =
     (if is_digit (current l) \<or> (current l = CHR ''.'' \<and> \<not> has_dot)
      then number_loop (has_dot \<or> current l = CHR ''.'') (v @ [current l]) (advance l)
      else (has_dot, v, l))"
  by auto
termination by (relation "measure (\<lambda>(d, v, l). lx_left l)") (auto intro!: left_advance)

definition read_number :: "lexer \<Rightarrow> qerr + (token \<times> lexer)" where
  "read_number l =
     (let (has_dot, v, l') = number_loop False [] l in
      if \<not> has_dot \<and> 1 < length v \<and> v ! 0 = CHR ''0''
      then Inl (SQLParseException (''Invalid numeric literal at line '' @ show_nat (lx_line l)))
      else Inr (Token T_NUMBER v (lx_line l) (lx_column l), l'))"

definition is_alpha :: "char \<Rightarrow> bool" where
  "is_alpha c \<longleftrightarrow> (CHR ''A'' \<le> c \<and> c \<le> CHR ''Z'') \<or> (CHR ''a'' \<le> c \<and> c \<le> CHR ''z'')"

definition is_word :: "char \<Rightarrow> bool" where
  "is_word c \<longleftrightarrow> is_alpha c \<or> is_digit c \<or> c = CHR ''_''"

definition toupper :: "char \<Rightarrow> char" where
  "toupper c = (if CHR ''a'' \<le> c \<and> c \<le> CHR ''z'' then char_of (of_char c - (32 :: nat)) else c)"

lemma not_word_NUL [simp]: "\<not> is_alpha NUL" "\<not> is_word NUL"
  by (simp_all add: is_alpha_def is_word_def less_eq_char_def)

function identifier_loop :: "string \<Rightarrow> lexer \<Rightarrow> string \<times> lexer" where
  "identifier_loop v l =
     (if is_word (current l) then identifier_loop (v @ [current l]) (advance l) else (v, l))"
  by auto
termination by (relation "measure (\<lambda>(v, l). lx_left l)") (auto intro!: left_advance)

definition word_type :: "string \<Rightarrow> token_type" where
  "word_type v = (case map_of keyword_table (map toupper v) of Some ty \<Rightarrow> ty | None \<Rightarrow> T_IDENTIFIER)"

definition read_identifier :: "lexer \<Rightarrow> token \<times> lexer" where
  "read_identifier l =
     (let (v, l') = identifier_loop [] l in (Token (word_type v) v (lx_line l) (lx_column l), l'))"

definition read_operator :: "lexer \<Rightarrow> qerr + (token \<times> lexer)" where
  "read_operator l =
     (let ch = current l; l' = advance l;
          tok = (\<lambda>ty v k. Inr (Token ty v (lx_line l) (lx_column l), k))
      in if ch = CHR ''='' then tok T_EQUALS ''='' l'
         else if ch = CHR ''<'' then
           (if current l' = CHR ''='' then tok T_LESS_EQUAL ''<='' (advance l')
            else if current l' = CHR ''>'' then tok T_NOT_EQUALS ''<>'' (advance l')
            else tok T_LESS ''<'' l')
         else if ch = CHR ''>'' then
           (if current l' = CHR ''='' then tok T_GREATER_EQUAL ''>='' (advance l')
            else tok T_GREATER ''>'' l')
         else if ch = CHR ''+'' then tok T_PLUS ''+'' l'
         else if ch = CHR ''-'' then tok T_MINUS ''-'' l'
         else if ch = CHR ''*'' then tok T_MULTIPLY ''*'' l'
         else if ch = CHR ''/'' then tok T_DIVIDE ''/'' l'
         else if ch = CHR ''%'' then tok T_MODULO ''%'' l'
         else Inl (SQLParseException (''Unexpected character at line '' @ show_nat (lx_line l))))"

function quoted_loop :: "string \<Rightarrow> lexer \<Rightarrow> string \<times> lexer" where
  "quoted_loop v l =
     (if current l \<noteq> CHR 0x22 \<and> current l \<noteq> NUL then quoted_loop (v @ [current l]) (advance l)
      else (v, l))"
  by auto
termination by (relation "measure (\<lambda>(v, l). lx_left l)") (auto intro!: left_advance)

definition read_quoted :: "lexer \<Rightarrow> qerr + (token \<times> lexer)" where
  "read_quoted l =
     (let (v, l') = quoted_loop [] (advance l) in
      if current l' \<noteq> CHR 0x22
      then Inl (SQLParseException (''Unterminated identifier at line '' @ show_nat (lx_line l)))
      else Inr (Token T_IDENTIFIER v (lx_line l) (lx_column l), advance l'))"

text \<open>The six characters that the last \<open>switch\<close> of \<open>tokenize\<close> handles itself.\<close>

definition punctuation :: "char \<Rightarrow> token_type option" where
  "punctuation c = map_of
     [(CHR ''('', T_LPAREN), (CHR '')'', T_RPAREN), (CHR '','', T_COMMA), (CHR ''.'', T_DOT),
      (CHR '';'', T_SEMICOLON), (CHR ''*'', T_STAR)] c"

text \<open>One round of the loop of \<open>tokenize\<close> after the white space: the tokens it adds.\<close>

definition read_token :: "lexer \<Rightarrow> qerr + (token \<times> lexer)" where
  "read_token l =
     (if current l = CHR 0x27 then read_string CHR 0x27 l
      else if current l = CHR 0x22 then read_quoted l
      else if is_digit (current l) then read_number l
      else if is_alpha (current l) \<or> current l = CHR ''_'' then Inr (read_identifier l)
      else case punctuation (current l) of
             Some ty \<Rightarrow> Inr (Token ty [current l] (lx_line l) (lx_column l), advance l)
           | None \<Rightarrow> read_operator l)"

definition lex_round :: "lexer \<Rightarrow> qerr + (token list \<times> lexer)" where
  "lex_round l =
     (if at_comment l then map_sum id (Pair []) (skip_comment l)
      else map_sum id (\<lambda>(t, l'). ([t], l')) (read_token l))"

section \<open>The rest of the input\<close>

text \<open>
  Every loop of the lexer is a function of the characters that are left, and the lexer
  moves only by \<open>advance\<close>: \<open>lex_le\<close> says so.
\<close>

definition rest :: "lexer \<Rightarrow> string" where
  "rest l = drop (lx_pos l) (lx_input l)"

definition lex_le :: "lexer \<Rightarrow> lexer \<Rightarrow> bool" where
  "lex_le l l' \<longleftrightarrow> (\<exists>n. l' = (advance ^^ n) l)"

lemma lex_le_refl [simp, intro]: "lex_le l l"
  unfolding lex_le_def by (metis funpow_0)

lemma lex_le_trans [trans]: "lex_le a b \<Longrightarrow> lex_le b c \<Longrightarrow> lex_le a c"
  unfolding lex_le_def by (metis funpow_add comp_apply)

lemma lex_le_advance [simp, intro]: "lex_le l (advance l)"
  unfolding lex_le_def by (metis funpow_0 funpow_simps_right(2) comp_apply One_nat_def)

lemma lex_le_step: "lex_le (advance l) k \<Longrightarrow> lex_le l k"
  by (rule lex_le_trans [OF lex_le_advance])

lemma lex_le_advance2: "lex_le l k \<Longrightarrow> lex_le l (advance k)"
  by (rule lex_le_trans [OF _ lex_le_advance])

lemmas lex_le_intros = lex_le_refl lex_le_step lex_le_advance2

lemma lex_le_induct [consumes 1, case_names start advance]:
  assumes "lex_le l k" and "P l" and "\<And>k. P k \<Longrightarrow> P (advance k)"
  shows "P k"
proof -
  have "P ((advance ^^ n) l)" for n using assms(2,3) by (induction n) auto
  with assms(1) show ?thesis by (auto simp: lex_le_def)
qed

lemma lex_le_pos:
  assumes "lex_le l k"
  shows "lx_input k = lx_input l \<and> lx_pos l \<le> lx_pos k"
  using assms by (induction rule: lex_le_induct) (auto simp: advance_pos)

lemma current_rest: "current l = (case rest l of [] \<Rightarrow> NUL | c # _ \<Rightarrow> c)"
  by (auto simp: current_def rest_def Cons_nth_drop_Suc [symmetric] split: list.splits)

lemma rest_advance [simp]: "rest (advance l) = tl (rest l)"
  by (simp add: rest_def advance_def drop_Suc tl_drop)

lemma peek_rest: "peek l = (case rest l of c # d # _ \<Rightarrow> d | _ \<Rightarrow> NUL)"
proof -
  have "peek l = current (advance l)"
    by (simp add: peek_def current_def advance_pos)
  then show ?thesis by (simp add: current_rest split: list.splits)
qed

lemma left_rest: "lx_left l = length (rest l)"
  by (simp add: lx_left_def rest_def)

lemma current_Cons [simp]: "rest l = c # cs \<Longrightarrow> current l = c"
  by (simp add: current_rest)

lemma current_Nil [simp]: "rest l = [] \<Longrightarrow> current l = NUL"
  by (simp add: current_rest)

declare skip_whitespace.simps [simp del] skip_line.simps [simp del] skip_block.simps [simp del]
  string_loop.simps [simp del] number_loop.simps [simp del] identifier_loop.simps [simp del]
  quoted_loop.simps [simp del]

lemma skip_whitespace_le: "lex_le l (skip_whitespace l)"
proof (induction l rule: skip_whitespace.induct)
  case (1 l)
  then show ?case by (subst skip_whitespace.simps) (auto intro: lex_le_intros)
qed

lemma skip_line_le: "lex_le l (skip_line l)"
proof (induction l rule: skip_line.induct)
  case (1 l)
  then show ?case by (subst skip_line.simps) (auto intro: lex_le_intros)
qed

lemma skip_block_le: "skip_block l = Inr l' \<Longrightarrow> lex_le l l'"
proof (induction l rule: skip_block.induct)
  case (1 l)
  from 1(2) show ?case
    by (subst (asm) skip_block.simps) (auto split: if_splits intro: lex_le_intros dest: 1(1))
qed

lemma string_loop_le: "lex_le l (snd (string_loop q v l))"
proof (induction q v l rule: string_loop.induct)
  case (1 q v l)
  then show ?case by (subst string_loop.simps) (auto intro: lex_le_intros)
qed

lemma number_loop_le: "lex_le l (snd (snd (number_loop d v l)))"
proof (induction d v l rule: number_loop.induct)
  case (1 d v l)
  then show ?case by (subst number_loop.simps) (auto intro: lex_le_intros)
qed

lemma identifier_loop_le: "lex_le l (snd (identifier_loop v l))"
proof (induction v l rule: identifier_loop.induct)
  case (1 v l)
  then show ?case by (subst identifier_loop.simps) (auto intro: lex_le_intros)
qed

lemma quoted_loop_le: "lex_le l (snd (quoted_loop v l))"
proof (induction v l rule: quoted_loop.induct)
  case (1 v l)
  then show ?case by (subst quoted_loop.simps) (auto intro: lex_le_intros)
qed

text \<open>A round of the loop moves on by at least one character.\<close>

lemma skip_comment_le: "skip_comment l = Inr l' \<Longrightarrow> at_comment l \<Longrightarrow> lex_le (advance l) l'"
proof -
  assume l': "skip_comment l = Inr l'" and at: "at_comment l"
  show ?thesis
  proof (cases "current l = CHR ''-'' \<and> peek l = CHR ''-''")
    case True
    then have "skip_line l = skip_line (advance l)" by (subst skip_line.simps) simp
    with l' True show ?thesis
      using skip_line_le [of "advance l"] lex_le_advance2 [OF skip_line_le [of "advance l"]]
      by (auto simp: skip_comment_def Let_def split: if_splits)
  next
    case False
    with l' at show ?thesis
      by (auto simp: skip_comment_def at_comment_def dest!: skip_block_le intro: lex_le_step)
  qed
qed

lemma digit_not_dot: "is_digit c \<Longrightarrow> c \<noteq> CHR ''.''"
  by (auto simp: is_digit_def less_eq_char_def)

lemma number_loop_first:
  "is_digit (current l) \<Longrightarrow> number_loop False [] l = number_loop False [current l] (advance l)"
  by (subst number_loop.simps) (simp add: digit_not_dot)

lemma identifier_loop_first:
  "is_word (current l) \<Longrightarrow> identifier_loop [] l = identifier_loop [current l] (advance l)"
  by (subst identifier_loop.simps) simp

lemma read_token_le: "read_token l = Inr (t, l') \<Longrightarrow> lex_le (advance l) l'"
  using string_loop_le [of "advance l" "CHR 0x27" "[]"] quoted_loop_le [of "advance l" "[]"]
    number_loop_le [of "advance l" False "[current l]"]
    identifier_loop_le [of "advance l" "[current l]"]
  by (auto simp: read_token_def read_string_def read_quoted_def read_number_def read_identifier_def
      read_operator_def Let_def number_loop_first identifier_loop_first is_word_def case_prod_beta
      split: if_splits option.splits intro: lex_le_intros)

lemma lex_round_le: "lex_round l = Inr (ts, l') \<Longrightarrow> lex_le (advance l) l'"
  by (auto simp: lex_round_def map_sum_def split: if_splits sum.splits
      dest: skip_comment_le read_token_le)

lemma left_le: "lex_le l l' \<Longrightarrow> lx_left l' \<le> lx_left l"
  by (induction rule: lex_le_induct) (auto intro: left_advance_le order_trans)

lemma lex_round_left:
  assumes "lex_round (skip_whitespace l) = Inr (ts, l')" and "current (skip_whitespace l) \<noteq> NUL"
  shows "lx_left l' < lx_left l"
  using left_le [OF lex_round_le [OF assms(1)]] left_advance [OF assms(2)]
    left_le [OF skip_whitespace_le [of l]] by simp

text \<open>The loop of \<open>tokenize\<close>.\<close>

definition eof_token :: "lexer \<Rightarrow> token" where
  "eof_token l = Token T_EOF_TOKEN [] (lx_line l) (lx_column l)"

function tokenize_loop :: "token list \<Rightarrow> lexer \<Rightarrow> qerr + token list" where
  "tokenize_loop tokens l =
     (if lx_pos l < length (lx_input l) then
        (let l1 = skip_whitespace l in
         if current l1 = NUL then Inr (tokens @ [eof_token l1])
         else case lex_round l1 of
                Inl e \<Rightarrow> Inl e
              | Inr (ts, l2) \<Rightarrow> tokenize_loop (tokens @ ts) l2)
      else Inr (tokens @ [eof_token l]))"
  by auto
termination
  by (relation "measure (\<lambda>(ts, l). lx_left l)") (auto intro: lex_round_left)

declare tokenize_loop.simps [simp del]

definition tokenize :: "string \<Rightarrow> qerr + token list" where
  "tokenize input = tokenize_loop [] (lexer_new input)"

section \<open>Positions\<close>

text \<open>The line and column after a prefix of the input, both counted from 1.\<close>

definition position :: "string \<Rightarrow> nat \<times> nat" where
  "position p = (1 + length (filter (\<lambda>c. c = CHR 0x0A) p),
     1 + length (takeWhile (\<lambda>c. c \<noteq> CHR 0x0A) (rev p)))"

definition lex_ok :: "lexer \<Rightarrow> bool" where
  "lex_ok l \<longleftrightarrow> lx_pos l \<le> length (lx_input l) \<and>
     (lx_line l, lx_column l) = position (take (lx_pos l) (lx_input l))"

lemma lex_ok_advance: "lex_ok l \<Longrightarrow> lex_ok (advance l)"
  by (auto simp: lex_ok_def advance_def position_def take_Suc_conv_app_nth)

lemma lex_ok_le: "lex_le l k \<Longrightarrow> lex_ok l \<Longrightarrow> lex_ok k"
  by (induction rule: lex_le_induct) (auto intro: lex_ok_advance)

lemma lex_ok_new: "lex_ok (lexer_new input)"
  by (simp add: lex_ok_def lexer_new_def position_def)

lemma position_bounds:
  assumes "position p = (a, b)"
  shows "1 \<le> a \<and> a \<le> length p + 1 \<and> 1 \<le> b \<and> b \<le> length p + 1"
proof -
  have "length (takeWhile (\<lambda>c. c \<noteq> CHR 0x0A) (rev p)) \<le> length (rev p)" by (rule length_takeWhile_le)
  moreover have "length (filter (\<lambda>c. c = CHR 0x0A) p) \<le> length p" by (rule length_filter_le)
  ultimately show ?thesis using assms by (auto simp: position_def)
qed

section \<open>Types of tokens\<close>

definition number_text :: "string \<Rightarrow> bool" where
  "number_text v \<longleftrightarrow> v \<noteq> [] \<and> is_digit (hd v) \<and> list_all (\<lambda>c. is_digit c \<or> c = CHR ''.'') v \<and>
     count_list v (CHR ''.'') \<le> 1 \<and>
     (CHR ''.'' \<in> set v \<or> length v = 1 \<or> hd v \<noteq> CHR ''0'')"

definition spellings :: "(token_type \<times> string) list" where
  "spellings =
     [(T_EQUALS, ''=''), (T_NOT_EQUALS, ''<>''), (T_LESS, ''<''), (T_LESS_EQUAL, ''<=''),
      (T_GREATER, ''>''), (T_GREATER_EQUAL, ''>=''), (T_PLUS, ''+''), (T_MINUS, ''-''),
      (T_DIVIDE, ''/''), (T_MODULO, ''%''), (T_LPAREN, ''(''), (T_RPAREN, '')''),
      (T_COMMA, '',''), (T_DOT, ''.''), (T_SEMICOLON, '';''), (T_STAR, ''*'')]"

definition token_ok :: "token \<Rightarrow> bool" where
  "token_ok t \<longleftrightarrow> tk_type t = T_STRING \<or> tk_type t = T_IDENTIFIER \<or>
     (tk_type t = T_NUMBER \<and> number_text (tk_value t)) \<or>
     map_of keyword_table (map toupper (tk_value t)) = Some (tk_type t) \<or>
     (tk_type t, tk_value t) \<in> set spellings"

lemma number_loop_text:
  assumes "number_loop d v l = (d', w, l')"
    and "list_all (\<lambda>c. is_digit c \<or> c = CHR ''.'') v" and "count_list v (CHR ''.'') = (if d then 1 else 0)"
  shows "list_all (\<lambda>c. is_digit c \<or> c = CHR ''.'') w \<and> count_list w (CHR ''.'') = (if d' then 1 else 0)
    \<and> (\<exists>u. w = v @ u)"
  using assms
proof (induction d v l rule: number_loop.induct)
  case (1 d v l)
  let ?c = "current l"
  show ?case
  proof (cases "is_digit ?c \<or> (?c = CHR ''.'' \<and> \<not> d)")
    case True
    have "number_loop (d \<or> ?c = CHR ''.'') (v @ [?c]) (advance l) = (d', w, l')"
      using 1(2) True by (subst (asm) number_loop.simps) simp
    moreover have "count_list (v @ [?c]) (CHR ''.'') = (if d \<or> ?c = CHR ''.'' then 1 else 0)"
      using 1(4) True digit_not_dot [of ?c] by auto
    ultimately show ?thesis using 1(1) [OF True] 1(3) True by auto
  next
    case False
    with 1(2-4) show ?thesis by (subst (asm) number_loop.simps) auto
  qed
qed

lemma read_number_ok:
  assumes "read_number l = Inr (t, l')" and "is_digit (current l)"
  shows "token_ok t \<and> tk_line t = lx_line l \<and> tk_column t = lx_column l"
proof -
  obtain d w k where n: "number_loop False [current l] (advance l) = (d, w, k)"
    by (cases "number_loop False [current l] (advance l)")
  have w: "list_all (\<lambda>c. is_digit c \<or> c = CHR ''.'') w" "count_list w (CHR ''.'') = (if d then 1 else 0)"
      "\<exists>u. w = current l # u"
    using number_loop_text [OF n] assms(2) digit_not_dot [of "current l"] by auto
  have dot: "CHR ''.'' \<in> set w" if d
    using that w(2) by (metis count_list_0_iff zero_neq_one)
  from assms n have "\<not> (\<not> d \<and> 1 < length w \<and> w ! 0 = CHR ''0'')"
      "t = Token T_NUMBER w (lx_line l) (lx_column l)"
    by (auto simp: read_number_def number_loop_first Let_def split: if_splits)
  moreover obtain u where "w = current l # u" using w(3) by blast
  ultimately show ?thesis using w dot assms(2)
    by (auto simp: token_ok_def number_text_def Token_def)
qed

lemma word_token_ok: "token_ok (Token (word_type v) v a b)"
  by (auto simp: token_ok_def word_type_def Token_def split: option.splits)

lemma punctuation_spelled: "punctuation c = Some ty \<Longrightarrow> (ty, [c]) \<in> set spellings"
  by (auto simp: punctuation_def spellings_def split: if_splits)

lemma operators_spelled:
  "(T_EQUALS, ''='') \<in> set spellings" "(T_NOT_EQUALS, ''<>'') \<in> set spellings"
  "(T_LESS, ''<'') \<in> set spellings" "(T_LESS_EQUAL, ''<='') \<in> set spellings"
  "(T_GREATER, ''>'') \<in> set spellings" "(T_GREATER_EQUAL, ''>='') \<in> set spellings"
  "(T_PLUS, ''+'') \<in> set spellings" "(T_MINUS, ''-'') \<in> set spellings"
  "(T_DIVIDE, ''/'') \<in> set spellings" "(T_MODULO, ''%'') \<in> set spellings"
  by (simp_all add: spellings_def)

lemma token_ok_cases:
  "(ty, v) \<in> set spellings \<Longrightarrow> token_ok (Token ty v a b)"
  "token_ok (Token T_STRING v a b)" "token_ok (Token T_IDENTIFIER v a b)"
  by (simp_all add: token_ok_def Token_def)

lemma Token_sel [simp]:
  "tk_type (Token ty v a b) = ty" "tk_value (Token ty v a b) = v"
  "tk_line (Token ty v a b) = a" "tk_column (Token ty v a b) = b"
  by (simp_all add: Token_def)

lemma read_operator_ok:
  assumes "read_operator l = Inr (t, l')" and "current l \<noteq> CHR ''*''"
  shows "token_ok t \<and> tk_line t = lx_line l \<and> tk_column t = lx_column l"
proof -
  from assms obtain ty v where "t = Token ty v (lx_line l) (lx_column l)" "(ty, v) \<in> set spellings"
    unfolding read_operator_def Let_def
    by (simp split: if_splits) (auto intro: operators_spelled)
  then show ?thesis by (simp add: token_ok_cases)
qed

lemma read_token_ok:
  assumes "read_token l = Inr (t, l')"
  shows "token_ok t \<and> tk_line t = lx_line l \<and> tk_column t = lx_column l"
proof -
  have op: "token_ok t \<and> tk_line t = lx_line l \<and> tk_column t = lx_column l"
    if "punctuation (current l) = None" "read_operator l = Inr (t, l')"
    using that(2) by (rule read_operator_ok) (use that(1) in \<open>auto simp: punctuation_def\<close>)
  show ?thesis
  proof (cases "is_digit (current l) \<and> current l \<noteq> CHR 0x27 \<and> current l \<noteq> CHR 0x22")
    case True
    with assms show ?thesis using read_number_ok [of l t l'] by (simp add: read_token_def)
  next
    case False
    with assms op punctuation_spelled [of "current l"] show ?thesis
      by (auto simp: read_token_def read_string_def read_quoted_def read_identifier_def Let_def
          case_prod_beta word_token_ok token_ok_cases split: if_splits option.splits)
  qed
qed

definition located :: "string \<Rightarrow> token \<Rightarrow> nat \<Rightarrow> bool" where
  "located input t p \<longleftrightarrow> p \<le> length input \<and> (tk_line t, tk_column t) = position (take p input)"

lemma eof_located: "lex_ok l \<Longrightarrow> located (lx_input l) (eof_token l) (lx_pos l)"
  by (simp add: located_def eof_token_def lex_ok_def)

lemma lex_round_ok:
  assumes "lex_round l = Inr (ts, l')" and "lex_ok l"
  shows "ts = [] \<or> (\<exists>t. ts = [t] \<and> token_ok t \<and> located (lx_input l) t (lx_pos l))"
  using assms by (auto simp: lex_round_def map_sum_def located_def lex_ok_def
      split: if_splits sum.splits dest!: read_token_ok)

text \<open>What the loop adds to the tokens it already has.\<close>

lemma tokenize_loop_sound:
  assumes "tokenize_loop tokens l = Inr ts" and "lex_ok l"
  shows "\<exists>rs e ps. ts = tokens @ rs @ [e] \<and> list_all token_ok rs \<and> tk_type e = T_EOF_TOKEN \<and> tk_value e = []
    \<and> list_all2 (located (lx_input l)) (rs @ [e]) ps \<and> sorted_wrt (<) ps \<and> (\<forall>p \<in> set ps. lx_pos l \<le> p)"
  using assms
proof (induction tokens l rule: tokenize_loop.induct)
  case (1 tokens l)
  let ?l1 = "skip_whitespace l"
  have l1: "lex_ok ?l1" "lx_input ?l1 = lx_input l" "lx_pos l \<le> lx_pos ?l1"
    using lex_ok_le [OF skip_whitespace_le 1(3)] lex_le_pos [OF skip_whitespace_le [of l]] by auto
  show ?case
  proof (cases "lx_pos l < length (lx_input l) \<and> current ?l1 \<noteq> NUL")
    case True
    with 1(2) obtain us l2 where r: "lex_round ?l1 = Inr (us, l2)"
        and t: "tokenize_loop (tokens @ us) l2 = Inr ts"
      by (subst (asm) tokenize_loop.simps) (auto simp: Let_def split: sum.splits)
    have l2: "lex_ok l2" "lx_input l2 = lx_input l" "lx_pos ?l1 < lx_pos l2"
      using lex_ok_le [OF lex_round_le [OF r] lex_ok_advance [OF l1(1)]] lex_le_pos [OF lex_round_le [OF r]]
        l1(2) current_end [of ?l1] True by (auto simp: advance_pos)
    obtain rs e ps where IH: "ts = (tokens @ us) @ rs @ [e]" "list_all token_ok rs"
        "tk_type e = T_EOF_TOKEN" "tk_value e = []"
        "list_all2 (located (lx_input l)) (rs @ [e]) ps" "sorted_wrt (<) ps" "\<forall>p \<in> set ps. lx_pos l2 \<le> p"
      using 1(1) [OF _ refl _ r refl t l2(1)] True l2(2) by auto
    from lex_round_ok [OF r l1(1)] show ?thesis
    proof (elim disjE exE conjE)
      assume "us = []"
      with IH l1 l2 show ?thesis by (intro exI [of _ rs] exI [of _ e] exI [of _ ps]) auto
    next
      fix u
      assume "us = [u]" "token_ok u" "located (lx_input ?l1) u (lx_pos ?l1)"
      with IH l1 l2 show ?thesis
        by (intro exI [of _ "u # rs"] exI [of _ e] exI [of _ "lx_pos ?l1 # ps"]) auto
    qed
  next
    case False
    then obtain k where "ts = tokens @ [eof_token k]" "lex_ok k" "lx_input k = lx_input l" "lx_pos l \<le> lx_pos k"
      using 1(2,3) l1 by (subst (asm) tokenize_loop.simps) (auto simp: Let_def split: if_splits)
    then show ?thesis using eof_located [of k]
      by (intro exI [of _ "[]"] exI [of _ "eof_token k"] exI [of _ "[lx_pos k]"])
        (simp add: eof_token_def)
  qed
qed

section \<open>Printing and reading back\<close>

text \<open>
  What can be written down so that the lexer reads it back: words, numbers, strings with quotes
  and backslashes escaped, quoted identifiers, operators and punctuation.
\<close>

datatype lexeme =
    Word string | Number string | Str string | Quoted string | Symbol token_type string

definition escape_string :: "string \<Rightarrow> string" where
  "escape_string s =
     concat (map (\<lambda>c. if c = CHR 0x27 \<or> c = CHR 0x5C then [CHR 0x5C, c] else [c]) s)"

fun print_lexeme :: "lexeme \<Rightarrow> string" where
  "print_lexeme (Word w) = w"
| "print_lexeme (Number v) = v"
| "print_lexeme (Str s) = [CHR 0x27] @ escape_string s @ [CHR 0x27]"
| "print_lexeme (Quoted i) = [CHR 0x22] @ i @ [CHR 0x22]"
| "print_lexeme (Symbol ty v) = v"

fun lexeme_ok :: "lexeme \<Rightarrow> bool" where
  "lexeme_ok (Word w) \<longleftrightarrow> w \<noteq> [] \<and> (is_alpha (hd w) \<or> hd w = CHR ''_'') \<and> list_all is_word w"
| "lexeme_ok (Number v) \<longleftrightarrow> number_text v"
| "lexeme_ok (Str s) \<longleftrightarrow> NUL \<notin> set s"
| "lexeme_ok (Quoted i) \<longleftrightarrow> NUL \<notin> set i \<and> CHR 0x22 \<notin> set i"
| "lexeme_ok (Symbol ty v) \<longleftrightarrow> (ty, v) \<in> set spellings"

fun meaning :: "lexeme \<Rightarrow> token_type \<times> string" where
  "meaning (Word w) = (word_type w, w)"
| "meaning (Number v) = (T_NUMBER, v)"
| "meaning (Str s) = (T_STRING, s)"
| "meaning (Quoted i) = (T_IDENTIFIER, i)"
| "meaning (Symbol ty v) = (ty, v)"

definition blank :: "string \<Rightarrow> bool" where
  "blank w \<longleftrightarrow> w \<noteq> [] \<and> list_all is_space w"

definition print_lexemes :: "(lexeme \<times> string) list \<Rightarrow> string" where
  "print_lexemes xs = concat (map (\<lambda>(x, w). print_lexeme x @ w) xs)"

lemma rest_skip_whitespace: "rest (skip_whitespace l) = dropWhile is_space (rest l)"
proof (induction l rule: skip_whitespace.induct)
  case (1 l)
  then show ?case by (cases "rest l") (simp_all add: skip_whitespace.simps [of l])
qed

lemma identifier_loop_rest:
  "rest l = u @ c # r \<Longrightarrow> list_all is_word u \<Longrightarrow> \<not> is_word c \<Longrightarrow>
   \<exists>l'. identifier_loop v l = (v @ u, l') \<and> rest l' = c # r"
proof (induction u arbitrary: v l)
  case Nil
  then show ?case by (simp add: identifier_loop.simps [of _ l])
next
  case (Cons a u)
  then show ?case using Cons.IH [of "advance l" "v @ [a]"] by (subst identifier_loop.simps) auto
qed

lemma number_loop_rest:
  "rest l = u @ c # r \<Longrightarrow> list_all (\<lambda>c. is_digit c \<or> c = CHR ''.'') u \<Longrightarrow>
   count_list u (CHR ''.'') + (if d then 1 else 0) \<le> 1 \<Longrightarrow> \<not> is_digit c \<Longrightarrow> c \<noteq> CHR ''.'' \<Longrightarrow>
   \<exists>l'. number_loop d v l = (d \<or> CHR ''.'' \<in> set u, v @ u, l') \<and> rest l' = c # r"
proof (induction u arbitrary: d v l)
  case Nil
  then show ?case by (simp add: number_loop.simps [of _ _ l])
next
  case (Cons a u)
  have "\<exists>l'. number_loop (d \<or> a = CHR ''.'') (v @ [a]) (advance l) =
      ((d \<or> a = CHR ''.'') \<or> CHR ''.'' \<in> set u, (v @ [a]) @ u, l') \<and> rest l' = c # r"
    using Cons.prems by (intro Cons.IH) (auto split: if_splits)
  moreover have "is_digit a \<or> (a = CHR ''.'' \<and> \<not> d)"
    using Cons.prems(2,3) by (auto split: if_splits)
  ultimately show ?case using Cons.prems(1)
    by (subst number_loop.simps) (auto simp: eq_commute [of _ "CHR ''.''"])
qed

lemma string_loop_rest:
  "rest l = escape_string s @ CHR 0x27 # r \<Longrightarrow> NUL \<notin> set s \<Longrightarrow>
   \<exists>l'. string_loop CHR 0x27 v l = (v @ s, l') \<and> rest l' = CHR 0x27 # r"
proof (induction s arbitrary: v l)
  case Nil
  then show ?case by (simp add: string_loop.simps [of _ _ l] escape_string_def)
next
  case (Cons c s)
  show ?case
  proof (cases "c = CHR 0x27 \<or> c = CHR 0x5C")
    case True
    with Cons.prems have l: "rest l = CHR 0x5C # c # escape_string s @ CHR 0x27 # r"
      by (simp add: escape_string_def)
    then have "current (advance l) = c" by (simp add: current_rest)
    with l True Cons.IH [of "advance (advance l)" "v @ [c]"] Cons.prems(2) show ?thesis
      by (subst string_loop.simps) (auto simp: escape_char_def)
  next
    case False
    with Cons.prems have l: "rest l = c # escape_string s @ CHR 0x27 # r"
      by (simp add: escape_string_def)
    with False Cons.IH [of "advance l" "v @ [c]"] Cons.prems(2) show ?thesis
      by (subst string_loop.simps) auto
  qed
qed

lemma quoted_loop_rest:
  "rest l = i @ CHR 0x22 # r \<Longrightarrow> NUL \<notin> set i \<Longrightarrow> CHR 0x22 \<notin> set i \<Longrightarrow>
   \<exists>l'. quoted_loop v l = (v @ i, l') \<and> rest l' = CHR 0x22 # r"
proof (induction i arbitrary: v l)
  case Nil
  then show ?case by (simp add: quoted_loop.simps [of _ l])
next
  case (Cons c i)
  then show ?case using Cons.IH [of "advance l" "v @ [c]"] by (subst quoted_loop.simps) auto
qed

text \<open>One lexeme followed by white space is one round of the loop.\<close>

lemma space_class:
  assumes "is_space c"
  shows "\<not> is_word c" "\<not> is_digit c" "\<not> is_alpha c" "c \<noteq> NUL"
    "c \<noteq> CHR ''.''" "c \<noteq> CHR ''-''" "c \<noteq> CHR ''*''" "c \<noteq> CHR ''=''" "c \<noteq> CHR ''>''"
  using assms by (auto simp: is_space_def is_word_def is_digit_def is_alpha_def less_eq_char_def)

lemma word_start:
  assumes "is_alpha c \<or> c = CHR ''_''"
  shows "is_word c \<and> \<not> is_digit c \<and> c \<noteq> CHR ''-'' \<and> c \<noteq> CHR ''/'' \<and> c \<noteq> CHR 0x27 \<and> c \<noteq> CHR 0x22
    \<and> c \<noteq> NUL \<and> \<not> is_space c"
  using assms by (auto simp: is_word_def is_alpha_def is_digit_def is_space_def less_eq_char_def)

lemma digit_start:
  assumes "is_digit c"
  shows "c \<noteq> CHR ''-'' \<and> c \<noteq> CHR ''/'' \<and> c \<noteq> CHR 0x27 \<and> c \<noteq> CHR 0x22 \<and> c \<noteq> NUL \<and> \<not> is_space c"
  using assms by (auto simp: is_digit_def is_space_def less_eq_char_def)

text \<open>The token read has the given type and value, and the given characters are left.\<close>

definition reads :: "lexer \<Rightarrow> token_type \<times> string \<Rightarrow> string \<Rightarrow> bool" where
  "reads l tv r \<longleftrightarrow> current l \<noteq> NUL \<and> \<not> is_space (current l) \<and>
     (\<exists>t l'. lex_round l = Inr ([t], l') \<and> (tk_type t, tk_value t) = tv \<and> rest l' = r)"

lemma reads_token:
  assumes "read_token l = Inr (t, l')" and "\<not> at_comment l" and "current l \<noteq> NUL" and "\<not> is_space (current l)"
  shows "reads l (tk_type t, tk_value t) (rest l')"
  using assms by (auto simp: reads_def lex_round_def)

lemma reads_word:
  assumes "rest l = w @ c # r" and "lexeme_ok (Word w)" and "is_space c"
  shows "reads l (meaning (Word w)) (c # r)"
proof -
  from assms obtain a u where w: "w = a # u" "current l = a" by (cases w) auto
  from assms(2) w have a: "is_alpha a \<or> a = CHR ''_''" by simp
  note as = word_start [OF a]
  obtain l' where "identifier_loop [] l = (w, l')" "rest l' = c # r"
    using identifier_loop_rest [of l w c r "[]"] assms space_class [OF assms(3)] by auto
  then have "read_token l = Inr (Token (word_type w) w (lx_line l) (lx_column l), l')"
    using as w a by (simp add: read_token_def read_identifier_def)
  from reads_token [OF this] as w \<open>rest l' = c # r\<close> show ?thesis by (simp add: at_comment_def)
qed

lemma reads_number:
  assumes "rest l = v @ c # r" and "lexeme_ok (Number v)" and "is_space c"
  shows "reads l (meaning (Number v)) (c # r)"
proof -
  from assms obtain a u where w: "v = a # u" "current l = a"
    by (cases v) (auto simp: number_text_def)
  from assms(2) w have a: "is_digit a" by (simp add: number_text_def)
  note as = digit_start [OF a]
  obtain l' where "number_loop False [] l = (CHR ''.'' \<in> set v, v, l')" "rest l' = c # r"
    using number_loop_rest [of l v c r False "[]"] assms space_class [OF assms(3)]
    by (auto simp: number_text_def)
  moreover have "CHR ''.'' \<in> set v \<or> length v = 1 \<or> v ! 0 \<noteq> CHR ''0''"
    using assms(2) w by (auto simp: number_text_def)
  ultimately have "read_token l = Inr (Token T_NUMBER v (lx_line l) (lx_column l), l')"
    using as w a by (auto simp: read_token_def read_number_def)
  from reads_token [OF this] as w \<open>rest l' = c # r\<close> show ?thesis by (simp add: at_comment_def)
qed

lemma reads_string:
  assumes "rest l = print_lexeme (Str s) @ r" and "lexeme_ok (Str s)"
  shows "reads l (meaning (Str s)) r"
proof -
  have c: "current l = CHR 0x27" using assms(1) by simp
  obtain l' where l': "string_loop CHR 0x27 [] (advance l) = (s, l')" "rest l' = CHR 0x27 # r"
    using string_loop_rest [of "advance l" s r "[]"] assms by auto
  then have "read_token l = Inr (Token T_STRING s (lx_line l) (lx_column l), advance l')"
    using c by (simp add: read_token_def read_string_def)
  from reads_token [OF this] c l'(2) show ?thesis by (simp add: at_comment_def is_space_def less_eq_char_def)
qed

lemma reads_quoted:
  assumes "rest l = print_lexeme (Quoted i) @ r" and "lexeme_ok (Quoted i)"
  shows "reads l (meaning (Quoted i)) r"
proof -
  have c: "current l = CHR 0x22" using assms(1) by simp
  obtain l' where l': "quoted_loop [] (advance l) = (i, l')" "rest l' = CHR 0x22 # r"
    using quoted_loop_rest [of "advance l" i r "[]"] assms by auto
  then have "read_token l = Inr (Token T_IDENTIFIER i (lx_line l) (lx_column l), advance l')"
    using c by (simp add: read_token_def read_quoted_def)
  from reads_token [OF this] c l'(2) show ?thesis by (simp add: at_comment_def is_space_def less_eq_char_def)
qed

definition symbol_shape :: "token_type \<times> string \<Rightarrow> bool" where
  "symbol_shape p = (let v = snd p; c = hd v in v \<noteq> [] \<and>
     \<not> is_alpha c \<and> \<not> is_digit c \<and> \<not> is_space c \<and> c \<notin> {CHR ''_'', CHR 0x27, CHR 0x22, NUL} \<and>
     (if punctuation c = None then tl v = [] \<or> c \<in> {CHR ''<'', CHR ''>''}
      else punctuation c = Some (fst p) \<and> tl v = []))"

lemma spellings_shape: "list_all symbol_shape spellings"
  by code_simp

lemma symbol_start:
  assumes "(ty, v) \<in> set spellings"
  obtains c u where "v = c # u" "\<not> is_alpha c" "\<not> is_digit c" "\<not> is_space c" "c \<noteq> CHR ''_''"
    "c \<noteq> CHR 0x27" "c \<noteq> CHR 0x22" "c \<noteq> NUL"
    "punctuation c = Some ty \<and> u = [] \<or> punctuation c = None \<and> (u = [] \<or> c = CHR ''<'' \<or> c = CHR ''>'')"
proof -
  from assms spellings_shape have "symbol_shape (ty, v)" by (auto simp: list_all_iff)
  with that [of "hd v" "tl v"] show thesis
    by (auto simp: symbol_shape_def Let_def split: if_splits)
qed

definition operator_spellings :: "(token_type \<times> string) list" where
  "operator_spellings =
      [(T_EQUALS, ''=''), (T_NOT_EQUALS, ''<>''), (T_LESS, ''<''), (T_LESS_EQUAL, ''<=''),
       (T_GREATER, ''>''), (T_GREATER_EQUAL, ''>=''), (T_PLUS, ''+''), (T_MINUS, ''-''),
       (T_DIVIDE, ''/''), (T_MODULO, ''%'')]"

lemma operator_cases:
  "(ty, v) \<in> set spellings \<Longrightarrow> punctuation (hd v) = None \<Longrightarrow> (ty, v) \<in> set operator_spellings"
  by (simp add: spellings_def operator_spellings_def) (elim disjE; simp add: punctuation_def)

lemma read_operator_symbol:
  assumes "(ty, v) \<in> set operator_spellings" and "rest l = v @ d # r" and "is_space d"
  shows "\<exists>l'. read_operator l = Inr (Token ty v (lx_line l) (lx_column l), l') \<and> rest l' = d # r"
proof -
  note d = space_class(8,9) [OF assms(3)]
  have step: "current (advance l) = (case rest l of _ # c # _ \<Rightarrow> c | _ \<Rightarrow> NUL)"
    by (simp add: current_rest split: list.splits)
  show ?thesis
    using assms(1,2) d unfolding operator_spellings_def
    by (simp, elim disjE conjE) (simp_all add: read_operator_def Let_def step)
qed

lemma reads_symbol:
  assumes "rest l = v @ d # r" and "lexeme_ok (Symbol ty v)" and "is_space d"
  shows "reads l (meaning (Symbol ty v)) (d # r)"
proof -
  from assms(2) have sp: "(ty, v) \<in> set spellings" by simp
  then obtain c u where v: "v = c # u" "\<not> is_alpha c" "\<not> is_digit c" "\<not> is_space c" "c \<noteq> CHR ''_''"
    "c \<noteq> CHR 0x27" "c \<noteq> CHR 0x22" "c \<noteq> NUL"
    "punctuation c = Some ty \<and> u = [] \<or> punctuation c = None \<and> (u = [] \<or> c = CHR ''<'' \<or> c = CHR ''>'')"
    by (rule symbol_start)
  have c: "current l = c" using assms(1) v(1) by simp
  have no_comment: "\<not> at_comment l"
  proof -
    have "peek l = hd (u @ d # r)" using assms(1) v(1) by (cases u) (simp_all add: peek_rest)
    moreover have "u = [] \<or> c = CHR ''<'' \<or> c = CHR ''>''"
      using v(9) by auto
    ultimately show ?thesis using c space_class [OF assms(3)] by (auto simp: at_comment_def)
  qed
  show ?thesis
  proof (cases "punctuation c")
    case None
    with v c have "read_token l = read_operator l" by (simp add: read_token_def)
    with read_operator_symbol [OF operator_cases [OF sp] assms(1,3)] None v(1) obtain l' where
      "read_token l = Inr (Token ty v (lx_line l) (lx_column l), l')" "rest l' = d # r" by auto
    with reads_token [OF this(1) no_comment] v c show ?thesis by simp
  next
    case (Some ty')
    with v c have "read_token l = Inr (Token ty v (lx_line l) (lx_column l), advance l)"
      by (simp add: read_token_def)
    with reads_token [OF this no_comment] v c assms(1) Some show ?thesis by simp
  qed
qed

lemma reads_lexeme:
  assumes "rest l = print_lexeme x @ d # r" and "lexeme_ok x" and "is_space d"
  shows "reads l (meaning x) (d # r)"
proof (cases x)
  case (Str s)
  with assms show ?thesis using reads_string [of l s "d # r"] by simp
next
  case (Quoted i)
  with assms show ?thesis using reads_quoted [of l i "d # r"] by simp
qed (use assms reads_word reads_number reads_symbol in auto)

lemma tokenize_loop_reads:
  assumes "reads l tv r"
  shows "\<exists>t l'. tokenize_loop tokens l = tokenize_loop (tokens @ [t]) l' \<and> (tk_type t, tk_value t) = tv \<and> rest l' = r"
proof -
  from assms obtain t l' where l': "current l \<noteq> NUL" "\<not> is_space (current l)" "lex_round l = Inr ([t], l')"
      "(tk_type t, tk_value t) = tv" "rest l' = r"
    by (auto simp: reads_def)
  have "skip_whitespace l = l" using l'(2) by (simp add: skip_whitespace.simps [of l])
  with l' current_end [of l] have "tokenize_loop tokens l = tokenize_loop (tokens @ [t]) l'"
    by (subst tokenize_loop.simps) simp
  with l' show ?thesis by blast
qed

text \<open>White space before a round makes no difference.\<close>

lemma tokenize_loop_space: "tokenize_loop tokens l = tokenize_loop tokens (skip_whitespace l)"
proof -
  let ?k = "skip_whitespace l"
  have "\<not> is_space (current ?k)"
  proof (cases "rest ?k")
    case (Cons c cs)
    then have "\<not> is_space c" using rest_skip_whitespace [of l] by (simp add: dropWhile_eq_Cons_conv)
    with Cons show ?thesis by simp
  qed simp
  then have idem: "skip_whitespace ?k = ?k" by (simp add: skip_whitespace.simps [of ?k])
  have less: "lx_pos l < length (lx_input l)" if "lx_pos ?k < length (lx_input ?k)"
    using that lex_le_pos [OF skip_whitespace_le [of l]] by auto
  show ?thesis
  proof (cases "lx_pos l < length (lx_input l)")
    case True
    have "current ?k = NUL" if "\<not> lx_pos ?k < length (lx_input ?k)"
      using that by (simp add: current_def)
    with True show ?thesis
      unfolding tokenize_loop.simps [of tokens l] tokenize_loop.simps [of tokens ?k] Let_def idem
      by (cases "lx_pos ?k < length (lx_input ?k)") simp_all
  next
    case False
    then have "?k = l" by (simp add: skip_whitespace.simps [of l] current_def)
    then show ?thesis by simp
  qed
qed

lemma tokenize_loop_end:
  assumes "rest l = []"
  shows "tokenize_loop tokens l = Inr (tokens @ [eof_token l])"
  using assms by (simp add: tokenize_loop.simps [of tokens l] rest_def)

lemma lexeme_nonspace:
  assumes "lexeme_ok x"
  shows "print_lexeme x \<noteq> [] \<and> \<not> is_space (hd (print_lexeme x))"
proof (cases x)
  case (Word w)
  with assms show ?thesis using word_start [of "hd w"] by auto
next
  case (Number v)
  with assms show ?thesis using digit_start [of "hd v"] by (auto simp: number_text_def)
next
  case (Symbol ty v)
  with assms show ?thesis by (auto elim: symbol_start)
qed (simp_all add: is_space_def less_eq_char_def)

lemma tokenize_loop_print:
  assumes "rest l = lead @ print_lexemes xs" and "list_all is_space lead"
    and "list_all (\<lambda>(x, w). lexeme_ok x \<and> blank w) xs"
  shows "\<exists>ts. tokenize_loop tokens l = Inr (tokens @ ts) \<and>
    map (\<lambda>t. (tk_type t, tk_value t)) ts = map (meaning \<circ> fst) xs @ [(T_EOF_TOKEN, [])]"
  using assms
proof (induction xs arbitrary: tokens l lead)
  case Nil
  then have "rest (skip_whitespace l) = []"
    by (simp add: rest_skip_whitespace print_lexemes_def list_all_iff)
  then show ?case
    using tokenize_loop_end [of "skip_whitespace l" tokens]
    by (simp add: tokenize_loop_space [of tokens l] eof_token_def)
next
  case (Cons xw xs)
  obtain x d w where xw: "xw = (x, d # w)" "lexeme_ok x" "is_space d" "list_all is_space w"
    using Cons.prems(3) by (cases xw; cases "snd xw") (auto simp: blank_def)
  obtain a u where au: "print_lexeme x = a # u" "\<not> is_space a"
    using lexeme_nonspace [OF xw(2)] by (cases "print_lexeme x") auto
  have "rest (skip_whitespace l) = print_lexeme x @ d # (w @ print_lexemes xs)"
    using Cons.prems(1,2) xw(1) au
    by (simp add: rest_skip_whitespace print_lexemes_def list_all_iff dropWhile_append2)
  from tokenize_loop_reads [OF reads_lexeme [OF this xw(2,3)], of tokens]
  obtain t l' where t: "tokenize_loop tokens l = tokenize_loop (tokens @ [t]) l'"
      "(tk_type t, tk_value t) = meaning x" "rest l' = (d # w) @ print_lexemes xs"
    by (auto simp: tokenize_loop_space [of tokens l])
  from Cons.IH [OF t(3), of "tokens @ [t]"] xw Cons.prems(3) obtain ts where
    "tokenize_loop (tokens @ [t]) l' = Inr ((tokens @ [t]) @ ts)"
    "map (\<lambda>t. (tk_type t, tk_value t)) ts = map (meaning \<circ> fst) xs @ [(T_EOF_TOKEN, [])]" by auto
  with t xw(1) show ?case by (intro exI [of _ "t # ts"]) simp
qed

section \<open>Properties\<close>

text \<open>
  C37. Round trip. Words, numbers, strings with arbitrary characters but NUL (quotes and backslashes
  escaped), quoted identifiers, operators and punctuation, written one after the other and
  separated by arbitrary white space, are read back exactly, words as keywords iff the table has
  them in upper case.
\<close>

theorem tokenize_print:
  assumes "list_all is_space lead" and "list_all (\<lambda>(x, w). lexeme_ok x \<and> blank w) xs"
  shows "\<exists>ts. tokenize (lead @ print_lexemes xs) = Inr ts \<and>
    map (\<lambda>t. (tk_type t, tk_value t)) ts = map (meaning \<circ> fst) xs @ [(T_EOF_TOKEN, [])]"
  using tokenize_loop_print [of "lexer_new (lead @ print_lexemes xs)" lead xs "[]"] assms
  by (simp add: tokenize_def rest_def lexer_new_def)

theorem tokenize_print_witness:
  "\<exists>ts. tokenize (print_lexemes [(Word ''x1'', '' ''), (Symbol T_LESS_EQUAL ''<='', '' ''), (Number ''42'', '' '')]) = Inr ts \<and>
     map tk_value ts = [''x1'', ''<='', ''42'', []]"
proof -
  let ?xs = "[(Word ''x1'', '' ''), (Symbol T_LESS_EQUAL ''<='', '' ''), (Number ''42'', '' '')]"
  have "list_all (\<lambda>(x, w). lexeme_ok x \<and> blank w) ?xs" by code_simp
  with tokenize_print [of "[]" ?xs] obtain ts where ts: "tokenize (print_lexemes ?xs) = Inr ts"
      "map (\<lambda>t. (tk_type t, tk_value t)) ts = map (meaning \<circ> fst) ?xs @ [(T_EOF_TOKEN, [])]" by auto
  have "map tk_value ts = map snd (map (\<lambda>t. (tk_type t, tk_value t)) ts)" by simp
  also have "\<dots> = [''x1'', ''<='', ''42'', []]" unfolding ts(2) by simp
  finally have "map tk_value ts = [''x1'', ''<='', ''42'', []]" .
  with ts(1) show ?thesis by (intro exI [of _ ts] conjI)
qed

section \<open>What the lexer does not read\<close>

text \<open>A star is never the multiplication operator.\<close>

lemma star_never_multiply:
  assumes "tokenize input = Inr ts" and "t \<in> set ts"
  shows "tk_type t \<noteq> T_MULTIPLY"
proof -
  have table: "T_MULTIPLY \<notin> snd ` set keyword_table" "T_MULTIPLY \<notin> fst ` set spellings"
    by (simp_all add: keyword_table_def spellings_def)
  then have "\<not> token_ok t" if "tk_type t = T_MULTIPLY"
    using that by (force simp: token_ok_def dest: map_of_SomeD)
  with tokenize_loop_sound [OF assms(1) [unfolded tokenize_def] lex_ok_new] assms(2) show ?thesis
    by (auto simp: list_all_iff)
qed

text \<open>Everything after a NUL character is ignored without an error.\<close>

lemma NUL_ends_input: "tokenize (NUL # s) = tokenize []"
proof -
  have "current (lexer_new (NUL # s)) = NUL" by (simp add: current_def lexer_new_def)
  then have "skip_whitespace (lexer_new (NUL # s)) = lexer_new (NUL # s)"
    by (simp add: skip_whitespace.simps [of "lexer_new (NUL # s)"])
  with \<open>current (lexer_new (NUL # s)) = NUL\<close> show ?thesis
    by (simp add: tokenize_def tokenize_loop.simps [of "[]" "lexer_new (NUL # s)"]
        tokenize_loop.simps [of "[]" "lexer_new []"]) (simp add: lexer_new_def eof_token_def)
qed

end
