(* ===== verification/Sql_Grammar.thy ===== *)
theory Sql_Grammar
  imports Sql_Lexer
begin

text \<open>
  The lexical grammar of \<open>src/sql_lexer.cpp\<close>, as relations on text that mention neither the functions nor
  the state of the lexer, and the proof that the lexer follows it: a token list that it returns is a
  reading of the whole input, and an exception that it throws is about the first place where the
  input cannot be read on. Every relation takes, beside a piece of text, the text behind it, because pieces
  are as long as possible.
\<close>

section \<open>The grammar\<close>

fun first :: "string \<Rightarrow> char" where
  "first [] = NUL"
| "first (c # r) = c"

text \<open>No \<open>*/\<close> in the text of a block comment.\<close>

fun no_close :: "string \<Rightarrow> bool" where
  "no_close (c # d # s) \<longleftrightarrow> \<not> (c = CHR ''*'' \<and> d = CHR ''/'') \<and> no_close (d # s)"
| "no_close [c] \<longleftrightarrow> True"
| "no_close [] \<longleftrightarrow> True"

text \<open>White space and comments; a line comment goes up to the end of the line or of the text.\<close>

inductive gap :: "string \<Rightarrow> string \<Rightarrow> bool" where
  gap_nil: "gap [] r"
| gap_space: "is_space c \<Longrightarrow> gap g r \<Longrightarrow> gap (c # g) r"
| gap_line: "\<lbrakk>CHR 0x0A \<notin> set s; NUL \<notin> set s; first (g @ r) = CHR 0x0A \<or> first (g @ r) = NUL; gap g r\<rbrakk> \<Longrightarrow>
     gap (''--'' @ s @ g) r"
| gap_block: "\<lbrakk>NUL \<notin> set s; no_close s; gap g r\<rbrakk> \<Longrightarrow> gap (''/*'' @ s @ ''*/'' @ g) r"

text \<open>The text between two quotes \<open>q\<close>, and the string it stands for.\<close>

inductive string_body :: "char \<Rightarrow> string \<Rightarrow> string \<Rightarrow> bool" for q where
  body_nil: "string_body q [] []"
| body_plain: "\<lbrakk>c \<noteq> q; c \<noteq> NUL; c \<noteq> CHR 0x5C; string_body q b v\<rbrakk> \<Longrightarrow> string_body q (c # b) (c # v)"
| body_escape: "string_body q b v \<Longrightarrow> string_body q (CHR 0x5C # c # b) (escape_char c # v)"

text \<open>Operators that would be read as a longer one, or as a comment, with the next character.\<close>

definition symbol_ends :: "string \<Rightarrow> char \<Rightarrow> bool" where
  "symbol_ends v c \<longleftrightarrow> (v = ''<'' \<longrightarrow> c \<noteq> CHR ''='' \<and> c \<noteq> CHR ''>'') \<and> (v = ''>'' \<longrightarrow> c \<noteq> CHR ''='') \<and>
     (v = ''-'' \<longrightarrow> c \<noteq> CHR ''-'') \<and> (v = ''/'' \<longrightarrow> c \<noteq> CHR ''*'')"

text \<open>\<open>lexeme x r ty v\<close>: before the text \<open>r\<close>, the text \<open>x\<close> is a token of type \<open>ty\<close> and value \<open>v\<close>.\<close>

inductive lexeme :: "string \<Rightarrow> string \<Rightarrow> token_type \<Rightarrow> string \<Rightarrow> bool" where
  lx_word: "\<lbrakk>w \<noteq> []; list_all is_word w; \<not> is_digit (hd w); \<not> is_word (first r)\<rbrakk> \<Longrightarrow> lexeme w r (word_type w) w"
| lx_number: "\<lbrakk>number_text v; \<not> is_digit (first r); CHR ''.'' \<in> set v \<or> first r \<noteq> CHR ''.''\<rbrakk> \<Longrightarrow>
     lexeme v r T_NUMBER v"
| lx_string: "string_body CHR 0x27 b v \<Longrightarrow> lexeme ([CHR 0x27] @ b @ [CHR 0x27]) r T_STRING v"
| lx_quoted: "\<lbrakk>CHR 0x22 \<notin> set i; NUL \<notin> set i\<rbrakk> \<Longrightarrow> lexeme ([CHR 0x22] @ i @ [CHR 0x22]) r T_IDENTIFIER i"
| lx_symbol: "\<lbrakk>(ty, v) \<in> set spellings; symbol_ends v (first r)\<rbrakk> \<Longrightarrow> lexeme v r ty v"

text \<open>
  \<open>lexes p t ts\<close>: behind the text \<open>p\<close>, the text \<open>t\<close> reads as the tokens \<open>ts\<close>. The end of a text is
  its last character or a NUL; a token carries the line and column at which it starts.
\<close>

inductive lexes :: "string \<Rightarrow> string \<Rightarrow> token list \<Rightarrow> bool" where
  lexes_end: "\<lbrakk>gap g r; first r = NUL; tk_type e = T_EOF_TOKEN; tk_value e = [];
      (tk_line e, tk_column e) = position (p @ g)\<rbrakk> \<Longrightarrow> lexes p (g @ r) [e]"
| lexes_token: "\<lbrakk>gap g (x @ r); lexeme x r (tk_type t) (tk_value t);
      (tk_line t, tk_column t) = position (p @ g); lexes (p @ g @ x) r ts\<rbrakk> \<Longrightarrow> lexes p (g @ x @ r) (t # ts)"

text \<open>What cannot be read: a text that starts no token, and what is said about it on line \<open>n\<close>.\<close>

inductive offends :: "string \<Rightarrow> nat \<Rightarrow> string \<Rightarrow> bool" where
  bad_comment: "no_close (takeWhile (\<lambda>c. c \<noteq> NUL) s) \<Longrightarrow> offends (''/*'' @ s) n ''Unterminated block comment''"
| bad_string: "(\<And>b v r. string_body CHR 0x27 b v \<Longrightarrow> s \<noteq> b @ [CHR 0x27] @ r) \<Longrightarrow>
     offends (CHR 0x27 # s) n (''Unterminated string literal at line '' @ show_nat n)"
| bad_quoted: "CHR 0x22 \<notin> set (takeWhile (\<lambda>c. c \<noteq> NUL) s) \<Longrightarrow>
     offends (CHR 0x22 # s) n (''Unterminated identifier at line '' @ show_nat n)"
| bad_number: "\<lbrakk>v \<noteq> []; list_all is_digit v; \<not> is_digit (first r); first r \<noteq> CHR ''.''\<rbrakk> \<Longrightarrow>
     offends (''0'' @ v @ r) n (''Invalid numeric literal at line '' @ show_nat n)"
| bad_char: "\<lbrakk>c \<noteq> NUL; \<not> is_space c; \<not> is_word c; c \<noteq> CHR 0x27; c \<noteq> CHR 0x22; c \<notin> hd ` snd ` set spellings\<rbrakk> \<Longrightarrow>
     offends (c # s) n (''Unexpected character at line '' @ show_nat n)"

text \<open>The first place where a text cannot be read on, behind a gap and any number of tokens.\<close>

inductive lex_fails :: "string \<Rightarrow> string \<Rightarrow> qerr \<Rightarrow> bool" where
  fails_here: "\<lbrakk>gap g r; offends r (fst (position (p @ g))) m\<rbrakk> \<Longrightarrow> lex_fails p (g @ r) (SQLParseException m)"
| fails_later: "\<lbrakk>gap g (x @ r); lexeme x r ty v; lex_fails (p @ g @ x) r e\<rbrakk> \<Longrightarrow> lex_fails p (g @ x @ r) e"

section \<open>The loops of the lexer\<close>

lemma current_first: "current l = first (rest l)"
  by (cases "rest l") simp_all

lemma first_append: "u \<noteq> [] \<Longrightarrow> first (u @ r) = hd u"
  by (cases u) simp_all

lemma rest_advanceE:
  assumes "current l \<noteq> NUL"
  obtains c cs where "rest l = c # cs" "rest (advance l) = cs" "current l = c"
  using assms by (cases "rest l") simp_all

lemma peek_first: "rest l = c # cs \<Longrightarrow> peek l = first cs"
  by (cases cs) (simp_all add: peek_rest)

lemma identifier_loop_split:
  "identifier_loop v l = (w, l') \<Longrightarrow>
     \<exists>u. w = v @ u \<and> rest l = u @ rest l' \<and> list_all is_word u \<and> \<not> is_word (current l')"
proof (induction v l rule: identifier_loop.induct)
  case (1 v l)
  show ?case
  proof (cases "is_word (current l)")
    case True
    then obtain c cs where cs: "rest l = c # cs" "rest (advance l) = cs" and cur: "current l = c"
      using rest_advanceE [of l] by fastforce
    have "identifier_loop (v @ [current l]) (advance l) = (w, l')"
      using 1(2) True by (simp add: identifier_loop.simps [of v l])
    from 1(1) [OF True this] obtain u where "w = (v @ [current l]) @ u" "cs = u @ rest l'"
      "list_all is_word u" "\<not> is_word (current l')" unfolding cs(2) by blast
    with cs(1) cur True show ?thesis by (intro exI [of _ "current l # u"]) simp
  next
    case False
    with 1(2) show ?thesis by (simp add: identifier_loop.simps [of v l])
  qed
qed

lemma number_loop_split:
  "number_loop d v l = (d', w, l') \<Longrightarrow>
     \<exists>u. w = v @ u \<and> rest l = u @ rest l' \<and> \<not> is_digit (current l') \<and> (d' \<or> current l' \<noteq> CHR ''.'')"
proof (induction d v l rule: number_loop.induct)
  case (1 d v l)
  let ?more = "is_digit (current l) \<or> (current l = CHR ''.'' \<and> \<not> d)"
  show ?case
  proof (cases ?more)
    case True
    then obtain c cs where cs: "rest l = c # cs" "rest (advance l) = cs" and cur: "current l = c"
      using rest_advanceE [of l] by fastforce
    have "number_loop (d \<or> current l = CHR ''.'') (v @ [current l]) (advance l) = (d', w, l')"
      using 1(2) True by (simp add: number_loop.simps [of d v l])
    from 1(1) [OF True this] obtain u where "w = (v @ [current l]) @ u" "cs = u @ rest l'"
      "\<not> is_digit (current l')" "d' \<or> current l' \<noteq> CHR ''.''" unfolding cs(2) by blast
    with cs(1) cur show ?thesis by (intro exI [of _ "current l # u"]) simp
  next
    case False
    with 1(2) have "d' = d" "w = v" "l' = l" by (auto simp: number_loop.simps [of d v l])
    with False show ?thesis by auto
  qed
qed

lemma quoted_loop_split:
  "quoted_loop v l = (w, l') \<Longrightarrow>
     \<exists>u. w = v @ u \<and> rest l = u @ rest l' \<and> CHR 0x22 \<notin> set u \<and> NUL \<notin> set u \<and>
       (current l' = CHR 0x22 \<or> current l' = NUL)"
proof (induction v l rule: quoted_loop.induct)
  case (1 v l)
  show ?case
  proof (cases "current l \<noteq> CHR 0x22 \<and> current l \<noteq> NUL")
    case True
    then obtain c cs where cs: "rest l = c # cs" "rest (advance l) = cs" and cur: "current l = c"
      using rest_advanceE [of l] by blast
    have "quoted_loop (v @ [current l]) (advance l) = (w, l')"
      using 1(2) True by (simp add: quoted_loop.simps [of v l])
    from 1(1) [OF True this] obtain u where "w = (v @ [current l]) @ u" "cs = u @ rest l'"
      "CHR 0x22 \<notin> set u" "NUL \<notin> set u" "current l' = CHR 0x22 \<or> current l' = NUL" unfolding cs(2) by blast
    with cs(1) cur True show ?thesis by (intro exI [of _ "current l # u"]) auto
  next
    case False
    with 1(2) have "w = v" "l' = l" by (auto simp: quoted_loop.simps [of v l])
    with False show ?thesis by auto
  qed
qed

lemma skip_line_split:
  "\<exists>u. rest l = u @ rest (skip_line l) \<and> CHR 0x0A \<notin> set u \<and> NUL \<notin> set u \<and>
     (current (skip_line l) = CHR 0x0A \<or> current (skip_line l) = NUL)"
proof (induction l rule: skip_line.induct)
  case (1 l)
  show ?case
  proof (cases "current l \<noteq> CHR 0x0A \<and> current l \<noteq> NUL")
    case True
    then obtain c cs where cs: "rest l = c # cs" "rest (advance l) = cs" and cur: "current l = c"
      using rest_advanceE [of l] by blast
    have eq: "skip_line l = skip_line (advance l)" using True by (simp add: skip_line.simps [of l])
    from 1 [OF True] obtain u where "cs = u @ rest (skip_line l)" "CHR 0x0A \<notin> set u" "NUL \<notin> set u"
      "current (skip_line l) = CHR 0x0A \<or> current (skip_line l) = NUL" unfolding cs(2) eq by blast
    with cs(1) cur True show ?thesis by (intro exI [of _ "current l # u"]) auto
  next
    case False
    then have "skip_line l = l" by (auto simp: skip_line.simps [of l])
    with False show ?thesis by auto
  qed
qed

lemma no_close_Cons: "no_close (c # s) \<longleftrightarrow> \<not> (c = CHR ''*'' \<and> first s = CHR ''/'') \<and> no_close s"
  by (cases s) auto

lemma skip_block_split:
  "skip_block l = Inr l' \<Longrightarrow> \<exists>s. rest l = s @ ''*/'' @ rest l' \<and> NUL \<notin> set s \<and> no_close s"
proof (induction l rule: skip_block.induct)
  case (1 l)
  from 1(2) have nul: "current l \<noteq> NUL" by (auto simp: skip_block.simps [of l] split: if_splits)
  then obtain c cs where cs: "rest l = c # cs" "rest (advance l) = cs" and cur: "current l = c"
    using rest_advanceE [of l] by blast
  note peek = peek_first [OF cs(1)]
  show ?case
  proof (cases "current l = CHR ''*'' \<and> peek l = CHR ''/''")
    case True
    with 1(2) nul have "l' = advance (advance l)" by (simp add: skip_block.simps [of l])
    moreover obtain r where "cs = CHR ''/'' # r" using True peek by (cases cs) auto
    ultimately show ?thesis using True cs cur by (intro exI [of _ "[]"]) simp
  next
    case False
    with 1(2) nul have "skip_block (advance l) = Inr l'" by (simp add: skip_block.simps [of l])
    from 1(1) [OF nul False this] obtain s where s: "cs = s @ ''*/'' @ rest l'" "NUL \<notin> set s" "no_close s"
      unfolding cs(2) by blast
    have "first s = first cs" if "first s = CHR ''/''" using that s(1) by (cases s) auto
    with False peek s(3) cur have "no_close (current l # s)" by (auto simp: no_close_Cons)
    with cs(1) cur s nul show ?thesis by (intro exI [of _ "current l # s"]) auto
  qed
qed

lemma skip_block_fails:
  "skip_block l = Inl e \<Longrightarrow> e = SQLParseException ''Unterminated block comment'' \<and>
     no_close (takeWhile (\<lambda>c. c \<noteq> NUL) (rest l))"
proof (induction l rule: skip_block.induct)
  case (1 l)
  show ?case
  proof (cases "current l = NUL")
    case True
    with 1(2) show ?thesis by (cases "rest l") (simp_all add: skip_block.simps [of l])
  next
    case nul: False
    then obtain c cs where cs: "rest l = c # cs" "rest (advance l) = cs" and cur: "current l = c"
      using rest_advanceE [of l] by blast
    note peek = peek_first [OF cs(1)]
    from 1(2) nul have op: "\<not> (current l = CHR ''*'' \<and> peek l = CHR ''/'')"
      and "skip_block (advance l) = Inl e" by (auto simp: skip_block.simps [of l] split: if_splits)
    from 1(1) [OF nul this] have "e = SQLParseException ''Unterminated block comment''"
      "no_close (takeWhile (\<lambda>c. c \<noteq> NUL) cs)" unfolding cs(2) by blast+
    moreover have "first (takeWhile (\<lambda>c. c \<noteq> NUL) cs) = first cs" by (cases cs) simp_all
    ultimately show ?thesis using op peek nul cur by (subst cs(1)) (simp add: no_close_Cons)
  qed
qed

text \<open>
  The loop over a string: it stops behind a body, at the quote or where the text ends, or it has run
  past a backslash at the end of the text. On a body followed by the quote it stops at that quote.
\<close>

lemma string_loop_split:
  "string_loop q v l = (w, l') \<Longrightarrow> (\<exists>b u. w = v @ u \<and> rest l = b @ rest l' \<and> string_body q b u) \<or> rest l' = []"
proof (induction q v l rule: string_loop.induct)
  case (1 q v l)
  show ?case
  proof (cases "current l \<noteq> q \<and> current l \<noteq> NUL")
    case True
    then obtain c cs where cs: "rest l = c # cs" "rest (advance l) = cs" and cur: "current l = c"
      using rest_advanceE [of l] by blast
    show ?thesis
    proof (cases "current l = CHR 0x5C")
      case esc: True
      have "string_loop q (v @ [escape_char (current (advance l))]) (advance (advance l)) = (w, l')"
        using 1(3) True esc by (simp add: string_loop.simps [of q v l])
      from 1(1) [OF True esc this] show ?thesis
      proof
        assume "\<exists>b u. w = (v @ [escape_char (current (advance l))]) @ u \<and>
          rest (advance (advance l)) = b @ rest l' \<and> string_body q b u"
        then obtain b u where bu: "w = (v @ [escape_char (current (advance l))]) @ u"
          "tl cs = b @ rest l'" "string_body q b u" using cs(2) by auto
        show ?thesis
        proof (cases cs)
          case (Cons d r)
          then have "current (advance l) = d" using cs(2) by (simp add: current_first)
          with bu cs(1) cur Cons esc body_escape [OF bu(3), of d] show ?thesis
            by (intro disjI1 exI [of _ "CHR 0x5C # d # b"] exI [of _ "escape_char d # u"]) simp
        qed (use bu in auto)
      qed simp
    next
      case plain: False
      have "string_loop q (v @ [current l]) (advance l) = (w, l')"
        using 1(3) True plain by (simp add: string_loop.simps [of q v l])
      from 1(2) [OF True plain this] show ?thesis
      proof
        assume "\<exists>b u. w = (v @ [current l]) @ u \<and> rest (advance l) = b @ rest l' \<and> string_body q b u"
        then obtain b u where "w = (v @ [current l]) @ u" "cs = b @ rest l'" "string_body q b u"
          using cs(2) by auto
        with cs(1) cur True plain show ?thesis
          by (intro disjI1 exI [of _ "current l # b"] exI [of _ "current l # u"]) (auto intro: body_plain)
      qed simp
    qed
  next
    case False
    with 1(3) have "w = v" "l' = l" by (auto simp: string_loop.simps [of q v l])
    then show ?thesis by (auto intro!: exI [of _ "[]"] body_nil)
  qed
qed

lemma string_loop_body:
  assumes "string_body q b u" "q \<noteq> NUL" "q \<noteq> CHR 0x5C" "rest l = b @ q # t"
  shows "\<exists>l'. string_loop q v l = (v @ u, l') \<and> rest l' = q # t"
  using assms(1,4)
proof (induction arbitrary: v l rule: string_body.induct)
  case body_nil
  then show ?case by (simp add: string_loop.simps [of _ _ l])
next
  case (body_plain c b u)
  from body_plain.IH [of "advance l" "v @ [c]"] body_plain show ?case
    by (simp add: string_loop.simps [of _ _ l])
next
  case (body_escape b u c)
  have "current (advance l) = c" using body_escape.prems by (simp add: current_first)
  with body_escape.IH [of "advance (advance l)" "v @ [escape_char c]"] body_escape.prems assms(3) show ?case
    by (simp add: string_loop.simps [of _ _ l])
qed

section \<open>Tokens and gaps\<close>

text \<open>The part of the input that has been read.\<close>

definition seen :: "lexer \<Rightarrow> string" where
  "seen l = take (lx_pos l) (lx_input l)"

lemma seen_rest: "seen l @ rest l = lx_input l"
  by (simp add: seen_def rest_def)

lemma seen_step:
  assumes "lex_le l l'" "rest l = u @ rest l'"
  shows "seen l' = seen l @ u"
proof -
  have "seen l' @ rest l' = seen l @ rest l"
    using lex_le_pos [OF assms(1)] by (simp add: seen_rest)
  with assms(2) show ?thesis by simp
qed

lemma lex_ok_position: "lex_ok l \<Longrightarrow> (lx_line l, lx_column l) = position (seen l)"
  by (simp add: lex_ok_def seen_def)

lemma skip_whitespace_gap: "\<exists>g. rest l = g @ rest (skip_whitespace l) \<and> list_all is_space g"
  using takeWhile_dropWhile_id [of is_space "rest l"]
  by (intro exI [of _ "takeWhile is_space (rest l)"]) (auto simp: rest_skip_whitespace list_all_iff dest: set_takeWhileD)

lemma gap_spaces: "list_all is_space w \<Longrightarrow> gap g r \<Longrightarrow> gap (w @ g) r"
  by (induction w) (auto intro: gap_space)

text \<open>A comment is a gap together with the gap behind it.\<close>

lemma skip_comment_gap:
  assumes "at_comment l" "skip_comment l = Inr l'"
  shows "\<exists>w. rest l = w @ rest l' \<and> (\<forall>g r. gap g r \<longrightarrow> g @ r = rest l' \<longrightarrow> gap (w @ g) r)"
proof (cases "current l = CHR ''-'' \<and> peek l = CHR ''-''")
  case True
  then obtain cs where l: "rest l = ''--'' @ cs" by (auto simp: peek_rest current_rest split: list.splits)
  have skip: "skip_line l = skip_line (advance (advance l))"
    using l by (simp add: skip_line.simps [of l] skip_line.simps [of "advance l"] current_first)
  let ?k = "skip_line (advance (advance l))"
  obtain u where u: "cs = u @ rest ?k" "CHR 0x0A \<notin> set u" "NUL \<notin> set u" "current ?k = CHR 0x0A \<or> current ?k = NUL"
    using skip_line_split [of "advance (advance l)"] l by auto
  show ?thesis
  proof (cases "current ?k = CHR 0x0A")
    case nl: True
    then obtain r where r: "rest ?k = CHR 0x0A # r" by (cases "rest ?k") auto
    have "l' = advance ?k" using assms(2) True nl skip by (simp add: skip_comment_def Let_def)
    moreover have "gap (''--'' @ u @ CHR 0x0A # g) t" if "gap g t" for g t
      using u(2,3) that by (intro gap_line gap_space) (simp_all add: is_space_def)
    ultimately show ?thesis using l u(1) r by (intro exI [of _ "''--'' @ u @ [CHR 0x0A]"]) simp
  next
    case False
    then have "l' = ?k" "current ?k = NUL" using assms(2) True skip u(4) by (simp_all add: skip_comment_def Let_def)
    moreover have "gap (''--'' @ u @ g) t" if "gap g t" "g @ t = rest ?k" for g t
      using u(2,3) that \<open>current ?k = NUL\<close> by (intro gap_line) (simp_all add: current_first)
    ultimately show ?thesis using l u(1) by (intro exI [of _ "''--'' @ u"]) simp
  qed
next
  case False
  with assms have "current l = CHR ''/''" "peek l = CHR ''*''" "skip_block (advance (advance l)) = Inr l'"
    by (auto simp: at_comment_def skip_comment_def)
  moreover then obtain cs where "rest l = ''/*'' @ cs" by (auto simp: peek_rest current_rest split: list.splits)
  ultimately obtain s where "rest l = ''/*'' @ s @ ''*/'' @ rest l'" "NUL \<notin> set s" "no_close s"
    using skip_block_split [of "advance (advance l)" l'] by auto
  then show ?thesis
    by (intro exI [of _ "''/*'' @ s @ ''*/''"]) (use gap_block [of s] in simp)
qed

lemma number_lexeme:
  assumes "read_number l = Inr (t, l')" "is_digit (current l)"
  shows "\<exists>x. rest l = x @ rest l' \<and> lexeme x (rest l') (tk_type t) (tk_value t)"
proof -
  obtain d w k where n: "number_loop False [] l = (d, w, k)" by (cases "number_loop False [] l")
  from number_loop_split [OF n] have w: "rest l = w @ rest k" "\<not> is_digit (current k)" "d \<or> current k \<noteq> CHR ''.''"
    by auto
  have t: "t = Token T_NUMBER w (lx_line l) (lx_column l)" "l' = k"
    and zero: "\<not> (\<not> d \<and> 1 < length w \<and> w ! 0 = CHR ''0'')"
    using assms n by (auto simp: read_number_def Let_def split: if_splits)
  have wt: "list_all (\<lambda>c. is_digit c \<or> c = CHR ''.'') w" "count_list w (CHR ''.'') = (if d then 1 else 0)"
    using number_loop_text [OF n] by auto
  have dot: "d \<longleftrightarrow> CHR ''.'' \<in> set w" using wt(2) by (metis count_list_0_iff zero_neq_one)
  have "w \<noteq> []" using w(1,2) assms(2) by (auto simp: current_first)
  moreover have "hd w = current l" using w(1) \<open>w \<noteq> []\<close> by (simp add: current_first first_append)
  ultimately have "number_text w"
    using wt zero dot assms(2) by (auto simp: number_text_def hd_conv_nth Suc_lessI)
  with w dot show ?thesis by (auto simp: t current_first intro!: lx_number exI [of _ w])
qed

lemma operator_lexeme:
  assumes "read_operator l = Inr (t, l')" "current l \<noteq> CHR ''*''" "\<not> at_comment l"
  shows "\<exists>x. rest l = x @ rest l' \<and> lexeme x (rest l') (tk_type t) (tk_value t)"
proof -
  have "current l \<noteq> NUL" using assms(1) by (auto simp: read_operator_def Let_def)
  then obtain c cs where l: "rest l = c # cs" "rest (advance l) = cs" "current l = c" using rest_advanceE by blast
  have cur: "current (advance l) = first cs" using l(2) by (simp add: current_first)
  have nc: "c = CHR ''-'' \<Longrightarrow> first cs \<noteq> CHR ''-''" "c = CHR ''/'' \<Longrightarrow> first cs \<noteq> CHR ''*''"
    using assms(3) l peek_first [OF l(1)] by (auto simp: at_comment_def)
  have "(\<exists>ty. t = Token ty [c] (lx_line l) (lx_column l) \<and> l' = advance l \<and> (ty, [c]) \<in> set spellings \<and>
        symbol_ends [c] (first cs)) \<or>
      (\<exists>ty. t = Token ty [c, first cs] (lx_line l) (lx_column l) \<and> l' = advance (advance l) \<and>
        first cs \<noteq> NUL \<and> (ty, [c, first cs]) \<in> set spellings)"
    using assms(1,2) nc l(3) cur
    by (auto simp: read_operator_def Let_def symbol_ends_def operators_spelled split: if_splits)
  then show ?thesis
  proof (elim disjE exE conjE)
    fix ty
    assume "t = Token ty [c] (lx_line l) (lx_column l)" "l' = advance l" "(ty, [c]) \<in> set spellings"
      "symbol_ends [c] (first cs)"
    with l show ?thesis by (intro exI [of _ "[c]"]) (auto intro: lx_symbol)
  next
    fix ty
    assume t: "t = Token ty [c, first cs] (lx_line l) (lx_column l)" "l' = advance (advance l)"
      "first cs \<noteq> NUL" "(ty, [c, first cs]) \<in> set spellings"
    moreover obtain d r where "cs = d # r" using t(3) by (cases cs) auto
    moreover have "symbol_ends [c, first cs] x" for x by (simp add: symbol_ends_def)
    ultimately show ?thesis using l by (intro exI [of _ "[c, d]"]) (auto intro: lx_symbol)
  qed
qed

lemma string_lexeme:
  assumes "read_string CHR 0x27 l = Inr (t, l')" "current l = CHR 0x27"
  shows "\<exists>x. rest l = x @ rest l' \<and> lexeme x (rest l') (tk_type t) (tk_value t)"
proof -
  obtain w k where n: "string_loop CHR 0x27 [] (advance l) = (w, k)" by fastforce
  from assms n have k: "current k = CHR 0x27" "t = Token T_STRING w (lx_line l) (lx_column l)" "l' = advance k"
    by (auto simp: read_string_def Let_def split: if_splits)
  then obtain r where r: "rest k = CHR 0x27 # r" by (cases "rest k") auto
  with string_loop_split [OF n] obtain b where b: "rest (advance l) = b @ CHR 0x27 # r" "string_body CHR 0x27 b w"
    by auto
  obtain cs where "rest l = CHR 0x27 # cs" using assms(2) by (cases "rest l") auto
  with b k r lx_string [OF b(2), of r] show ?thesis
    by (intro exI [of _ "[CHR 0x27] @ b @ [CHR 0x27]"]) simp
qed

lemma quoted_lexeme:
  assumes "read_quoted l = Inr (t, l')" "current l = CHR 0x22"
  shows "\<exists>x. rest l = x @ rest l' \<and> lexeme x (rest l') (tk_type t) (tk_value t)"
proof -
  obtain w k where n: "quoted_loop [] (advance l) = (w, k)" by fastforce
  from assms n have k: "current k = CHR 0x22" "t = Token T_IDENTIFIER w (lx_line l) (lx_column l)" "l' = advance k"
    by (auto simp: read_quoted_def Let_def split: if_splits)
  then obtain r where r: "rest k = CHR 0x22 # r" by (cases "rest k") auto
  with quoted_loop_split [OF n] have w: "rest (advance l) = w @ CHR 0x22 # r" "CHR 0x22 \<notin> set w" "NUL \<notin> set w"
    by auto
  obtain cs where "rest l = CHR 0x22 # cs" using assms(2) by (cases "rest l") auto
  with w k r lx_quoted [OF w(2,3), of r] show ?thesis
    by (intro exI [of _ "[CHR 0x22] @ w @ [CHR 0x22]"]) simp
qed

lemma identifier_lexeme:
  assumes "read_identifier l = (t, l')" "is_alpha (current l) \<or> current l = CHR ''_''" "\<not> is_digit (current l)"
  shows "\<exists>x. rest l = x @ rest l' \<and> lexeme x (rest l') (tk_type t) (tk_value t)"
proof -
  obtain w k where n: "identifier_loop [] l = (w, k)" by fastforce
  from identifier_loop_split [OF n] have w: "rest l = w @ rest k" "list_all is_word w" "\<not> is_word (current k)"
    by auto
  have "is_word (current l)" using assms(2) by (auto simp: is_word_def)
  with w(1,3) have "w \<noteq> []" by (auto simp: current_first)
  moreover from this have "hd w = current l" using w(1) by (simp add: current_first first_append)
  ultimately show ?thesis using assms n w
    by (auto simp: read_identifier_def Let_def current_first intro!: lx_word exI [of _ w])
qed

lemma read_token_lexeme:
  assumes "read_token l = Inr (t, l')" "\<not> at_comment l"
  shows "\<exists>x. rest l = x @ rest l' \<and> lexeme x (rest l') (tk_type t) (tk_value t)"
proof -
  let ?c = "current l"
  consider (str) "?c = CHR 0x27" | (quo) "?c = CHR 0x22" | (num) "?c \<noteq> CHR 0x27" "?c \<noteq> CHR 0x22" "is_digit ?c"
    | (word) "?c \<noteq> CHR 0x27" "?c \<noteq> CHR 0x22" "\<not> is_digit ?c" "is_alpha ?c \<or> ?c = CHR ''_''"
    | (other) "?c \<noteq> CHR 0x27" "?c \<noteq> CHR 0x22" "\<not> is_digit ?c" "\<not> (is_alpha ?c \<or> ?c = CHR ''_'')"
    by blast
  then show ?thesis
  proof cases
    case str
    with assms string_lexeme show ?thesis by (simp add: read_token_def)
  next
    case quo
    with assms quoted_lexeme show ?thesis by (simp add: read_token_def)
  next
    case num
    with assms number_lexeme show ?thesis by (simp add: read_token_def)
  next
    case word
    with assms identifier_lexeme show ?thesis by (simp add: read_token_def)
  next
    case other
    then have t: "(case punctuation ?c of Some ty \<Rightarrow> Inr (Token ty [?c] (lx_line l) (lx_column l), advance l)
        | None \<Rightarrow> read_operator l) = Inr (t, l')" using assms(1) by (simp add: read_token_def)
    show ?thesis
    proof (cases "punctuation ?c")
      case None
      then have "?c \<noteq> CHR ''*''" by (auto simp: punctuation_def)
      with t None assms(2) operator_lexeme show ?thesis by simp
    next
      case (Some ty)
      then have "?c \<noteq> NUL" by (auto simp: punctuation_def)
      then obtain c cs where l: "rest l = c # cs" "rest (advance l) = cs" "current l = c" using rest_advanceE by blast
      have "symbol_ends [c] (first cs)" using Some l(3) by (auto simp: symbol_ends_def punctuation_def)
      with t Some l punctuation_spelled [OF Some] show ?thesis
        by (intro exI [of _ "[c]"]) (auto intro: lx_symbol)
    qed
  qed
qed

section \<open>The lexer reads by the grammar\<close>

lemma lexes_prepend:
  assumes "lexes (p @ w) txt ts" "\<And>g r. gap g r \<Longrightarrow> g @ r = txt \<Longrightarrow> gap (w @ g) r"
  shows "lexes p (w @ txt) ts"
  using assms(1)
proof (cases rule: lexes.cases)
  case (lexes_end g r e)
  with assms(2) [of g r] lexes.lexes_end [of "w @ g" r e p] show ?thesis by simp
next
  case (lexes_token g x r t ts')
  with assms(2) [of g "x @ r"] lexes.lexes_token [of "w @ g" x r t p ts'] show ?thesis by simp
qed

lemma lex_fails_prepend:
  assumes "lex_fails (p @ w) txt e" "\<And>g r. gap g r \<Longrightarrow> g @ r = txt \<Longrightarrow> gap (w @ g) r"
  shows "lex_fails p (w @ txt) e"
  using assms(1)
proof (cases rule: lex_fails.cases)
  case (fails_here g r m)
  with assms(2) [of g r] lex_fails.fails_here [of "w @ g" r p m] show ?thesis by simp
next
  case (fails_later g x r ty v)
  with assms(2) [of g "x @ r"] lex_fails.fails_later [of "w @ g" x r ty v p e] show ?thesis by simp
qed

lemma round_lexes:
  assumes "lex_round l = Inr (us, l')"
  shows "\<exists>w. rest l = w @ rest l' \<and>
    ((us = [] \<and> (\<forall>g r. gap g r \<longrightarrow> g @ r = rest l' \<longrightarrow> gap (w @ g) r)) \<or>
     (\<exists>t. us = [t] \<and> lexeme w (rest l') (tk_type t) (tk_value t) \<and>
        (tk_line t, tk_column t) = (lx_line l, lx_column l)))"
proof (cases "at_comment l")
  case True
  with assms have "us = []" "skip_comment l = Inr l'" by (auto simp: lex_round_def map_sum_def split: sum.splits)
  with skip_comment_gap [OF True] show ?thesis by blast
next
  case False
  with assms obtain t where "us = [t]" "read_token l = Inr (t, l')"
    by (auto simp: lex_round_def map_sum_def split: sum.splits)
  with read_token_lexeme [OF this(2) False] read_token_ok [OF this(2)] show ?thesis by auto
qed

lemma tokenize_loop_lexes:
  assumes "tokenize_loop tokens l = Inr ts" "lex_ok l"
  shows "\<exists>rs. ts = tokens @ rs \<and> lexes (seen l) (rest l) rs"
  using assms
proof (induction tokens l rule: tokenize_loop.induct)
  case (1 tokens l)
  let ?l1 = "skip_whitespace l"
  have le: "lex_le l ?l1" by (rule skip_whitespace_le)
  have l1: "lex_ok ?l1" using lex_ok_le [OF le 1(3)] .
  obtain g where g: "rest l = g @ rest ?l1" "list_all is_space g" using skip_whitespace_gap by blast
  have gap: "gap (g @ h) r" if "gap h r" for h r using gap_spaces [OF g(2) that] .
  have seen: "seen ?l1 = seen l @ g" using seen_step [OF le g(1)] .
  have step: "\<exists>rs. ts = tokens @ rs \<and> lexes (seen l) (rest l) rs"
    if "ts = tokens @ rs" "lexes (seen ?l1) (rest ?l1) rs" for rs
    using lexes_prepend [of "seen l" g "rest ?l1" rs] gap that by (auto simp: seen g(1))
  show ?case
  proof (cases "lx_pos l < length (lx_input l) \<and> current ?l1 \<noteq> NUL")
    case True
    with 1(2) obtain us l2 where r: "lex_round ?l1 = Inr (us, l2)" "tokenize_loop (tokens @ us) l2 = Inr ts"
      by (subst (asm) tokenize_loop.simps) (auto simp: Let_def split: sum.splits)
    have le2: "lex_le ?l1 l2" using lex_round_le [OF r(1)] by (rule lex_le_step)
    from 1(1) [OF _ refl _ r(1) refl r(2) lex_ok_le [OF le2 l1]] True obtain rs
      where rs: "ts = (tokens @ us) @ rs" "lexes (seen l2) (rest l2) rs" by blast
    from round_lexes [OF r(1)] obtain w where w: "rest ?l1 = w @ rest l2"
      and "(us = [] \<and> (\<forall>g r. gap g r \<longrightarrow> g @ r = rest l2 \<longrightarrow> gap (w @ g) r)) \<or>
       (\<exists>t. us = [t] \<and> lexeme w (rest l2) (tk_type t) (tk_value t) \<and>
          (tk_line t, tk_column t) = (lx_line ?l1, lx_column ?l1))" by blast
    moreover have seen2: "seen l2 = seen ?l1 @ w" using seen_step [OF le2 w] .
    ultimately show ?thesis
    proof (elim disjE exE conjE)
      assume "us = []" "\<forall>g r. gap g r \<longrightarrow> g @ r = rest l2 \<longrightarrow> gap (w @ g) r"
      with rs seen2 lexes_prepend [of "seen ?l1" w "rest l2" rs] w show ?thesis by (intro step) auto
    next
      fix t
      assume "us = [t]" "lexeme w (rest l2) (tk_type t) (tk_value t)"
        "(tk_line t, tk_column t) = (lx_line ?l1, lx_column ?l1)"
      with rs seen2 w lex_ok_position [OF l1] lexes_token [of "[]" w "rest l2" t "seen ?l1" rs] show ?thesis
        by (intro step) (auto intro: gap_nil)
    qed
  next
    case False
    have end_token: "lexes (seen k) (rest k) [eof_token k]" if "lex_ok k" "current k = NUL" for k
      using lexes_end [of "[]" "rest k" "eof_token k" "seen k"] lex_ok_position [OF that(1)] that(2)
      by (simp add: gap_nil eof_token_def current_first)
    show ?thesis
    proof (cases "lx_pos l < length (lx_input l)")
      case True
      with False 1(2) have "ts = tokens @ [eof_token ?l1]" "current ?l1 = NUL"
        by (auto simp: tokenize_loop.simps [of tokens l])
      with step end_token [OF l1] show ?thesis by blast
    next
      case False
      with 1(2) have "ts = tokens @ [eof_token l]" by (simp add: tokenize_loop.simps [of tokens l])
      moreover have "current l = NUL" using False by (simp add: current_def)
      ultimately show ?thesis using end_token [OF 1(3)] by blast
    qed
  qed
qed

section \<open>The lexer fails by the grammar\<close>

lemma string_offends:
  assumes "read_string CHR 0x27 l = Inl e" "rest l = CHR 0x27 # s"
  shows "\<exists>m. e = SQLParseException m \<and> offends (rest l) (lx_line l) m"
proof -
  obtain w k where n: "string_loop CHR 0x27 [] (advance l) = (w, k)" by fastforce
  with assms(1) have k: "current k \<noteq> CHR 0x27"
    and e: "e = SQLParseException (''Unterminated string literal at line '' @ show_nat (lx_line l))"
    by (auto simp: read_string_def Let_def split: if_splits)
  have "s \<noteq> b @ [CHR 0x27] @ r" if "string_body CHR 0x27 b v" for b v r
  proof
    assume "s = b @ [CHR 0x27] @ r"
    with assms(2) have "rest (advance l) = b @ CHR 0x27 # r" by simp
    from string_loop_body [OF that _ _ this, of "[]"] n k show False by auto
  qed
  then have "offends (CHR 0x27 # s) (lx_line l) (''Unterminated string literal at line '' @ show_nat (lx_line l))"
    by (intro bad_string)
  with e assms(2) show ?thesis by simp
qed

lemma quoted_offends:
  assumes "read_quoted l = Inl e" "rest l = CHR 0x22 # s"
  shows "\<exists>m. e = SQLParseException m \<and> offends (rest l) (lx_line l) m"
proof -
  obtain w k where n: "quoted_loop [] (advance l) = (w, k)" by fastforce
  with assms(1) have "current k \<noteq> CHR 0x22"
    and e: "e = SQLParseException (''Unterminated identifier at line '' @ show_nat (lx_line l))"
    by (auto simp: read_quoted_def Let_def split: if_splits)
  with quoted_loop_split [OF n] assms(2) have w: "s = w @ rest k" "CHR 0x22 \<notin> set w" "NUL \<notin> set w"
    "first (rest k) = NUL" by (auto simp: current_first)
  then have "takeWhile (\<lambda>c. c \<noteq> NUL) (rest k) = []" by (cases "rest k") auto
  with w have "takeWhile (\<lambda>c. c \<noteq> NUL) s = w"
    unfolding w(1) by (subst takeWhile_append2) auto
  with e w(2) assms(2) bad_quoted [of s "lx_line l"] show ?thesis by auto
qed

lemma number_offends:
  assumes "read_number l = Inl e"
  shows "\<exists>m. e = SQLParseException m \<and> offends (rest l) (lx_line l) m"
proof -
  obtain d w k where n: "number_loop False [] l = (d, w, k)" by (cases "number_loop False [] l")
  with assms have w: "\<not> d" "1 < length w" "w ! 0 = CHR ''0''"
    and e: "e = SQLParseException (''Invalid numeric literal at line '' @ show_nat (lx_line l))"
    by (auto simp: read_number_def Let_def split: if_splits)
  from w(2,3) obtain v where v: "w = CHR ''0'' # v" "v \<noteq> []" by (cases w) auto
  have "list_all (\<lambda>c. is_digit c \<or> c = CHR ''.'') w" "count_list w (CHR ''.'') = 0"
    using number_loop_text [OF n] w(1) by auto
  then have "list_all is_digit v" using v(1) by (auto simp: list_all_iff count_list_0_iff)
  with number_loop_split [OF n] w(1) v e show ?thesis
    using bad_number [of v "rest k" "lx_line l"] by (auto simp: current_first)
qed

lemma round_offends:
  assumes "lex_round l = Inl e" "current l \<noteq> NUL" "\<not> is_space (current l)"
  shows "\<exists>m. e = SQLParseException m \<and> offends (rest l) (lx_line l) m"
proof (cases "at_comment l")
  case True
  with assms(1) have c: "current l = CHR ''/''" "peek l = CHR ''*''" "skip_block (advance (advance l)) = Inl e"
    by (auto simp: lex_round_def at_comment_def skip_comment_def map_sum_def Let_def split: sum.splits if_splits)
  from c(1,2) obtain s where "rest l = ''/*'' @ s" by (auto simp: peek_rest current_rest split: list.splits)
  moreover from this skip_block_fails [OF c(3)] have "e = SQLParseException ''Unterminated block comment''"
    "no_close (takeWhile (\<lambda>c. c \<noteq> NUL) s)" by auto
  ultimately show ?thesis using bad_comment [of s "lx_line l"] by auto
next
  case False
  with assms(1) have t: "read_token l = Inl e" by (auto simp: lex_round_def map_sum_def split: sum.splits)
  obtain c cs where l: "rest l = c # cs" "current l = c" using assms(2) rest_advanceE [of l] by blast
  show ?thesis
  proof (cases "c = CHR 0x27 \<or> c = CHR 0x22 \<or> is_digit c")
    case True
    with t l string_offends [of l e cs] quoted_offends [of l e cs] number_offends [of l e] show ?thesis
      by (auto simp: read_token_def split: if_splits)
  next
    case False
    with t l have "\<not> is_alpha c" "c \<noteq> CHR ''_''" and p: "punctuation c = None" and o: "read_operator l = Inl e"
      by (auto simp: read_token_def split: if_splits option.splits)
    with False have "\<not> is_word c" by (simp add: is_word_def)
    moreover have "c \<notin> hd ` snd ` set spellings"
      using p o l(2) by (auto simp: punctuation_def spellings_def read_operator_def Let_def split: if_splits)
    moreover have "e = SQLParseException (''Unexpected character at line '' @ show_nat (lx_line l))"
      using o by (auto simp: read_operator_def Let_def split: if_splits)
    ultimately show ?thesis using False assms(2,3) l bad_char [of c cs "lx_line l"] by auto
  qed
qed

lemma tokenize_loop_fails:
  assumes "tokenize_loop tokens l = Inl e" "lex_ok l"
  shows "lex_fails (seen l) (rest l) e"
  using assms
proof (induction tokens l rule: tokenize_loop.induct)
  case (1 tokens l)
  let ?l1 = "skip_whitespace l"
  have le: "lex_le l ?l1" by (rule skip_whitespace_le)
  have l1: "lex_ok ?l1" using lex_ok_le [OF le 1(3)] .
  obtain g where g: "rest l = g @ rest ?l1" "list_all is_space g" using skip_whitespace_gap by blast
  have seen: "seen ?l1 = seen l @ g" using seen_step [OF le g(1)] .
  have step: ?case if "lex_fails (seen ?l1) (rest ?l1) e"
    using lex_fails_prepend [of "seen l" g "rest ?l1" e] gap_spaces [OF g(2)] that by (auto simp: seen g(1))
  from 1(2) have run: "lx_pos l < length (lx_input l)" "current ?l1 \<noteq> NUL"
    by (auto simp: tokenize_loop.simps [of tokens l] Let_def split: if_splits)
  show ?case
  proof (cases "lex_round ?l1")
    case (Inl e')
    with 1(2) run have "lex_round ?l1 = Inl e" by (simp add: tokenize_loop.simps [of tokens l] Let_def)
    moreover have "\<not> is_space (current ?l1)"
    proof (cases "rest ?l1")
      case (Cons c cs)
      then show ?thesis using rest_skip_whitespace [of l] by (simp add: dropWhile_eq_Cons_conv)
    qed simp
    ultimately obtain m where "e = SQLParseException m" "offends (rest ?l1) (lx_line ?l1) m"
      using round_offends run(2) by blast
    with lex_ok_position [OF l1] have "lex_fails (seen ?l1) ([] @ rest ?l1) e"
      by (metis fails_here append_Nil2 fst_conv gap_nil)
    with step show ?thesis by simp
  next
    case (Inr r)
    obtain us l2 where r: "lex_round ?l1 = Inr (us, l2)" using Inr by (cases r) simp
    with 1(2) run have t: "tokenize_loop (tokens @ us) l2 = Inl e"
      by (simp add: tokenize_loop.simps [of tokens l] Let_def)
    have le2: "lex_le ?l1 l2" using lex_round_le [OF r] by (rule lex_le_step)
    have IH: "lex_fails (seen l2) (rest l2) e"
      using 1(1) [OF run(1) refl run(2) r refl t lex_ok_le [OF le2 l1]] .
    from round_lexes [OF r] obtain w where w: "rest ?l1 = w @ rest l2"
      and cases: "(us = [] \<and> (\<forall>g r. gap g r \<longrightarrow> g @ r = rest l2 \<longrightarrow> gap (w @ g) r)) \<or>
       (\<exists>t. us = [t] \<and> lexeme w (rest l2) (tk_type t) (tk_value t) \<and>
          (tk_line t, tk_column t) = (lx_line ?l1, lx_column ?l1))" by blast
    have "seen l2 = seen ?l1 @ w" using seen_step [OF le2 w] .
    with IH cases w lex_fails_prepend [of "seen ?l1" w "rest l2" e]
      fails_later [of "[]" w "rest l2" _ _ "seen ?l1" e]
    have "lex_fails (seen ?l1) (rest ?l1) e" by (auto intro: gap_nil)
    with step show ?thesis .
  qed
qed

section \<open>Properties\<close>

lemma lexes_positions:
  "lexes p txt ts \<Longrightarrow> list_all (\<lambda>t. 1 \<le> tk_line t \<and> tk_line t \<le> length (p @ txt) + 1 \<and>
     1 \<le> tk_column t \<and> tk_column t \<le> length (p @ txt) + 1) ts"
proof (induction rule: lexes.induct)
  case (lexes_end g r e p)
  from position_bounds [OF lexes_end(5) [symmetric]] show ?case by simp
next
  case (lexes_token g x r t p ts)
  from position_bounds [OF lexes_token(3) [symmetric]] lexes_token.IH show ?case
    by (auto simp: list_all_iff)
qed

text \<open>
  C38. Tokens. When the lexer does not throw, its tokens are a reading of the whole input up to a NUL or the
  end: gaps of white space and comments and tokens take turns, every token is the type and the
  value that its text has by the grammar (words with keywords, numbers, strings with
  their escapes, quoted identifiers, operators, punctuation), is as long as possible, and carries the
  line and the column of its first character; the end-of-file token stands at the end. In particular
  lines and columns lie between 1 and the length of the input plus one.
\<close>

theorem tokenize_sound:
  assumes "tokenize input = Inr ts"
  shows "lexes [] input ts \<and>
    list_all (\<lambda>t. 1 \<le> tk_line t \<and> tk_line t \<le> length input + 1 \<and>
      1 \<le> tk_column t \<and> tk_column t \<le> length input + 1) ts"
proof -
  have "lexes [] input ts"
    using tokenize_loop_lexes [OF assms [unfolded tokenize_def] lex_ok_new]
    by (auto simp: seen_def rest_def lexer_new_def)
  with lexes_positions [OF this] show ?thesis by simp
qed

theorem tokenize_sound_witness:
  "lexes [] ''a <'' [Token T_IDENTIFIER ''a'' 1 1, Token T_LESS ''<'' 1 3, Token T_EOF_TOKEN [] 1 4]"
proof -
  have "tokenize ''a <'' = Inr [Token T_IDENTIFIER ''a'' 1 1, Token T_LESS ''<'' 1 3, Token T_EOF_TOKEN [] 1 4]"
    by code_simp
  from tokenize_sound [OF this] show ?thesis by simp
qed

text \<open>
  C39. Errors. The lexer throws nothing but \<open>SQLParseException\<close>, and only where the input cannot be read on:
  behind tokens and gaps that are read by the grammar stands a comment, a string or a quoted identifier that
  nothing closes before a NUL or the end, a number of two or more digits without a point that starts with zero,
  or a character that starts no token. The message says which of these it is, and names its line, but for the
  message about comments, which has none.
\<close>

theorem tokenize_errors:
  assumes "tokenize input = Inl e"
  shows "lex_fails [] input e"
  using tokenize_loop_fails [OF assms [unfolded tokenize_def] lex_ok_new]
  by (auto simp: seen_def rest_def lexer_new_def)

theorem tokenize_errors_witness:
  "lex_fails [] ''a !'' (SQLParseException ''Unexpected character at line 1'')"
proof -
  have "tokenize ''a !'' = Inl (SQLParseException ''Unexpected character at line 1'')" by code_simp
  from tokenize_errors [OF this] show ?thesis .
qed

end
