(* ===== verification/Crc32c.thy ===== *)
theory Crc32c
  imports Dbx4_Prelude
begin

unbundle bit_operations_syntax

text \<open>
  The checksum of \<open>src/storage_engine_production.cpp\<close> (class \<open>CRC32C\<close>): the table of 256 entries, the
  table-driven loop, and its equivalence with the bit-by-bit computation.
\<close>

section \<open>The code\<close>

definition CRC32C_POLY :: u32 where
  "CRC32C_POLY = 0x1EDC6F41"

definition crc_shift :: "u32 \<Rightarrow> u32" where
  "crc_shift crc = (if crc AND 1 \<noteq> 0 then drop_bit 1 crc XOR CRC32C_POLY else drop_bit 1 crc)"

fun crc_entry :: "nat \<Rightarrow> u32 \<Rightarrow> u32" where
  "crc_entry 0 crc = crc"
| "crc_entry (Suc j) crc = crc_entry j (crc_shift crc)"

definition crc_table :: "u32 list" where
  "crc_table = map (\<lambda>i. crc_entry 8 (word_of_nat i)) [0..<256]"

definition crc_update :: "u32 \<Rightarrow> u8 \<Rightarrow> u32" where
  "crc_update crc b = crc_table ! unat ((crc XOR ucast b) AND 0xFF) XOR drop_bit 8 crc"

definition crc_calculate :: "bytes \<Rightarrow> u32" where
  "crc_calculate data = foldl crc_update 0xFFFFFFFF data XOR 0xFFFFFFFF"

definition crc_verify :: "bytes \<Rightarrow> u32 \<Rightarrow> bool" where
  "crc_verify data expected \<longleftrightarrow> crc_calculate data = expected"

section \<open>The bit-by-bit reference\<close>

text \<open>Each byte is added to the register, which is then shifted eight times.\<close>

definition crc_bitwise :: "bytes \<Rightarrow> u32" where
  "crc_bitwise data = foldl (\<lambda>crc b. (crc_shift ^^ 8) (crc XOR ucast b)) 0xFFFFFFFF data XOR 0xFFFFFFFF"

lemma crc_entry_funpow: "crc_entry n c = (crc_shift ^^ n) c"
  by (induction n arbitrary: c) (simp_all add: funpow_swap1)

lemma and_one_bit: "(c :: u32) AND 1 \<noteq> 0 \<longleftrightarrow> bit c 0"
  by (metis and_one_eq bit_0 even_iff_mod_2_eq_zero)

lemma crc_shift_bit:
  "bit (crc_shift c) k \<longleftrightarrow> (bit c (Suc k) \<noteq> (bit c 0 \<and> bit CRC32C_POLY k))"
  by (auto simp: crc_shift_def and_one_bit bit_xor_iff bit_drop_bit_eq)

lemma crc_shift_xor: "crc_shift (a XOR b) = crc_shift a XOR crc_shift b"
  by (rule bit_word_eqI) (auto simp: crc_shift_bit bit_xor_iff)

lemma crc_shift_funpow_xor: "(crc_shift ^^ n) (a XOR b) = (crc_shift ^^ n) a XOR (crc_shift ^^ n) b"
  by (induction n) (simp_all add: crc_shift_xor)

text \<open>As long as only zeros fall out, the register just moves.\<close>

lemma crc_shift_zeros: "\<forall>k < n. \<not> bit c k \<Longrightarrow> (crc_shift ^^ n) c = drop_bit n c"
proof (induction n)
  case (Suc n)
  then have "(crc_shift ^^ n) c = drop_bit n c" and "\<not> bit c n" by auto
  then have "(crc_shift ^^ Suc n) c = drop_bit 1 (drop_bit n c)"
    by (simp add: crc_shift_def and_one_bit bit_drop_bit_eq)
  then show ?case by (simp add: drop_bit_drop_bit)
qed simp

lemma low_byte_bit: "bit ((x :: u32) AND 0xFF) k \<longleftrightarrow> bit x k \<and> k < 8"
proof -
  have "(0xFF :: u32) = mask 8" by (simp add: mask_eq_exp_minus_1)
  then show ?thesis
    by (simp only: bit_and_iff bit_mask_iff) (auto dest: bit_imp_possible_bit)
qed

lemma crc_table_entry:
  "crc_table ! unat (x AND 0xFF) = (crc_shift ^^ 8) (x AND 0xFF)"
proof -
  have "unat (x AND 0xFF) \<le> unat (0xFF :: u32)"
    using word_and_le1 [of x "0xFF :: u32"] by (simp add: word_le_nat_alt)
  then have "unat (x AND 0xFF) < 256" by simp
  then show ?thesis by (simp add: crc_table_def crc_entry_funpow)
qed

lemma crc_update_bitwise: "crc_update crc b = (crc_shift ^^ 8) (crc XOR ucast b)"
proof -
  define x where "x = crc XOR ucast b"
  define h where "h = push_bit 8 (drop_bit 8 x)"
  have split: "x = (x AND 0xFF) XOR h"
    by (rule bit_word_eqI) (auto simp: h_def bit_xor_iff low_byte_bit bit_push_bit_iff bit_drop_bit_eq)
  have low: "\<forall>k < 8. \<not> bit h k" by (simp add: h_def bit_push_bit_iff)
  have "drop_bit 8 h = drop_bit 8 crc"
    by (rule bit_word_eqI)
      (auto simp: h_def x_def bit_push_bit_iff bit_drop_bit_eq bit_xor_iff bit_unsigned_iff
        dest: bit_imp_le_length)
  then have "(crc_shift ^^ 8) h = drop_bit 8 crc" using crc_shift_zeros [OF low] by simp
  then have "(crc_shift ^^ 8) x = (crc_shift ^^ 8) (x AND 0xFF) XOR drop_bit 8 crc"
    by (subst split) (simp add: crc_shift_funpow_xor)
  then show ?thesis by (simp add: crc_update_def crc_table_entry x_def)
qed

section \<open>Properties\<close>

text \<open>
  C22. The table-driven loop computes, on every input, the checksum of the bit-by-bit algorithm:
  each byte is added to the low end of the register, which is then shifted eight times, with the
  polynomial added whenever a one falls out.
\<close>

theorem crc_table_driven: "crc_calculate data = crc_bitwise data"
  unfolding crc_calculate_def crc_bitwise_def crc_update_bitwise ..

lemma crc_update_xor: "crc_update (c XOR e) (b XOR d) = crc_update c b XOR crc_update e d"
  by (simp add: crc_update_bitwise crc_shift_funpow_xor [symmetric] ac_simps
      unsigned_xor_eq)

text \<open>Four bytes that take the zero register back to zero.\<close>

definition blind_pattern :: "u8 list" where
  "blind_pattern = [0x83, 0xDE, 0xB8, 0x3D]"

lemma funpow_8: "(f ^^ 8) x = f (f (f (f (f (f (f (f x)))))))"
  by (simp add: numeral_eq_Suc)

lemma crc_blind: "foldl crc_update 0 blind_pattern = 0"
proof -
  have steps: "crc_update 0 0x83 = 0x3DB8DE" "crc_update 0x3DB8DE 0xDE = 0x3DB8"
    "crc_update 0x3DB8 0xB8 = 0x3D" "crc_update 0x3D 0x3D = 0"
    by (simp_all add: crc_update_bitwise funpow_8 crc_shift_def CRC32C_POLY_def)
  show ?thesis by (simp add: blind_pattern_def steps)
qed

text \<open>
  The polynomial is the normal form of the Castagnoli polynomial in an algorithm that shifts
  to the right and needs its reflection. The register loses information: the same four-byte
  corruption, anywhere in any data, leaves the checksum unchanged, although a 32-bit cyclic
  redundancy check is meant to see every error within four adjacent bytes.
\<close>

theorem crc_burst_undetected:
  assumes "length bs = 4"
  shows "crc_calculate (pre @ map2 (XOR) bs blind_pattern @ post) = crc_calculate (pre @ bs @ post)"
proof -
  have step: "foldl crc_update (c XOR e) (map2 (XOR) bs ds) = foldl crc_update c bs XOR foldl crc_update e ds"
    if "length bs = length ds" for c e bs and ds :: bytes
    using that by (induction bs ds arbitrary: c e rule: list_induct2) (simp_all add: crc_update_xor)
  have "length bs = length blind_pattern" using assms by (simp add: blind_pattern_def)
  from step [OF this, of c 0 for c] show ?thesis by (simp add: crc_calculate_def crc_blind)
qed

theorem crc_burst_undetected_witness:
  "crc_calculate ([] @ [0x83, 0xDE, 0xB8, 0x3D] @ [7]) = crc_calculate ([] @ [0, 0, 0, 0] @ [7])"
  using crc_burst_undetected [of "[0, 0, 0, 0]" "[]" "[7]"] by (simp add: blind_pattern_def)

end
