(* ===== verification/Engine_Page.thy ===== *)
theory Engine_Page
  imports Crc32c
begin

text \<open>
  The page of the storage engine (class \<open>Page\<close> of \<open>src/storage_engine_production.cpp\<close>): header, slot
  directory, row data, multi-version slots, and the disk image with its checksum.

  Timestamps are arguments: \<open>now\<close> is what \<open>time(nullptr)\<close> and \<open>system_clock::now()\<close> return. Every method
  holds the page mutex, so a call is one step. The four bytes of padding behind \<open>checksum\<close> are a
  field of the header, because \<open>memcpy\<close> copies them.
\<close>

section \<open>State\<close>

abbreviation "PAGE_SIZE \<equiv> 8192 :: nat"
abbreviation "PAGE_HEADER_SIZE \<equiv> 512 :: nat"
abbreviation "MAX_SLOTS_PER_PAGE \<equiv> 1024 :: nat"

text \<open>\<open>sizeof(SlotHeader)\<close>: two 16-bit fields, two aligned 64-bit fields, 32 and 16 bits, padded to 8.\<close>

abbreviation "SLOT_HEADER_SIZE \<equiv> 32 :: nat"

text \<open>The kinds of pages with their numbers; \<open>Page\<close> makes data pages only.\<close>

datatype page_type = PT_DATA | PT_INDEX_BTREE | PT_INDEX_HASH | PT_INDEX_BITMAP | PT_METADATA | PT_FREE_LIST | PT_LOG

fun page_type_num :: "page_type \<Rightarrow> u32" where
  "page_type_num PT_DATA = 1"
| "page_type_num PT_INDEX_BTREE = 2"
| "page_type_num PT_INDEX_HASH = 3"
| "page_type_num PT_INDEX_BITMAP = 4"
| "page_type_num PT_METADATA = 5"
| "page_type_num PT_FREE_LIST = 6"
| "page_type_num PT_LOG = 7"

record page_header =
  ph_page_num :: u32
  ph_page_type :: u32
  ph_num_slots :: u16
  ph_free_offset :: u16
  ph_created :: u32
  ph_modified :: u32
  ph_lsn :: u32
  ph_checksum :: u32
  ph_padding :: bytes
  ph_prev_page :: u64
  ph_next_page :: u64
  ph_reserved :: bytes

record slot_header =
  sl_offset :: u16
  sl_length :: u16
  sl_creating_txn :: u64
  sl_expiring_txn :: u64
  sl_checksum :: u32
  sl_flags :: u16

record page =
  pg_num :: u32
  pg_header :: page_header
  pg_slots :: "slot_header list"
  pg_data :: bytes
  pg_dirty :: bool
  pg_access_count :: u64
  pg_last_access :: nat

definition page_new :: "nat \<Rightarrow> u32 \<Rightarrow> page" where
  "page_new now n =
     \<lparr>pg_num = n,
      pg_header = \<lparr>ph_page_num = n, ph_page_type = page_type_num PT_DATA, ph_num_slots = 0,
        ph_free_offset = word_of_nat (PAGE_HEADER_SIZE + MAX_SLOTS_PER_PAGE * SLOT_HEADER_SIZE),
        ph_created = word_of_nat now, ph_modified = word_of_nat now, ph_lsn = 0, ph_checksum = 0,
        ph_padding = replicate 4 0, ph_prev_page = 0, ph_next_page = 0,
        ph_reserved = replicate 200 0\<rparr>,
      pg_slots = [], pg_data = replicate PAGE_SIZE 0, pg_dirty = False, pg_access_count = 0,
      pg_last_access = now\<rparr>"

section \<open>Rows\<close>

definition no_room :: "page \<Rightarrow> u16 \<Rightarrow> bool" where
  "no_room p row_len \<longleftrightarrow> MAX_SLOTS_PER_PAGE \<le> unat (ph_num_slots (pg_header p)) \<or>
     PAGE_SIZE < unat (ph_free_offset (pg_header p)) + unat row_len"

definition touch :: "nat \<Rightarrow> page \<Rightarrow> page" where
  "touch now p = p\<lparr>pg_access_count := pg_access_count p + 1, pg_last_access := now\<rparr>"

text \<open>The part \<open>insert_row\<close> and \<open>update_row\<close> share: append a slot and copy the row behind the last one.\<close>

definition append_slot :: "nat \<Rightarrow> bytes \<Rightarrow> u16 \<Rightarrow> u64 \<Rightarrow> page \<Rightarrow> page" where
  "append_slot now row row_len txn p =
     (let h = pg_header p;
          data = take (unat row_len) row;
          slot = \<lparr>sl_offset = ph_free_offset h, sl_length = row_len, sl_creating_txn = txn,
                  sl_expiring_txn = 0, sl_checksum = crc_calculate data, sl_flags = 0\<rparr>
      in touch now (p
           \<lparr>pg_slots := pg_slots p @ [slot],
            pg_data := mem_write (unat (ph_free_offset h)) data (pg_data p),
            pg_header := h\<lparr>ph_free_offset := ph_free_offset h + row_len,
                           ph_num_slots := ph_num_slots h + 1, ph_modified := word_of_nat now\<rparr>,
            pg_dirty := True\<rparr>))"

definition insert_row :: "nat \<Rightarrow> bytes \<Rightarrow> u16 \<Rightarrow> u64 \<Rightarrow> page \<Rightarrow> bool \<times> page" where
  "insert_row now row row_len txn p =
     (if no_room p row_len then (False, p) else (True, append_slot now row row_len txn p))"

text \<open>The slot number that \<open>insert_row\<close> hands out.\<close>

definition slot_out :: "page \<Rightarrow> u16" where
  "slot_out p = ph_num_slots (pg_header p) - 1"

definition read_row :: "nat \<Rightarrow> u16 \<Rightarrow> bytes \<Rightarrow> u64 \<Rightarrow> page \<Rightarrow> bool \<times> bytes \<times> page" where
  "read_row now slot_id row_data version p =
     (if length (pg_slots p) \<le> unat slot_id then (False, row_data, p)
      else let slot = pg_slots p ! unat slot_id in
        if sl_creating_txn slot > version then (False, row_data, p)
        else if sl_expiring_txn slot \<noteq> 0 \<and> sl_expiring_txn slot \<le> version then (False, row_data, p)
        else let row = mem_read (unat (sl_offset slot)) (unat (sl_length slot)) (pg_data p) in
          if \<not> crc_verify row (sl_checksum slot) then (False, row, p)
          else (True, row, touch now p))"

definition expire_slot :: "nat \<Rightarrow> u64 \<Rightarrow> slot_header list \<Rightarrow> slot_header list" where
  "expire_slot i txn slots = slots[i := (slots ! i)\<lparr>sl_expiring_txn := txn\<rparr>]"

definition delete_row :: "nat \<Rightarrow> u16 \<Rightarrow> u64 \<Rightarrow> page \<Rightarrow> bool \<times> page" where
  "delete_row now slot_id txn p =
     (if length (pg_slots p) \<le> unat slot_id then (False, p)
      else (True, touch now (p
        \<lparr>pg_slots := expire_slot (unat slot_id) txn (pg_slots p),
         pg_header := (pg_header p)\<lparr>ph_modified := word_of_nat now\<rparr>,
         pg_dirty := True\<rparr>)))"

definition update_row :: "nat \<Rightarrow> u16 \<Rightarrow> bytes \<Rightarrow> u16 \<Rightarrow> u64 \<Rightarrow> page \<Rightarrow> bool \<times> page" where
  "update_row now slot_id row row_len txn p =
     (if length (pg_slots p) \<le> unat slot_id then (False, p)
      else if no_room p row_len then (False, p)
      else (True, append_slot now row row_len txn
             (p\<lparr>pg_slots := expire_slot (unat slot_id) txn (pg_slots p)\<rparr>)))"

section \<open>The disk image\<close>

definition le64 :: "u64 \<Rightarrow> bytes" where
  "le64 w = le_nat 8 (unat w)"

definition rd64 :: "bytes \<Rightarrow> u64" where
  "rd64 bs = word_of_nat (nat_le (take 8 bs))"

text \<open>The 248 bytes of \<open>PageHeader\<close> in memory; \<open>checksum\<close> is at offset 24.\<close>

definition header_bytes :: "page_header \<Rightarrow> bytes" where
  "header_bytes h = le32 (ph_page_num h) @ le32 (ph_page_type h) @ le16 (ph_num_slots h) @
     le16 (ph_free_offset h) @ le32 (ph_created h) @ le32 (ph_modified h) @ le32 (ph_lsn h) @
     le32 (ph_checksum h) @ ph_padding h @ le64 (ph_prev_page h) @ le64 (ph_next_page h) @
     ph_reserved h"

definition header_of_bytes :: "bytes \<Rightarrow> page_header" where
  "header_of_bytes bs =
     \<lparr>ph_page_num = rd32 bs, ph_page_type = rd32 (drop 4 bs), ph_num_slots = rd16 (drop 8 bs),
      ph_free_offset = rd16 (drop 10 bs), ph_created = rd32 (drop 12 bs),
      ph_modified = rd32 (drop 16 bs), ph_lsn = rd32 (drop 20 bs), ph_checksum = rd32 (drop 24 bs),
      ph_padding = take 4 (drop 28 bs), ph_prev_page = rd64 (drop 32 bs),
      ph_next_page = rd64 (drop 40 bs), ph_reserved = take 200 (drop 48 bs)\<rparr>"

abbreviation "CHECKSUM_OFFSET \<equiv> 24 :: nat"

definition page_image :: "page \<Rightarrow> bytes" where
  "page_image p =
     mem_write PAGE_HEADER_SIZE
       (mem_read PAGE_HEADER_SIZE (PAGE_SIZE - PAGE_HEADER_SIZE) (pg_data p))
       (mem_write 0 (header_bytes (pg_header p)) (replicate PAGE_SIZE 0))"

definition serialize :: "page \<Rightarrow> bytes \<times> page" where
  "serialize p =
     (let image = page_image p;
          c = crc_calculate (take (PAGE_SIZE - 4) image)
      in (mem_write CHECKSUM_OFFSET (le32 c) image,
          p\<lparr>pg_header := (pg_header p)\<lparr>ph_checksum := c\<rparr>\<rparr>))"

definition deserialize :: "bytes \<Rightarrow> page \<Rightarrow> bool \<times> page" where
  "deserialize data p =
     (if length data \<noteq> PAGE_SIZE then (False, p)
      else if \<not> crc_verify (mem_write CHECKSUM_OFFSET (replicate 4 0) data)
                (rd32 (drop CHECKSUM_OFFSET data)) then (False, p)
      else (True, p\<lparr>pg_header := header_of_bytes data, pg_data := data, pg_dirty := False\<rparr>))"

definition get_free_space :: "page \<Rightarrow> u16" where
  "get_free_space p = word_of_nat PAGE_SIZE - ph_free_offset (pg_header p)"

definition get_row_count :: "page \<Rightarrow> u16" where
  "get_row_count p = ph_num_slots (pg_header p)"

definition mark_clean :: "page \<Rightarrow> page" where
  "mark_clean p = p\<lparr>pg_dirty := False\<rparr>"

definition get_page_num :: "page \<Rightarrow> u32" where
  "get_page_num p = pg_num p"

definition is_dirty :: "page \<Rightarrow> bool" where
  "is_dirty p = pg_dirty p"

definition get_access_count :: "page \<Rightarrow> u64" where
  "get_access_count p = pg_access_count p"

section \<open>Versions of rows\<close>

text \<open>
  What a page means: the list of its row versions, each with the transaction that created it
  and the one that expired it (0 for none).
\<close>

type_synonym version = "bytes \<times> u64 \<times> u64"

definition slot_bytes :: "page \<Rightarrow> slot_header \<Rightarrow> bytes" where
  "slot_bytes p s = mem_read (unat (sl_offset s)) (unat (sl_length s)) (pg_data p)"

definition versions :: "page \<Rightarrow> version list" where
  "versions p = map (\<lambda>s. (slot_bytes p s, sl_creating_txn s, sl_expiring_txn s)) (pg_slots p)"

definition visible :: "u64 \<Rightarrow> version \<Rightarrow> bool" where
  "visible v = (\<lambda>(row, created, expired). created \<le> v \<and> (expired = 0 \<or> v < expired))"

definition expire :: "nat \<Rightarrow> u64 \<Rightarrow> version list \<Rightarrow> version list" where
  "expire i txn vs = vs[i := (fst (vs ! i), fst (snd (vs ! i)), txn)]"

definition page_ok :: "page \<Rightarrow> bool" where
  "page_ok p \<longleftrightarrow> length (pg_data p) = PAGE_SIZE \<and>
     unat (ph_num_slots (pg_header p)) = length (pg_slots p) \<and>
     length (pg_slots p) \<le> MAX_SLOTS_PER_PAGE \<and>
     (\<forall>s \<in> set (pg_slots p).
        unat (sl_offset s) + unat (sl_length s) \<le> unat (ph_free_offset (pg_header p)) \<and>
        unat (sl_offset s) + unat (sl_length s) \<le> PAGE_SIZE \<and>
        sl_checksum s = crc_calculate (slot_bytes p s))"

lemma fresh_page_ok: "page_ok (page_new now n) \<and> versions (page_new now n) = []"
  by (simp add: page_ok_def page_new_def versions_def)

lemma touch_simps [simp]:
  "pg_slots (touch now p) = pg_slots p" "pg_data (touch now p) = pg_data p"
  "pg_header (touch now p) = pg_header p" "pg_num (touch now p) = pg_num p"
  "pg_dirty (touch now p) = pg_dirty p"
  by (simp_all add: touch_def)

lemma append_slot_ok:
  assumes ok: "page_ok p" and room: "\<not> no_room p row_len" and len: "unat row_len = length row"
  shows "page_ok (append_slot now row row_len txn p)"
    and "versions (append_slot now row row_len txn p) = versions p @ [(row, txn, 0)]"
proof -
  let ?off = "unat (ph_free_offset (pg_header p))"
  let ?q = "append_slot now row row_len txn p"
  have fits: "?off + length row \<le> length (pg_data p)" and slots: "length (pg_slots p) < 1024"
    using ok room len by (auto simp: page_ok_def no_room_def)
  have old: "slot_bytes ?q s = slot_bytes p s" if "s \<in> set (pg_slots p)" for s
    using ok that fits
    by (auto simp: page_ok_def slot_bytes_def append_slot_def Let_def len
        intro!: mem_read_write_disjoint)
  define s where "s = \<lparr>sl_offset = ph_free_offset (pg_header p), sl_length = row_len,
    sl_creating_txn = txn, sl_expiring_txn = 0, sl_checksum = crc_calculate row, sl_flags = 0\<rparr>"
  have new: "slot_bytes ?q s = row"
    using mem_read_write_same [OF fits] by (simp add: slot_bytes_def append_slot_def Let_def len s_def)
  have sl: "pg_slots ?q = pg_slots p @ [s]" by (simp add: append_slot_def Let_def s_def len)
  have bound: "?off + length row \<le> 8192" using fits ok by (simp add: page_ok_def)
  then have free: "unat (ph_free_offset (pg_header p) + row_len) = ?off + length row"
    by (subst unat_add_u16) (simp_all add: len)
  have num: "unat (ph_num_slots (pg_header p) + 1) = Suc (length (pg_slots p))"
    using ok slots by (subst unat_add_u16) (simp_all add: page_ok_def)
  have hd: "ph_free_offset (pg_header ?q) = ph_free_offset (pg_header p) + row_len"
    "ph_num_slots (pg_header ?q) = ph_num_slots (pg_header p) + 1"
    by (simp_all add: append_slot_def Let_def)
  have data: "length (pg_data ?q) = 8192"
    using ok fits by (simp add: append_slot_def Let_def page_ok_def len)
  show "versions ?q = versions p @ [(row, txn, 0)]"
    using old new by (simp add: versions_def sl s_def)
  show "page_ok ?q"
    using ok old new free num slots bound
    by (auto simp: page_ok_def sl hd data s_def len)
qed

lemma expire_slot_length [simp]: "length (expire_slot i txn slots) = length slots"
  by (simp add: expire_slot_def)

lemma expire_slots_ok:
  assumes "page_ok p" "i < length (pg_slots p)"
  shows "page_ok (p\<lparr>pg_slots := expire_slot i txn (pg_slots p)\<rparr>)"
    and "versions (p\<lparr>pg_slots := expire_slot i txn (pg_slots p)\<rparr>) = expire i txn (versions p)"
proof -
  have "s \<in> set (expire_slot i txn (pg_slots p)) \<Longrightarrow>
      \<exists>s' \<in> set (pg_slots p). sl_offset s = sl_offset s' \<and> sl_length s = sl_length s' \<and>
        sl_checksum s = sl_checksum s'" for s
    using set_update_subset_insert [of "pg_slots p" i] assms(2) by (fastforce simp: expire_slot_def)
  with assms(1) show "page_ok (p\<lparr>pg_slots := expire_slot i txn (pg_slots p)\<rparr>)"
    by (fastforce simp: page_ok_def slot_bytes_def)
  show "versions (p\<lparr>pg_slots := expire_slot i txn (pg_slots p)\<rparr>) = expire i txn (versions p)"
    using assms(2) by (simp add: versions_def expire_def expire_slot_def map_update slot_bytes_def)
qed

lemma insert_row_versions:
  assumes "page_ok p" "unat row_len = length row" "insert_row now row row_len txn p = (b, q)"
  shows "page_ok q \<and> versions q = (if b then versions p @ [(row, txn, 0)] else versions p)"
  using assms append_slot_ok [OF assms(1) _ assms(2)]
  by (auto simp: insert_row_def split: if_splits)

lemma slot_out_last: "page_ok p \<Longrightarrow> pg_slots p \<noteq> [] \<Longrightarrow> unat (slot_out p) = length (versions p) - 1"
  by (cases "length (pg_slots p)")
    (auto simp: page_ok_def slot_out_def versions_def unat_sub word_le_nat_alt)

lemma delete_row_versions:
  assumes "page_ok p" "delete_row now i txn p = (b, q)"
  shows "page_ok q \<and> b = (unat i < length (versions p)) \<and>
    versions q = (if b then expire (unat i) txn (versions p) else versions p)"
proof (cases "unat i < length (pg_slots p)")
  case True
  let ?p = "p\<lparr>pg_slots := expire_slot (unat i) txn (pg_slots p)\<rparr>"
  have "page_ok q = page_ok ?p \<and> versions q = versions ?p" "b"
    using assms True by (auto simp: delete_row_def page_ok_def versions_def slot_bytes_def)
  with expire_slots_ok [OF assms(1) True, of txn] True show ?thesis by (simp add: versions_def)
qed (use assms in \<open>auto simp: delete_row_def versions_def\<close>)

lemma update_row_versions:
  assumes "page_ok p" "unat row_len = length row" "update_row now i row row_len txn p = (b, q)"
  shows "page_ok q \<and> (b \<longrightarrow> unat i < length (versions p)) \<and>
    versions q = (if b then expire (unat i) txn (versions p) @ [(row, txn, 0)] else versions p)"
proof (cases "unat i < length (pg_slots p) \<and> \<not> no_room p row_len")
  case True
  let ?p = "p\<lparr>pg_slots := expire_slot (unat i) txn (pg_slots p)\<rparr>"
  have i: "unat i < length (pg_slots p)" and room: "\<not> no_room ?p row_len"
    using True by (simp_all add: no_room_def)
  have "q = append_slot now row row_len txn ?p" "b"
    using assms(3) True by (auto simp: update_row_def)
  with append_slot_ok [OF expire_slots_ok(1) [OF assms(1) i] room assms(2)]
    expire_slots_ok(2) [OF assms(1) i] i show ?thesis
    by (simp add: versions_def)
qed (use assms in \<open>auto simp: update_row_def split: if_splits\<close>)

text \<open>On a well-formed page the checksum of a row never fails, and a read is a look at the versions.\<close>

lemma read_row_versions:
  assumes "page_ok p"
  shows "read_row now i out v p =
    (if unat i < length (versions p) \<and> visible v (versions p ! unat i)
     then (True, fst (versions p ! unat i), touch now p) else (False, out, p))"
proof (cases "unat i < length (pg_slots p)")
  case True
  then have "pg_slots p ! unat i \<in> set (pg_slots p)" by simp
  then have "crc_verify (slot_bytes p (pg_slots p ! unat i)) (sl_checksum (pg_slots p ! unat i))"
    using assms by (simp add: page_ok_def crc_verify_def)
  with True show ?thesis
    by (auto simp: read_row_def versions_def visible_def slot_bytes_def Let_def)
qed (simp add: read_row_def versions_def)

section \<open>The page meets the contract of a page of rows\<close>

text \<open>As the engine uses it: rows are inserted by transaction 1 and read at version 1.\<close>

definition page_put :: "bytes \<Rightarrow> page \<Rightarrow> bool \<times> page" where
  "page_put r p = insert_row 0 r (word_of_nat (length r)) 1 p"

definition page_get :: "nat \<Rightarrow> page \<Rightarrow> bytes option" where
  "page_get i p = (if 65536 \<le> i then None else
     case read_row 0 (word_of_nat i) [] 1 p of (b, r, q) \<Rightarrow> if b then Some r else None)"

interpretation ep: row_page page_put page_get "\<lambda>p. map fst (versions p)" "\<lambda>r. length r < 65536"
  "\<lambda>p. page_ok p \<and> list_all (visible 1) (versions p)"
proof unfold_locales
  fix p :: page and r :: bytes and i :: nat
  assume ok: "page_ok p \<and> list_all (visible 1) (versions p)"
  have len: "length r < 65536 \<Longrightarrow> unat (word_of_nat (length r) :: u16) = length r"
    by (simp add: unat_of_nat)
  obtain b q where put: "page_put r p = (b, q)" by (cases "page_put r p")
  note ins = insert_row_versions [OF conjunct1 [OF ok] len put [unfolded page_put_def]]
  show "length r < 65536 \<Longrightarrow> page_ok (snd (page_put r p)) \<and>
      list_all (visible 1) (versions (snd (page_put r p)))"
    using ins ok put by (simp add: visible_def)
  show "length r < 65536 \<Longrightarrow> map fst (versions (snd (page_put r p))) =
      (if fst (page_put r p) then map fst (versions p) @ [r] else map fst (versions p))"
    using ins put by simp
  have "length (versions p) \<le> 1024" using ok by (simp add: page_ok_def versions_def)
  moreover have "unat (word_of_nat i :: u16) = i" if "i < 65536" using that by (simp add: unat_of_nat)
  ultimately show "page_get i p =
      (if i < length (map fst (versions p)) then Some (map fst (versions p) ! i) else None)"
    using ok by (auto simp: page_get_def read_row_versions list_all_length)
qed

section \<open>Properties\<close>

lemma filter_expire:
  assumes "i < length vs" "snd (snd (vs ! i)) = 0" "v < txn"
  shows "map fst (filter (visible v) (expire i txn vs)) = map fst (filter (visible v) vs)"
proof -
  obtain r c where vi: "vs ! i = (r, c, 0)" using assms(2) by (metis prod.collapse)
  have vs: "vs = take i vs @ (r, c, 0) # drop (Suc i) vs"
    using id_take_nth_drop [OF assms(1)] vi by simp
  have "expire i txn vs = take i vs @ (r, c, txn) # drop (Suc i) vs"
    using assms(1) by (simp add: expire_def vi upd_conv_take_nth_drop)
  moreover have "visible v (r, c, txn) = visible v (r, c, 0)"
    using assms(3) by (auto simp: visible_def)
  ultimately show ?thesis by (subst (2) vs) simp
qed

text \<open>
  C23. A page refines a list of row versions. An insertion that is accepted appends a version
  created by its transaction and hands out its position; a deletion sets the expiring
  transaction; an update does both; a refused call changes nothing; and a read at a version
  delivers exactly the bytes of the slot if that version of the row is visible, its checksum
  never failing. An update of a row that was not expired changes nothing for the readers at
  earlier versions.
\<close>

theorem page_versions:
  assumes ok: "page_ok p" and len: "unat row_len = length row"
    and ins: "insert_row now row row_len txn p = (b1, q1)"
    and del: "delete_row now i txn p = (b2, q2)"
    and upd: "update_row now i row row_len txn p = (b3, q3)"
  shows "page_ok q1 \<and> page_ok q2 \<and> page_ok q3 \<and>
    versions q1 = (if b1 then versions p @ [(row, txn, 0)] else versions p) \<and>
    (b1 \<longrightarrow> unat (slot_out q1) = length (versions p)) \<and>
    versions q2 = (if b2 then expire (unat i) txn (versions p) else versions p) \<and>
    versions q3 = (if b3 then expire (unat i) txn (versions p) @ [(row, txn, 0)] else versions p) \<and>
    read_row now i out v p =
      (if unat i < length (versions p) \<and> visible v (versions p ! unat i)
       then (True, fst (versions p ! unat i), touch now p) else (False, out, p)) \<and>
    (v < txn \<and> snd (snd (versions p ! unat i)) = 0 \<longrightarrow>
       map fst (filter (visible v) (versions q3)) = map fst (filter (visible v) (versions p)))"
proof -
  note r = insert_row_versions [OF ok len ins] delete_row_versions [OF ok del]
    update_row_versions [OF ok len upd]
  have "unat (slot_out q1) = length (versions p)" if b1
  proof -
    have "versions q1 = versions p @ [(row, txn, 0)]" "page_ok q1" using r(1) that by auto
    moreover from this(1) have "pg_slots q1 \<noteq> []" by (auto simp: versions_def)
    ultimately show ?thesis using slot_out_last by simp
  qed
  moreover have "map fst (filter (visible v) (versions q3)) = map fst (filter (visible v) (versions p))"
    if "v < txn" "snd (snd (versions p ! unat i)) = 0"
  proof (cases b3)
    case True
    have "\<not> visible v (row, txn, 0)" using that(1) by (auto simp: visible_def)
    with True r(3) that filter_expire [of "unat i" "versions p" v txn] show ?thesis by simp
  qed (use r(3) in simp)
  ultimately show ?thesis using r read_row_versions [OF ok] by simp
qed

text \<open>A page with room: an empty one whose header places the first row behind the header.\<close>

abbreviation "roomy_page \<equiv> (page_new 0 1)\<lparr>pg_header := (pg_header (page_new 0 1))\<lparr>ph_free_offset := 512\<rparr>\<rparr>"

theorem page_versions_witness:
  "versions (snd (insert_row 0 [1, 2, 3] 3 7 roomy_page)) = [([1, 2, 3], 7, 0)]"
proof -
  have ok: "page_ok roomy_page" "versions roomy_page = []"
    by (simp_all add: page_ok_def page_new_def versions_def)
  have acc: "fst (insert_row 0 [1, 2, 3] 3 7 roomy_page)"
    by (simp add: insert_row_def no_room_def page_new_def)
  have len: "unat (3 :: u16) = length [1, 2, 3 :: u8]" by simp
  obtain b1 q1 b2 q2 b3 q3 where ops: "insert_row 0 [1, 2, 3] 3 7 roomy_page = (b1, q1)"
    "delete_row 0 0 7 roomy_page = (b2, q2)" "update_row 0 0 [1, 2, 3] 3 7 roomy_page = (b3, q3)"
    by (metis prod.exhaust)
  show ?thesis using page_versions [OF ok(1) len ops] acc ok(2) ops(1) by simp
qed

text \<open>
  Expiring a version a second time moves its end: a row deleted by an earlier transaction comes
  back for the readers between the two.
\<close>

lemma delete_twice_resurrects:
  assumes "page_ok p" "unat i < length (versions p)" "versions p ! unat i = (row, c, e)"
    and "c \<le> v" "e \<noteq> 0" "e \<le> v" "v < txn" "delete_row now i txn p = (b, q)"
  shows "fst (read_row now i out v p) = False \<and> fst (read_row now i out v q) = True"
proof -
  have "page_ok q" "versions q = expire (unat i) txn (versions p)"
    using delete_row_versions [OF assms(1,8)] assms(2) by auto
  with assms(1-7) show ?thesis
    by (simp add: read_row_versions visible_def expire_def not_less)
qed

section \<open>Pages of the constructor\<close>

text \<open>
  The constructor puts the free offset behind 1024 slot headers, at 33280, far beyond the end of a
  page of 8192 bytes. Such a page has room for no row, not even an empty one.
\<close>

definition page_full :: "page \<Rightarrow> bool" where
  "page_full p \<longleftrightarrow> ph_free_offset (pg_header p) = 33280 \<and> pg_slots p = [] \<and> \<not> pg_dirty p"

lemma page_new_full: "page_full (page_new now n)"
  by (simp add: page_full_def page_new_def)

lemma page_full_refuses:
  assumes "page_full p"
  shows "insert_row now row row_len txn p = (False, p)"
    "update_row now i row row_len txn p = (False, p)" "delete_row now i txn p = (False, p)"
    "read_row now i out v p = (False, out, p)"
    "page_full (snd (serialize p))" "page_full (mark_clean p)"
  using assms by (simp_all add: page_full_def insert_row_def update_row_def delete_row_def
      read_row_def no_room_def serialize_def mark_clean_def Let_def)

lemma page_full_free_space: "page_full p \<Longrightarrow> unat (get_free_space p) = 40448"
  by (simp add: page_full_def get_free_space_def)

text \<open>Loading an image never restores the slot directory: in a new page no row can be read.\<close>

lemma deserialize_no_rows:
  assumes "deserialize img (page_new now n) = (b, q)"
  shows "read_row t i out v q = (False, out, q)"
proof -
  have "pg_slots q = []"
    using assms by (auto simp: deserialize_def page_new_def split: if_splits)
  then show ?thesis by (simp add: read_row_def)
qed

end
