(* ===== verification/Storage_Engine.thy ===== *)
theory Storage_Engine
  imports Engine_Page
begin

text \<open>
  The storage engine of \<open>src/storage_engine_production.cpp\<close> above its pages: the schema manager, the
  buffer pool and the database engine.

  Each method runs under its mutex and is one step; the clock is the argument \<open>now\<close>. The pool's
  \<open>std::unordered_map\<close> is a list of entries in some iteration order (a new entry comes first). \<open>None\<close>
  stands for the one place where a thread locks a mutex it already holds: \<open>evict_lru\<close> runs with
  \<open>pool_mutex_\<close> held exclusively and calls \<open>save_page\<close>, which locks it again, when the victim is dirty.
\<close>

section \<open>Schema manager\<close>

datatype data_type =
    DT_UNKNOWN | DT_INT8 | DT_INT16 | DT_INT32 | DT_INT64 | DT_UINT8 | DT_UINT16 | DT_UINT32
  | DT_UINT64 | DT_FLOAT | DT_DOUBLE | DT_DECIMAL | DT_VARCHAR | DT_CHAR | DT_DATE | DT_TIME
  | DT_TIMESTAMP | DT_BLOB | DT_BOOLEAN

datatype constraint_type =
    CT_NONE | CT_PRIMARY_KEY | CT_UNIQUE | CT_FOREIGN_KEY | CT_CHECK | CT_NOT_NULL | CT_DEFAULT

text \<open>Isolation levels and rows are declared; no code of the engine uses them.\<close>

datatype isolation_level = READ_UNCOMMITTED | READ_COMMITTED | REPEATABLE_READ | SERIALIZABLE

record stored_row =
  sr_data :: bytes
  sr_field_values :: "(string, string) omap"
  sr_row_id :: u64
  sr_created_timestamp :: u64
  sr_last_modified_timestamp :: u64

record column =
  co_name :: string
  co_type :: data_type
  co_size :: u16
  co_nullable :: bool
  co_default_value :: string
  co_constraints :: "constraint_type list"

record schema =
  sc_table_name :: string
  sc_columns :: "column list"
  sc_primary_keys :: "string list"
  sc_indexes :: "(string, string list) omap"
  sc_table_id :: u32
  sc_row_count :: u64

record index =
  ix_name :: string
  ix_columns :: "string list"
  ix_is_unique :: bool
  ix_is_primary :: bool

record table_constraint =
  tc_name :: string
  tc_type :: constraint_type
  tc_columns :: "string list"
  tc_expression :: string
  tc_referenced_table :: string

record schema_manager =
  sm_schemas :: "(string, schema) omap"
  sm_indexes :: "(string, index list) omap"
  sm_constraints :: "(string, table_constraint list) omap"
  sm_next_table_id :: u32

definition schema_manager_new :: schema_manager where
  "schema_manager_new = \<lparr>sm_schemas = [], sm_indexes = [], sm_constraints = [], sm_next_table_id = 1\<rparr>"

definition primary_key_names :: "column list \<Rightarrow> string list" where
  "primary_key_names cols =
     concat (map (\<lambda>c. map (\<lambda>_. co_name c) (filter (\<lambda>k. k = CT_PRIMARY_KEY) (co_constraints c))) cols)"

definition sm_create_table :: "string \<Rightarrow> column list \<Rightarrow> schema_manager \<Rightarrow> bool \<times> schema_manager" where
  "sm_create_table name cols m =
     (if map_of (sm_schemas m) name \<noteq> None then (False, m)
      else (True, m
        \<lparr>sm_schemas := omap_insert name
           \<lparr>sc_table_name = name, sc_columns = cols, sc_primary_keys = primary_key_names cols,
            sc_indexes = [], sc_table_id = sm_next_table_id m, sc_row_count = 0\<rparr> (sm_schemas m),
         sm_next_table_id := sm_next_table_id m + 1\<rparr>))"

definition list_at :: "('k, 'v list) omap \<Rightarrow> 'k \<Rightarrow> 'v list" where
  "list_at m k = (case map_of m k of None \<Rightarrow> [] | Some vs \<Rightarrow> vs)"

definition sm_add_index ::
  "string \<Rightarrow> string \<Rightarrow> string list \<Rightarrow> bool \<Rightarrow> schema_manager \<Rightarrow> bool \<times> schema_manager" where
  "sm_add_index table name cols uniq m =
     (case map_of (sm_schemas m) table of
        None \<Rightarrow> (False, m)
      | Some s \<Rightarrow> (True, m
          \<lparr>sm_indexes := omap_insert table (list_at (sm_indexes m) table @
             [\<lparr>ix_name = name, ix_columns = cols, ix_is_unique = uniq, ix_is_primary = False\<rparr>])
             (sm_indexes m),
           sm_schemas := omap_insert table
             (s\<lparr>sc_indexes := omap_insert name cols (sc_indexes s)\<rparr>) (sm_schemas m)\<rparr>))"

definition sm_add_constraint ::
  "string \<Rightarrow> table_constraint \<Rightarrow> schema_manager \<Rightarrow> bool \<times> schema_manager" where
  "sm_add_constraint table c m =
     (if map_of (sm_schemas m) table = None then (False, m)
      else (True, m\<lparr>sm_constraints :=
        omap_insert table (list_at (sm_constraints m) table @ [c]) (sm_constraints m)\<rparr>))"

definition sm_get_schema :: "string \<Rightarrow> schema_manager \<Rightarrow> schema option" where
  "sm_get_schema name m = map_of (sm_schemas m) name"

definition sm_get_table_count :: "schema_manager \<Rightarrow> nat" where
  "sm_get_table_count m = length (sm_schemas m)"

definition sm_get_index_count :: "string \<Rightarrow> schema_manager \<Rightarrow> nat" where
  "sm_get_index_count table m = length (list_at (sm_indexes m) table)"

section \<open>Buffer pool\<close>

text \<open>
  The entries and the pool are parametric in what stands for \<open>std::shared_ptr<Page>\<close>: here the page
  itself, in the model of concurrent callers the address of a page object.
\<close>

record 'p pool_entry =
  pe_page :: 'p
  pe_last_access :: nat
  pe_access_count :: u64
  pe_frequency :: u64

record 'p buffer_pool =
  bp_pages :: "(u32 \<times> 'p pool_entry) list"
  bp_max_size :: u64
  bp_current_size :: u64
  bp_hits :: u64
  bp_misses :: u64
  bp_evictions :: u64
  bp_pages_read :: u64
  bp_pages_written :: u64

definition pool_new :: "u64 \<Rightarrow> 'p buffer_pool" where
  "pool_new mb = \<lparr>bp_pages = [], bp_max_size = mb * 1024 * 1024, bp_current_size = 0, bp_hits = 0,
     bp_misses = 0, bp_evictions = 0, bp_pages_read = 0, bp_pages_written = 0\<rparr>"

text \<open>Changing an entry in place.\<close>

definition upd_entry ::
  "u32 \<Rightarrow> ('p pool_entry \<Rightarrow> 'p pool_entry) \<Rightarrow> (u32 \<times> 'p pool_entry) list \<Rightarrow> (u32 \<times> 'p pool_entry) list" where
  "upd_entry n f = map (\<lambda>(k, e). (k, if k = n then f e else e))"

definition save_page :: "u32 \<Rightarrow> page buffer_pool \<Rightarrow> bool \<times> page buffer_pool" where
  "save_page n b =
     (case map_of (bp_pages b) n of
        None \<Rightarrow> (False, b)
      | Some e \<Rightarrow> (True, b
          \<lparr>bp_pages := upd_entry n
             (\<lambda>e. e\<lparr>pe_page := mark_clean (snd (serialize (pe_page e)))\<rparr>) (bp_pages b),
           bp_pages_written := bp_pages_written b + 1\<rparr>))"

definition flush_all :: "page buffer_pool \<Rightarrow> page buffer_pool" where
  "flush_all b =
     foldl (\<lambda>b n. case map_of (bp_pages b) n of
         Some e \<Rightarrow> if pg_dirty (pe_page e) then snd (save_page n b) else b
       | None \<Rightarrow> b)
       b (map fst (bp_pages b))"

text \<open>The scan for the entry with the oldest access, starting from the first entry.\<close>

definition find_lru ::
  "u32 \<times> 'p pool_entry \<Rightarrow> (u32 \<times> 'p pool_entry) list \<Rightarrow> u32 \<times> 'p pool_entry" where
  "find_lru first es =
     foldl (\<lambda>best e. if pe_last_access (snd e) < pe_last_access (snd best) then e else best) first es"

definition lru_victim :: "'p buffer_pool \<Rightarrow> u32 \<times> 'p pool_entry" where
  "lru_victim b = find_lru (hd (bp_pages b)) (bp_pages b)"

definition pool_erase :: "u32 \<Rightarrow> 'p buffer_pool \<Rightarrow> 'p buffer_pool" where
  "pool_erase n b = b
     \<lparr>bp_current_size := bp_current_size b - 8192,
      bp_pages := filter (\<lambda>x. fst x \<noteq> n) (bp_pages b),
      bp_evictions := bp_evictions b + 1\<rparr>"

definition evict_lru :: "page buffer_pool \<Rightarrow> page buffer_pool option" where
  "evict_lru b =
     (if bp_pages b = [] then Some b
      else let (n, e) = lru_victim b in
        if pg_dirty (pe_page e) then None else Some (pool_erase n b))"

lemma find_lru_in: "find_lru f es \<in> insert f (set es)"
  unfolding find_lru_def by (induction es arbitrary: f) (auto split: if_splits)

lemma evict_lru_shrinks:
  assumes "evict_lru b = Some b'" "bp_pages b \<noteq> []"
  shows "length (bp_pages b') < length (bp_pages b)"
proof -
  obtain n e where v: "find_lru (hd (bp_pages b)) (bp_pages b) = (n, e)" by fastforce
  then have "(n, e) \<in> set (bp_pages b)"
    using find_lru_in [of "hd (bp_pages b)" "bp_pages b"] assms(2) by (auto simp: insert_absorb)
  then have "length (filter (\<lambda>x. fst x \<noteq> n) (bp_pages b)) < length (bp_pages b)"
    by (intro length_filter_less [of "(n, e)"]) auto
  with assms v show ?thesis by (auto simp: evict_lru_def lru_victim_def pool_erase_def split: if_splits)
qed

function evict_loop :: "page buffer_pool \<Rightarrow> page buffer_pool option" where
  "evict_loop b =
     (if bp_current_size b > bp_max_size b \<and> bp_pages b \<noteq> []
      then case evict_lru b of None \<Rightarrow> None | Some b' \<Rightarrow> evict_loop b'
      else Some b)"
  by pat_completeness auto
termination evict_loop
  by (relation "measure (\<lambda>b. length (bp_pages b))") (auto dest: evict_lru_shrinks)

declare evict_loop.simps [simp del]

text \<open>The two outcomes of the first look, and the entry that a miss creates.\<close>

definition pool_hit :: "nat \<Rightarrow> u32 \<Rightarrow> 'p buffer_pool \<Rightarrow> 'p buffer_pool" where
  "pool_hit now n b = b
     \<lparr>bp_pages := upd_entry n
        (\<lambda>e. e\<lparr>pe_last_access := now, pe_access_count := pe_access_count e + 1,
                pe_frequency := pe_frequency e + 1\<rparr>) (bp_pages b),
      bp_hits := bp_hits b + 1\<rparr>"

definition pool_miss :: "'p buffer_pool \<Rightarrow> 'p buffer_pool" where
  "pool_miss b = b\<lparr>bp_misses := bp_misses b + 1\<rparr>"

definition pool_add :: "nat \<Rightarrow> u32 \<Rightarrow> 'p \<Rightarrow> 'p buffer_pool \<Rightarrow> 'p buffer_pool" where
  "pool_add now n p b = b
     \<lparr>bp_pages_read := bp_pages_read b + 1,
      bp_pages := (n, \<lparr>pe_page = p, pe_last_access = now, pe_access_count = 0, pe_frequency = 0\<rparr>)
        # bp_pages b,
      bp_current_size := bp_current_size b + 8192\<rparr>"

lemmas pool_op_defs = lru_victim_def pool_erase_def pool_hit_def pool_miss_def pool_add_def

definition get_page :: "nat \<Rightarrow> u32 \<Rightarrow> page buffer_pool \<Rightarrow> (page \<times> page buffer_pool) option" where
  "get_page now n b =
     (case map_of (bp_pages b) n of
        Some e \<Rightarrow> Some (pe_page e, pool_hit now n b)
      | None \<Rightarrow>
          (let p = page_new now n
           in case evict_loop (pool_add now n p (pool_miss b)) of
                None \<Rightarrow> None
              | Some b' \<Rightarrow> Some (p, b')))"

text \<open>
  A client changes the page through its shared pointer; the pool sees the change if it still
  holds the page.
\<close>

definition store_page :: "u32 \<Rightarrow> page \<Rightarrow> page buffer_pool \<Rightarrow> page buffer_pool" where
  "store_page n p b = b\<lparr>bp_pages := upd_entry n (\<lambda>e. e\<lparr>pe_page := p\<rparr>) (bp_pages b)\<rparr>"

section \<open>Database engine\<close>

text \<open>Statistics; \<open>ratio\<close> is the quotient of two counters as a float.\<close>

definition get_hit_ratio :: "'f \<Rightarrow> (u64 \<Rightarrow> u64 \<Rightarrow> 'f) \<Rightarrow> 'p buffer_pool \<Rightarrow> 'f" where
  "get_hit_ratio zero ratio b =
     (if bp_hits b + bp_misses b = 0 then zero else ratio (bp_hits b) (bp_hits b + bp_misses b))"

definition get_pool_stats :: "'p buffer_pool \<Rightarrow> u64 \<times> u64 \<times> u64" where
  "get_pool_stats b = (bp_pages_read b, bp_pages_written b, bp_current_size b)"

record engine =
  en_schemas :: schema_manager
  en_pool :: "page buffer_pool"
  en_inserted :: u64
  en_updated :: u64
  en_deleted :: u64
  en_queries :: u64

definition engine_new :: "u64 \<Rightarrow> engine" where
  "engine_new mb = \<lparr>en_schemas = schema_manager_new, en_pool = pool_new mb, en_inserted = 0,
     en_updated = 0, en_deleted = 0, en_queries = 0\<rparr>"

definition engine_create_table :: "string \<Rightarrow> column list \<Rightarrow> engine \<Rightarrow> bool \<times> engine" where
  "engine_create_table name cols g =
     (case sm_create_table name cols (en_schemas g) of (b, m) \<Rightarrow> (b, g\<lparr>en_schemas := m\<rparr>))"

definition engine_insert_row :: "nat \<Rightarrow> string \<Rightarrow> bytes \<Rightarrow> engine \<Rightarrow> (bool \<times> engine) option" where
  "engine_insert_row now table data g =
     (case sm_get_schema table (en_schemas g) of
        None \<Rightarrow> Some (False, g)
      | Some s \<Rightarrow>
          (case get_page now (sc_table_id s) (en_pool g) of
             None \<Rightarrow> None
           | Some (p, b) \<Rightarrow>
               (case insert_row now data (word_of_nat (length data)) 1 p of
                  (ok, p') \<Rightarrow> Some (ok, g
                    \<lparr>en_pool := store_page (sc_table_id s) p' b,
                     en_inserted := (if ok then en_inserted g + 1 else en_inserted g)\<rparr>))))"

definition engine_update_row :: "string \<Rightarrow> u64 \<Rightarrow> bytes \<Rightarrow> engine \<Rightarrow> bool \<times> engine" where
  "engine_update_row table row_id data g = (True, g\<lparr>en_updated := en_updated g + 1\<rparr>)"

definition engine_delete_row :: "string \<Rightarrow> u64 \<Rightarrow> engine \<Rightarrow> bool \<times> engine" where
  "engine_delete_row table row_id g = (True, g\<lparr>en_deleted := en_deleted g + 1\<rparr>)"

definition get_stats :: "engine \<Rightarrow> u64 \<times> u64 \<times> u64" where
  "get_stats g = (en_inserted g, en_updated g, en_deleted g)"

definition get_buffer_hit_ratio :: "'f \<Rightarrow> (u64 \<Rightarrow> u64 \<Rightarrow> 'f) \<Rightarrow> engine \<Rightarrow> 'f" where
  "get_buffer_hit_ratio zero ratio g = get_hit_ratio zero ratio (en_pool g)"

definition engine_table_count :: "engine \<Rightarrow> nat" where
  "engine_table_count g = sm_get_table_count (en_schemas g)"

section \<open>The pool keeps count\<close>

definition pool_ok :: "page buffer_pool \<Rightarrow> bool" where
  "pool_ok b \<longleftrightarrow> distinct (map fst (bp_pages b)) \<and>
     unat (bp_current_size b) = 8192 * length (bp_pages b) \<and>
     (\<forall>(k, e) \<in> set (bp_pages b). pg_num (pe_page e) = k)"

lemma pages_bound:
  assumes "distinct (map fst (es :: (u32 \<times> 'p pool_entry) list))"
  shows "length es \<le> 2 ^ 32"
proof -
  have "card (set (map fst es)) \<le> card (UNIV :: u32 set)" by (rule card_mono) simp_all
  with distinct_card [OF assms] show ?thesis by (simp add: card_word)
qed

lemma keys_upd_entry [simp]: "map fst (upd_entry n f es) = map fst es"
  by (simp add: upd_entry_def case_prod_unfold)

lemma length_upd_entry [simp]: "length (upd_entry n f es) = length es"
  by (simp add: upd_entry_def)

lemma set_upd_entry:
  "(k, e) \<in> set (upd_entry n f es) \<Longrightarrow>
     (k, e) \<in> set es \<and> k \<noteq> n \<or> (k = n \<and> (\<exists>e'. (k, e') \<in> set es \<and> e = f e'))"
  by (auto simp: upd_entry_def split: if_splits)

lemma find_lru_min: "e \<in> insert f (set es) \<Longrightarrow> pe_last_access (snd (find_lru f es)) \<le> pe_last_access (snd e)"
proof (induction es arbitrary: f e)
  case (Cons a es)
  define f' where "f' = (if pe_last_access (snd a) < pe_last_access (snd f) then a else f)"
  have "find_lru f (a # es) = find_lru f' es" by (simp add: find_lru_def f'_def)
  moreover have "pe_last_access (snd (find_lru f' es)) \<le> pe_last_access (snd f')"
    using Cons.IH [of f' f'] by simp
  moreover have "pe_last_access (snd f') \<le> pe_last_access (snd f)"
    "pe_last_access (snd f') \<le> pe_last_access (snd a)" by (simp_all add: f'_def)
  moreover have "e \<in> set es \<Longrightarrow> pe_last_access (snd (find_lru f' es)) \<le> pe_last_access (snd e)"
    using Cons.IH [of e f'] by simp
  ultimately show ?case using Cons.prems by auto
qed (simp add: find_lru_def)

lemma length_filter_key:
  "distinct (map fst es) \<Longrightarrow> (n, e) \<in> set es \<Longrightarrow>
     Suc (length (filter (\<lambda>x. fst x \<noteq> n) es)) = length es"
proof (induction es)
  case (Cons a es)
  show ?case
  proof (cases "fst a = n")
    case True
    with Cons.prems(1) have "\<forall>x \<in> set es. fst x \<noteq> n" by (metis distinct.simps(2) image_eqI list.map(2) set_map)
    then have "filter (\<lambda>x. fst x \<noteq> n) es = es" by (simp add: filter_id_conv)
    with True show ?thesis by simp
  qed (use Cons in auto)
qed simp

text \<open>One eviction: the victim is an entry that nobody has used since any of the others.\<close>

lemma evict_lru_step:
  assumes ok: "pool_ok b" and ne: "bp_pages b \<noteq> []" and ev: "evict_lru b = Some b'"
  shows "pool_ok b' \<and> bp_max_size b' = bp_max_size b \<and>
    (\<exists>n e. (n, e) \<in> set (bp_pages b) \<and> set (bp_pages b') = set (bp_pages b) - {(n, e)} \<and>
       (\<forall>x \<in> set (bp_pages b). pe_last_access e \<le> pe_last_access (snd x)))"
proof -
  obtain n e where v: "find_lru (hd (bp_pages b)) (bp_pages b) = (n, e)" by fastforce
  have mem: "(n, e) \<in> set (bp_pages b)"
    using find_lru_in [of "hd (bp_pages b)" "bp_pages b"] ne v by (auto simp: insert_absorb)
  have least: "\<forall>x \<in> set (bp_pages b). pe_last_access e \<le> pe_last_access (snd x)"
    using find_lru_min [of _ "hd (bp_pages b)" "bp_pages b"] v by fastforce
  from ok have dist: "distinct (map fst (bp_pages b))" by (simp add: pool_ok_def)
  have b': "b' = b\<lparr>bp_current_size := bp_current_size b - 8192,
      bp_pages := filter (\<lambda>x. fst x \<noteq> n) (bp_pages b), bp_evictions := bp_evictions b + 1\<rparr>"
    using ev ne v by (auto simp: evict_lru_def pool_op_defs split: if_splits)
  have len: "Suc (length (bp_pages b')) = length (bp_pages b)"
    using length_filter_key [OF dist mem] by (simp add: b')
  have rest: "set (bp_pages b') = set (bp_pages b) - {(n, e)}"
    using mem dist by (auto simp: b' dest: eq_key_imp_eq_value)
  have "unat (bp_current_size b - 8192) = 8192 * length (bp_pages b')"
    using ok len by (subst unat_sub) (auto simp: pool_ok_def word_le_nat_alt)
  with ok rest have "pool_ok b'"
    by (auto simp: pool_ok_def b' distinct_map_filter)
  with mem least rest show ?thesis by (auto simp: b')
qed

lemma evict_loop_spec:
  "evict_loop b = Some b' \<Longrightarrow> pool_ok b \<Longrightarrow>
     pool_ok b' \<and> bp_max_size b' = bp_max_size b \<and> bp_current_size b' \<le> bp_max_size b' \<and>
     set (bp_pages b') \<subseteq> set (bp_pages b) \<and>
     (\<forall>x \<in> set (bp_pages b) - set (bp_pages b'). \<forall>y \<in> set (bp_pages b').
        pe_last_access (snd x) \<le> pe_last_access (snd y))"
proof (induction b rule: evict_loop.induct)
  case (1 b)
  show ?case
  proof (cases "bp_current_size b > bp_max_size b \<and> bp_pages b \<noteq> []")
    case True
    with 1(2) obtain c where c: "evict_lru b = Some c" "evict_loop c = Some b'"
      by (subst (asm) evict_loop.simps) (auto split: option.splits)
    from evict_lru_step [OF 1(3) _ c(1)] True obtain n e where s: "pool_ok c"
      "bp_max_size c = bp_max_size b" "(n, e) \<in> set (bp_pages b)"
      "set (bp_pages c) = set (bp_pages b) - {(n, e)}"
      "\<forall>x \<in> set (bp_pages b). pe_last_access e \<le> pe_last_access (snd x)"
      by auto
    note IH = 1(1) [OF True c s(1)]
    have "pe_last_access (snd x) \<le> pe_last_access (snd y)"
      if "x \<in> set (bp_pages b) - set (bp_pages b')" "y \<in> set (bp_pages b')" for x y
      using IH s(4,5) that by (cases "x = (n, e)") auto
    with IH s(2,4) show ?thesis by auto
  next
    case False
    with 1(2) have "b' = b" by (subst (asm) evict_loop.simps) auto
    moreover have "bp_pages b = [] \<Longrightarrow> bp_current_size b = 0"
      using 1(3) by (auto simp: pool_ok_def unat_eq_0)
    ultimately show ?thesis using False 1(3) by auto
  qed
qed

text \<open>Only a dirty page stops the loop.\<close>

lemma evict_loop_clean:
  "\<forall>x \<in> set (bp_pages b). \<not> pg_dirty (pe_page (snd x)) \<Longrightarrow> evict_loop b \<noteq> None"
proof (induction b rule: evict_loop.induct)
  case (1 b)
  show ?case
  proof (cases "bp_current_size b > bp_max_size b \<and> bp_pages b \<noteq> []")
    case True
    have "find_lru (hd (bp_pages b)) (bp_pages b) \<in> set (bp_pages b)"
      using find_lru_in [of "hd (bp_pages b)" "bp_pages b"] True by (auto simp: insert_absorb)
    with 1(2) True obtain c where c: "evict_lru b = Some c" "set (bp_pages c) \<subseteq> set (bp_pages b)"
      by (fastforce simp: evict_lru_def pool_op_defs split: prod.splits)
    with 1(1) [OF True c(1)] 1(2) True show ?thesis
      by (subst evict_loop.simps) (auto split: option.splits)
  next
    case False
    then show ?thesis by (subst evict_loop.simps) auto
  qed
qed

section \<open>Properties\<close>

lemma pool_add_ok:
  assumes "pool_ok b" "map_of (bp_pages b) n = None" "pg_num (pe_page e) = n"
    and "bp_pages c = (n, e) # bp_pages b" "bp_current_size c = bp_current_size b + 8192"
  shows "pool_ok c"
proof -
  have dist: "distinct (map fst (bp_pages b))" using assms(1) by (simp add: pool_ok_def)
  have "length (bp_pages b) \<le> 4294967296" using pages_bound [OF dist] by simp
  then have "unat (bp_current_size b + 8192) = 8192 * Suc (length (bp_pages b))"
    using assms(1) by (subst unat_word_ariths) (simp add: pool_ok_def)
  with assms show ?thesis by (auto simp: pool_ok_def map_of_eq_None_iff)
qed

text \<open>
  C24. The buffer pool. \<open>get_page\<close> on a pool whose books are right (one entry per page number, pages
  under their own numbers, the recorded size that of the pages) keeps them right, hands out the
  cached page or a new one with the number asked for, and leaves the pool within its limit. What it
  evicts is never more recently used than what it keeps, and it returns whenever no page is dirty.
\<close>

theorem pool_get_page:
  assumes ok: "pool_ok b" and lim: "bp_current_size b \<le> bp_max_size b"
  shows "(get_page now n b = Some (p, b') \<longrightarrow>
      pool_ok b' \<and> bp_max_size b' = bp_max_size b \<and> bp_current_size b' \<le> bp_max_size b' \<and>
      p = (case map_of (bp_pages b) n of Some e \<Rightarrow> pe_page e | None \<Rightarrow> page_new now n) \<and>
      pg_num p = n \<and>
      (\<forall>x \<in> set (bp_pages b) - set (bp_pages b'). \<forall>y \<in> set (bp_pages b').
         map_of (bp_pages b) n = None \<longrightarrow> pe_last_access (snd x) \<le> pe_last_access (snd y))) \<and>
    ((\<forall>x \<in> set (bp_pages b). \<not> pg_dirty (pe_page (snd x))) \<longrightarrow> get_page now n b \<noteq> None)"
proof (cases "map_of (bp_pages b) n")
  case (Some e)
  let ?f = "\<lambda>e. e\<lparr>pe_last_access := now, pe_access_count := pe_access_count e + 1,
    pe_frequency := pe_frequency e + 1\<rparr>"
  have "pg_num (pe_page e) = n" using ok map_of_SomeD [OF Some] by (auto simp: pool_ok_def)
  moreover have "pg_num (pe_page e') = k" if "(k, e') \<in> set (upd_entry n ?f (bp_pages b))" for k e'
    using set_upd_entry [OF that] ok by (auto simp: pool_ok_def)
  ultimately show ?thesis using Some ok lim by (auto simp: get_page_def pool_op_defs pool_ok_def)
next
  case None
  let ?e = "\<lparr>pe_page = page_new now n, pe_last_access = now, pe_access_count = 0, pe_frequency = 0\<rparr>"
  define c where "c = b\<lparr>bp_misses := bp_misses b + 1, bp_pages_read := bp_pages_read b + 1,
    bp_pages := (n, ?e) # bp_pages b, bp_current_size := bp_current_size b + 8192\<rparr>"
  have get: "get_page now n b = (case evict_loop c of None \<Rightarrow> None | Some b' \<Rightarrow> Some (page_new now n, b'))"
    by (simp add: get_page_def pool_op_defs None c_def Let_def)
  have num: "pg_num (page_new now n) = n" and clean: "\<not> pg_dirty (page_new now n)"
    by (simp_all add: page_new_def)
  have pc: "bp_pages c = (n, ?e) # bp_pages b" "bp_max_size c = bp_max_size b"
    by (simp_all add: c_def)
  have okc: "pool_ok c" by (rule pool_add_ok [OF ok None, of ?e]) (simp_all add: num c_def)
  show ?thesis
  proof (cases "evict_loop c")
    case None': None
    then have "\<not> (\<forall>x \<in> set (bp_pages c). \<not> pg_dirty (pe_page (snd x)))" using evict_loop_clean by blast
    then show ?thesis using clean by (simp add: get None' pc)
  next
    case (Some b'')
    from evict_loop_spec [OF Some okc] show ?thesis
      by (auto simp: get Some num \<open>map_of (bp_pages b) n = None\<close> pc)
  qed
qed

theorem pool_get_page_witness:
  "\<exists>p b'. get_page 0 1 (pool_new 1) = Some (p, b') \<and> bp_current_size b' \<le> 1048576 \<and> pg_num p = 1"
proof -
  have "pool_ok (pool_new 1)" "bp_current_size (pool_new 1) \<le> bp_max_size (pool_new 1)"
    by (simp_all add: pool_ok_def pool_new_def)
  note get = pool_get_page [OF this, where now = 0 and n = 1]
  then have "get_page 0 1 (pool_new 1) \<noteq> None" by (simp add: pool_new_def)
  then obtain p b' where "get_page 0 1 (pool_new 1) = Some (p, b')" by auto
  with get [of p b'] show ?thesis by (auto simp: pool_new_def)
qed

section \<open>Histories of the engine\<close>

datatype engine_op =
    Op_create string "column list"
  | Op_insert nat string bytes
  | Op_update string u64 bytes
  | Op_delete string u64

fun engine_step :: "engine_op \<Rightarrow> engine \<Rightarrow> (bool \<times> engine) option" where
  "engine_step (Op_create n cols) g = Some (engine_create_table n cols g)"
| "engine_step (Op_insert now n data) g = engine_insert_row now n data g"
| "engine_step (Op_update n i data) g = Some (engine_update_row n i data g)"
| "engine_step (Op_delete n i) g = Some (engine_delete_row n i g)"

fun engine_run :: "engine_op list \<Rightarrow> engine \<Rightarrow> (bool list \<times> engine) option" where
  "engine_run [] g = Some ([], g)"
| "engine_run (x # xs) g =
     (case engine_step x g of
        None \<Rightarrow> None
      | Some (b, g') \<Rightarrow>
          (case engine_run xs g' of None \<Rightarrow> None | Some (bs, g'') \<Rightarrow> Some (b # bs, g'')))"

fun is_insert :: "engine_op \<Rightarrow> bool" where
  "is_insert (Op_insert now n data) = True"
| "is_insert _ = False"

text \<open>Every page the engine has ever asked for is as its constructor left it.\<close>

definition all_full :: "page buffer_pool \<Rightarrow> bool" where
  "all_full b \<longleftrightarrow> (\<forall>x \<in> set (bp_pages b). page_full (pe_page (snd x)))"

lemma evict_loop_subset: "evict_loop b = Some b' \<Longrightarrow> set (bp_pages b') \<subseteq> set (bp_pages b)"
proof (induction b rule: evict_loop.induct)
  case (1 b)
  show ?case
  proof (cases "bp_current_size b > bp_max_size b \<and> bp_pages b \<noteq> []")
    case True
    with 1(2) obtain c where c: "evict_lru b = Some c" "evict_loop c = Some b'"
      by (subst (asm) evict_loop.simps) (auto split: option.splits)
    from c(1) have "set (bp_pages c) \<subseteq> set (bp_pages b)"
      by (auto simp: evict_lru_def pool_op_defs split: if_splits prod.splits)
    with 1(1) [OF True c] show ?thesis by blast
  next
    case False
    with 1(2) show ?thesis by (subst (asm) evict_loop.simps) auto
  qed
qed

lemma get_page_full:
  assumes "all_full b"
  shows "\<exists>p b'. get_page now n b = Some (p, b') \<and> page_full p \<and> all_full b'"
proof (cases "map_of (bp_pages b) n")
  case (Some e)
  have "page_full (pe_page e)" using assms map_of_SomeD [OF Some] by (force simp: all_full_def)
  with Some assms show ?thesis
    by (auto simp: get_page_def pool_op_defs all_full_def dest!: set_upd_entry)
next
  case None
  let ?c = "b\<lparr>bp_misses := bp_misses b + 1, bp_pages_read := bp_pages_read b + 1,
    bp_pages := (n, \<lparr>pe_page = page_new now n, pe_last_access = now, pe_access_count = 0,
      pe_frequency = 0\<rparr>) # bp_pages b, bp_current_size := bp_current_size b + 8192\<rparr>"
  have full: "all_full ?c" using assms by (simp add: all_full_def page_new_full)
  then have "evict_loop ?c \<noteq> None"
    by (intro evict_loop_clean) (auto simp: all_full_def page_full_def)
  then obtain b' where b': "evict_loop ?c = Some b'" by auto
  with full have "all_full b'" using evict_loop_subset [OF b'] by (auto simp: all_full_def)
  with None b' show ?thesis by (simp add: get_page_def pool_op_defs Let_def page_new_full)
qed

lemma engine_step_full:
  assumes "all_full (en_pool g)"
  shows "\<exists>b g'. engine_step x g = Some (b, g') \<and> all_full (en_pool g') \<and>
    en_inserted g' = en_inserted g \<and> (is_insert x \<longrightarrow> \<not> b)"
proof (cases x)
  case (Op_insert now n data)
  show ?thesis
  proof (cases "sm_get_schema n (en_schemas g)")
    case None
    with assms Op_insert show ?thesis by (auto simp: engine_insert_row_def)
  next
    case (Some s)
    from get_page_full [OF assms] obtain p b where
      get: "get_page now (sc_table_id s) (en_pool g) = Some (p, b)" "page_full p" "all_full b"
      by blast
    then have "all_full (store_page (sc_table_id s) p b)"
      by (auto simp: store_page_def all_full_def dest!: set_upd_entry)
    with Some Op_insert get page_full_refuses(1) [OF get(2)] show ?thesis
      by (auto simp: engine_insert_row_def)
  qed
qed (use assms in \<open>auto simp: engine_create_table_def engine_update_row_def engine_delete_row_def
    split: prod.splits\<close>)

text \<open>
  C29. The engine stores nothing. In every history of calls on a new engine, with any pool size, no
  call blocks, every \<open>insert_row\<close> reports failure, and the number of inserted rows stays zero:
  the pages the pool creates have their free offset beyond their end.
\<close>

theorem engine_stores_nothing:
  "\<exists>bs g. engine_run ops (engine_new mb) = Some (bs, g) \<and> en_inserted g = 0 \<and>
     list_all2 (\<lambda>x b. is_insert x \<longrightarrow> \<not> b) ops bs"
proof -
  have "\<exists>bs g'. engine_run ops g = Some (bs, g') \<and> en_inserted g' = en_inserted g \<and>
      list_all2 (\<lambda>x b. is_insert x \<longrightarrow> \<not> b) ops bs" if "all_full (en_pool g)" for g
    using that
  proof (induction ops arbitrary: g)
    case (Cons x ops)
    from engine_step_full [OF Cons.prems] obtain b g1 where
      s: "engine_step x g = Some (b, g1)" "all_full (en_pool g1)" "en_inserted g1 = en_inserted g"
        "is_insert x \<longrightarrow> \<not> b" by blast
    from Cons.IH [OF s(2)] obtain bs g2 where "engine_run ops g1 = Some (bs, g2)"
      "en_inserted g2 = en_inserted g1" "list_all2 (\<lambda>x b. is_insert x \<longrightarrow> \<not> b) ops bs" by blast
    with s show ?case by simp
  qed simp
  moreover have "all_full (en_pool (engine_new mb))" "en_inserted (engine_new mb) = 0"
    by (simp_all add: all_full_def engine_new_def pool_new_def)
  ultimately show ?thesis by fastforce
qed

theorem engine_stores_nothing_witness:
  "\<exists>bs g. engine_run [Op_create ''t'' [], Op_insert 5 ''t'' [1, 2, 3], Op_delete ''t'' 9] (engine_new 512)
       = Some (bs, g) \<and> en_inserted g = 0 \<and> length bs = 3 \<and> \<not> bs ! 1"
proof -
  obtain bs g where "engine_run [Op_create ''t'' [], Op_insert 5 ''t'' [1, 2, 3], Op_delete ''t'' 9]
      (engine_new 512) = Some (bs, g)" "en_inserted g = 0"
    and bs: "list_all2 (\<lambda>x b. is_insert x \<longrightarrow> \<not> b)
      [Op_create ''t'' [], Op_insert 5 ''t'' [1, 2, 3], Op_delete ''t'' 9] bs"
    using engine_stores_nothing by blast
  moreover from bs have "length bs = 3 \<and> \<not> bs ! 1"
    by (auto simp: list_all2_Cons1)
  ultimately show ?thesis by blast
qed

text \<open>\<open>update_row\<close> and \<open>delete_row\<close> of the engine report success for rows and tables that do not exist.\<close>

lemma engine_updates_anything:
  "fst (engine_update_row n i data g)" "fst (engine_delete_row n i g)"
  "en_pool (snd (engine_update_row n i data g)) = en_pool g"
  "en_pool (snd (engine_delete_row n i g)) = en_pool g"
  by (simp_all add: engine_update_row_def engine_delete_row_def)

section \<open>The schema manager\<close>

text \<open>
  Table ids are handed out in order, starting from 1, as long as fewer than \<open>2 ^ 32\<close> tables exist; a
  table keeps its schema whatever else is created.
\<close>

lemma sm_create_table_lookup:
  "sm_get_schema n (snd (sm_create_table name cols m)) =
     (if n = name \<and> sm_get_schema name m = None
      then Some \<lparr>sc_table_name = name, sc_columns = cols, sc_primary_keys = primary_key_names cols,
        sc_indexes = [], sc_table_id = sm_next_table_id m, sc_row_count = 0\<rparr>
      else sm_get_schema n m)"
  by (auto simp: sm_get_schema_def sm_create_table_def)

lemma sm_create_table_count:
  assumes "omap_ok (sm_schemas m)"
  shows "sm_get_table_count (snd (sm_create_table name cols m)) =
    sm_get_table_count m + (if fst (sm_create_table name cols m) then 1 else 0)"
proof (cases "map_of (sm_schemas m) name")
  case None
  have ok: "omap_ok (omap_insert name x (sm_schemas m))" for x using assms by simp
  have "name \<notin> fst ` set (sm_schemas m)" using None by (simp add: map_of_eq_None_iff)
  then show ?thesis
    using assms None length_omap_card [OF ok] length_omap_card [OF assms]
      set_keys_omap_insert [of name _ "sm_schemas m"]
    by (simp add: sm_create_table_def sm_get_table_count_def del: set_map) (simp add: card_insert_if)
qed (simp add: sm_create_table_def)

end
