(* ===== verification/Pool_Concurrency.thy ===== *)
theory Pool_Concurrency
  imports Storage_Engine
begin

text \<open>
  Concurrent callers of the buffer pool of \<open>src/storage_engine_production.cpp\<close>.

  \<open>get_page\<close> looks its page up under the shared lock, releases it on a miss, takes the lock
  exclusively, looks again, and only then creates the page and evicts others. \<open>save_page\<close> fetches the
  page under the shared lock and writes it without. Here these stretches are the steps of a thread,
  a run interleaves the steps of any number of threads, and pages are objects: a thread that was
  handed a page keeps the shared pointer and may call the methods of \<open>Page\<close> on it at any time.

  A stretch that holds the lock, or one call of a method of \<open>Page\<close> under its own mutex, is one step.
  The counters and \<open>last_access\<close>, which the code also writes under the shared lock, are updated in one
  step; the source has a data race there. The clock is the value \<open>now\<close> of a step, without any order
  between steps. Locking is granted as for a reader-writer lock: shared if nobody holds the lock
  exclusively, exclusively if nobody holds it. \<open>evict_lru\<close> asks for the shared lock of a thread that
  holds the exclusive one; as the lock is granted, that request waits for its own thread.
\<close>

section \<open>State\<close>

datatype pool_pc =
    Idle
  | Looking u32
  | Missed u32
  | Rechecking u32
  | Evicting u32 nat
  | Evict_saving u32 nat u32
  | Save_looking u32
  | Save_writing u32 nat
  | Save_cleaning u32 nat

record cpool =
  cp_heap :: "page list"
  cp_pool :: "nat buffer_pool"
  cp_readers :: "nat set"
  cp_writer :: "nat option"
  cp_pc :: "nat \<Rightarrow> pool_pc"
  cp_handles :: "nat \<Rightarrow> (u32 \<times> nat) list"

definition cpool_new :: "u64 \<Rightarrow> cpool" where
  "cpool_new mb = \<lparr>cp_heap = [], cp_pool = pool_new mb, cp_readers = {}, cp_writer = None,
     cp_pc = (\<lambda>_. Idle), cp_handles = (\<lambda>_. [])\<rparr>"

text \<open>The methods a client calls on the page it was handed.\<close>

datatype page_op =
    P_insert nat bytes u16 u64
  | P_read nat u16 u64
  | P_delete nat u16 u64
  | P_update nat u16 bytes u16 u64
  | P_serialize
  | P_deserialize bytes
  | P_mark_clean

fun page_do :: "page_op \<Rightarrow> page \<Rightarrow> page" where
  "page_do (P_insert now row len txn) p = snd (insert_row now row len txn p)"
| "page_do (P_read now slot version) p = snd (snd (read_row now slot [] version p))"
| "page_do (P_delete now slot txn) p = snd (delete_row now slot txn p)"
| "page_do (P_update now slot row len txn) p = snd (update_row now slot row len txn p)"
| "page_do P_serialize p = snd (serialize p)"
| "page_do (P_deserialize data) p = snd (deserialize data p)"
| "page_do P_mark_clean p = mark_clean p"

section \<open>Steps\<close>

definition at_pc :: "nat \<Rightarrow> pool_pc \<Rightarrow> cpool \<Rightarrow> cpool" where
  "at_pc t c s = s\<lparr>cp_pc := (cp_pc s)(t := c)\<rparr>"

definition lock_shared :: "nat \<Rightarrow> cpool \<Rightarrow> cpool" where
  "lock_shared t s = s\<lparr>cp_readers := insert t (cp_readers s)\<rparr>"

definition unlock_shared :: "nat \<Rightarrow> cpool \<Rightarrow> cpool" where
  "unlock_shared t s = s\<lparr>cp_readers := cp_readers s - {t}\<rparr>"

definition set_writer :: "nat option \<Rightarrow> cpool \<Rightarrow> cpool" where
  "set_writer w s = s\<lparr>cp_writer := w\<rparr>"

definition on_pool :: "(nat buffer_pool \<Rightarrow> nat buffer_pool) \<Rightarrow> cpool \<Rightarrow> cpool" where
  "on_pool f s = s\<lparr>cp_pool := f (cp_pool s)\<rparr>"

definition on_page :: "nat \<Rightarrow> (page \<Rightarrow> page) \<Rightarrow> cpool \<Rightarrow> cpool" where
  "on_page i f s = s\<lparr>cp_heap := (cp_heap s)[i := f (cp_heap s ! i)]\<rparr>"

text \<open>The call returns the page object to its thread.\<close>

definition hand_out :: "nat \<Rightarrow> u32 \<Rightarrow> nat \<Rightarrow> cpool \<Rightarrow> cpool" where
  "hand_out t n i s = at_pc t Idle
     (s\<lparr>cp_handles := (cp_handles s)(t := (n, i) # cp_handles s t)\<rparr>)"

definition create_page :: "nat \<Rightarrow> nat \<Rightarrow> u32 \<Rightarrow> cpool \<Rightarrow> cpool" where
  "create_page t now n s = at_pc t (Evicting n (length (cp_heap s)))
     (s\<lparr>cp_heap := cp_heap s @ [page_new now n],
        cp_pool := pool_add now n (length (cp_heap s)) (cp_pool s)\<rparr>)"

abbreviation lookup :: "cpool \<Rightarrow> u32 \<Rightarrow> nat pool_entry option" where
  "lookup s n \<equiv> map_of (bp_pages (cp_pool s)) n"

definition over_limit :: "'p buffer_pool \<Rightarrow> bool" where
  "over_limit b \<longleftrightarrow> bp_current_size b > bp_max_size b \<and> bp_pages b \<noteq> []"

inductive pool_step :: "nat \<Rightarrow> cpool \<Rightarrow> cpool \<Rightarrow> bool" where
  call_get: "\<lbrakk>cp_pc s t = Idle; cp_writer s = None\<rbrakk> \<Longrightarrow>
     pool_step t s (lock_shared t (at_pc t (Looking n) s))"
| get_hit: "\<lbrakk>cp_pc s t = Looking n; lookup s n = Some e\<rbrakk> \<Longrightarrow>
     pool_step t s (unlock_shared t (hand_out t n (pe_page e) (on_pool (pool_hit now n) s)))"
| get_miss: "\<lbrakk>cp_pc s t = Looking n; lookup s n = None\<rbrakk> \<Longrightarrow>
     pool_step t s (unlock_shared t (at_pc t (Missed n) (on_pool pool_miss s)))"
| get_lock: "\<lbrakk>cp_pc s t = Missed n; cp_writer s = None; cp_readers s = {}\<rbrakk> \<Longrightarrow>
     pool_step t s (set_writer (Some t) (at_pc t (Rechecking n) s))"
| get_found: "\<lbrakk>cp_pc s t = Rechecking n; lookup s n = Some e\<rbrakk> \<Longrightarrow>
     pool_step t s (set_writer None (hand_out t n (pe_page e) s))"
| get_create: "\<lbrakk>cp_pc s t = Rechecking n; lookup s n = None\<rbrakk> \<Longrightarrow>
     pool_step t s (create_page t now n s)"
| get_evict: "\<lbrakk>cp_pc s t = Evicting n i; over_limit (cp_pool s); lru_victim (cp_pool s) = (v, e);
      \<not> pg_dirty (cp_heap s ! pe_page e)\<rbrakk> \<Longrightarrow>
     pool_step t s (on_pool (pool_erase v) s)"
| get_evict_dirty: "\<lbrakk>cp_pc s t = Evicting n i; over_limit (cp_pool s); lru_victim (cp_pool s) = (v, e);
      pg_dirty (cp_heap s ! pe_page e)\<rbrakk> \<Longrightarrow>
     pool_step t s (at_pc t (Evict_saving n i v) s)"
| get_done: "\<lbrakk>cp_pc s t = Evicting n i; \<not> over_limit (cp_pool s)\<rbrakk> \<Longrightarrow>
     pool_step t s (set_writer None (hand_out t n i s))"
| call_save: "\<lbrakk>cp_pc s t = Idle; cp_writer s = None\<rbrakk> \<Longrightarrow>
     pool_step t s (lock_shared t (at_pc t (Save_looking n) s))"
| save_missing: "\<lbrakk>cp_pc s t = Save_looking n; lookup s n = None\<rbrakk> \<Longrightarrow>
     pool_step t s (unlock_shared t (at_pc t Idle s))"
| save_found: "\<lbrakk>cp_pc s t = Save_looking n; lookup s n = Some e\<rbrakk> \<Longrightarrow>
     pool_step t s (unlock_shared t (at_pc t (Save_writing n (pe_page e)) s))"
| save_write: "cp_pc s t = Save_writing n i \<Longrightarrow>
     pool_step t s (at_pc t (Save_cleaning n i) (on_pool (\<lambda>b. b\<lparr>bp_pages_written := bp_pages_written b + 1\<rparr>)
       (on_page i (\<lambda>p. snd (serialize p)) s)))"
| save_clean: "cp_pc s t = Save_cleaning n i \<Longrightarrow>
     pool_step t s (at_pc t Idle (on_page i mark_clean s))"
| client: "\<lbrakk>cp_pc s t = Idle; (n, i) \<in> set (cp_handles s t)\<rbrakk> \<Longrightarrow>
     pool_step t s (on_page i (page_do oper) s)"

abbreviation pool_runs :: "cpool \<Rightarrow> cpool \<Rightarrow> bool" where
  "pool_runs \<equiv> interleave pool_step"

lemmas cpool_defs = at_pc_def lock_shared_def unlock_shared_def set_writer_def on_pool_def
  on_page_def hand_out_def create_page_def

section \<open>Invariant\<close>

text \<open>The pool with the page objects in place of their addresses.\<close>

definition deref :: "page list \<Rightarrow> nat pool_entry \<Rightarrow> page pool_entry" where
  "deref h e = \<lparr>pe_page = h ! pe_page e, pe_last_access = pe_last_access e,
     pe_access_count = pe_access_count e, pe_frequency = pe_frequency e\<rparr>"

definition pool_of :: "cpool \<Rightarrow> page buffer_pool" where
  "pool_of s = (let b = cp_pool s in
     \<lparr>bp_pages = map (\<lambda>(k, e). (k, deref (cp_heap s) e)) (bp_pages b), bp_max_size = bp_max_size b,
      bp_current_size = bp_current_size b, bp_hits = bp_hits b, bp_misses = bp_misses b,
      bp_evictions = bp_evictions b, bp_pages_read = bp_pages_read b,
      bp_pages_written = bp_pages_written b\<rparr>)"

text \<open>An address that refers to a page object of the given number.\<close>

definition page_at :: "cpool \<Rightarrow> u32 \<Rightarrow> nat \<Rightarrow> bool" where
  "page_at s n i \<longleftrightarrow> i < length (cp_heap s) \<and> pg_num (cp_heap s ! i) = n"

fun holds_shared :: "pool_pc \<Rightarrow> bool" where
  "holds_shared (Looking n) = True"
| "holds_shared (Save_looking n) = True"
| "holds_shared _ = False"

fun holds_exclusive :: "pool_pc \<Rightarrow> bool" where
  "holds_exclusive (Rechecking n) = True"
| "holds_exclusive (Evicting n i) = True"
| "holds_exclusive (Evict_saving n i v) = True"
| "holds_exclusive _ = False"

fun pc_page :: "pool_pc \<Rightarrow> (u32 \<times> nat) option" where
  "pc_page (Evicting n i) = Some (n, i)"
| "pc_page (Evict_saving n i v) = Some (n, i)"
| "pc_page (Save_writing n i) = Some (n, i)"
| "pc_page (Save_cleaning n i) = Some (n, i)"
| "pc_page _ = None"

definition pool_locks_ok :: "cpool \<Rightarrow> bool" where
  "pool_locks_ok s \<longleftrightarrow> (\<forall>t. t \<in> cp_readers s \<longleftrightarrow> holds_shared (cp_pc s t)) \<and>
     (\<forall>t. cp_writer s = Some t \<longleftrightarrow> holds_exclusive (cp_pc s t)) \<and>
     (cp_writer s \<noteq> None \<longrightarrow> cp_readers s = {})"

definition refs_ok :: "cpool \<Rightarrow> bool" where
  "refs_ok s \<longleftrightarrow> (\<forall>t n i. (n, i) \<in> set (cp_handles s t) \<or> pc_page (cp_pc s t) = Some (n, i) \<longrightarrow> page_at s n i)"

definition entries_ok :: "cpool \<Rightarrow> bool" where
  "entries_ok s \<longleftrightarrow> distinct (map fst (bp_pages (cp_pool s))) \<and>
     unat (bp_current_size (cp_pool s)) = 8192 * length (bp_pages (cp_pool s)) \<and>
     (\<forall>n e. lookup s n = Some e \<longrightarrow> page_at s n (pe_page e) \<and>
        (\<forall>i. page_at s n i \<longrightarrow> i \<le> pe_page e))"

definition counts_ok :: "cpool \<Rightarrow> bool" where
  "counts_ok s \<longleftrightarrow> bp_pages_read (cp_pool s) = word_of_nat (length (cp_heap s)) \<and>
     bp_pages_read (cp_pool s) = word_of_nat (length (bp_pages (cp_pool s))) + bp_evictions (cp_pool s)"

definition cpool_ok :: "cpool \<Rightarrow> bool" where
  "cpool_ok s \<longleftrightarrow> pool_locks_ok s \<and> refs_ok s \<and> entries_ok s \<and> counts_ok s"

lemma cpool_new_ok: "cpool_ok (cpool_new mb)"
  by (simp add: cpool_ok_def pool_locks_ok_def refs_ok_def entries_ok_def counts_ok_def cpool_new_def
      pool_new_def)

text \<open>What a piece of a step leaves alone, and what it changes.\<close>

lemma cpool_sels [simp]:
  "cp_heap (at_pc t c s) = cp_heap s" "cp_pool (at_pc t c s) = cp_pool s"
  "cp_handles (at_pc t c s) = cp_handles s" "cp_pc (at_pc t c s) = (cp_pc s)(t := c)"
  "cp_writer (at_pc t c s) = cp_writer s" "cp_readers (at_pc t c s) = cp_readers s"
  "cp_heap (lock_shared t s) = cp_heap s" "cp_pool (lock_shared t s) = cp_pool s"
  "cp_handles (lock_shared t s) = cp_handles s" "cp_pc (lock_shared t s) = cp_pc s"
  "cp_writer (lock_shared t s) = cp_writer s" "cp_readers (lock_shared t s) = insert t (cp_readers s)"
  "cp_heap (unlock_shared t s) = cp_heap s" "cp_pool (unlock_shared t s) = cp_pool s"
  "cp_handles (unlock_shared t s) = cp_handles s" "cp_pc (unlock_shared t s) = cp_pc s"
  "cp_writer (unlock_shared t s) = cp_writer s" "cp_readers (unlock_shared t s) = cp_readers s - {t}"
  "cp_heap (set_writer w s) = cp_heap s" "cp_pool (set_writer w s) = cp_pool s"
  "cp_handles (set_writer w s) = cp_handles s" "cp_pc (set_writer w s) = cp_pc s"
  "cp_writer (set_writer w s) = w" "cp_readers (set_writer w s) = cp_readers s"
  "cp_heap (on_pool g s) = cp_heap s" "cp_pool (on_pool g s) = g (cp_pool s)"
  "cp_handles (on_pool g s) = cp_handles s" "cp_pc (on_pool g s) = cp_pc s"
  "cp_writer (on_pool g s) = cp_writer s" "cp_readers (on_pool g s) = cp_readers s"
  "cp_heap (on_page i f s) = (cp_heap s)[i := f (cp_heap s ! i)]" "cp_pool (on_page i f s) = cp_pool s"
  "cp_handles (on_page i f s) = cp_handles s" "cp_pc (on_page i f s) = cp_pc s"
  "cp_writer (on_page i f s) = cp_writer s" "cp_readers (on_page i f s) = cp_readers s"
  by (simp_all add: cpool_defs)

lemma on_pool_id [simp]: "on_pool (\<lambda>b. b) s = s"
  by (simp add: on_pool_def)

lemma hand_out_sels [simp]:
  "cp_heap (hand_out t n i s) = cp_heap s" "cp_pool (hand_out t n i s) = cp_pool s"
  "cp_handles (hand_out t n i s) = (cp_handles s)(t := (n, i) # cp_handles s t)"
  "cp_pc (hand_out t n i s) = (cp_pc s)(t := Idle)"
  "cp_writer (hand_out t n i s) = cp_writer s" "cp_readers (hand_out t n i s) = cp_readers s"
  by (simp_all add: hand_out_def at_pc_def)

lemma create_page_sels [simp]:
  "cp_heap (create_page t now n s) = cp_heap s @ [page_new now n]"
  "cp_pool (create_page t now n s) = pool_add now n (length (cp_heap s)) (cp_pool s)"
  "cp_handles (create_page t now n s) = cp_handles s"
  "cp_pc (create_page t now n s) = (cp_pc s)(t := Evicting n (length (cp_heap s)))"
  "cp_writer (create_page t now n s) = cp_writer s" "cp_readers (create_page t now n s) = cp_readers s"
  by (simp_all add: create_page_def at_pc_def)

lemma pool_op_sels [simp]:
  "bp_pages (pool_hit now n b) = upd_entry n (\<lambda>e. e\<lparr>pe_last_access := now,
     pe_access_count := pe_access_count e + 1, pe_frequency := pe_frequency e + 1\<rparr>) (bp_pages b)"
  "bp_current_size (pool_hit now n b) = bp_current_size b"
  "bp_pages_read (pool_hit now n b) = bp_pages_read b" "bp_evictions (pool_hit now n b) = bp_evictions b"
  "bp_pages (pool_miss b) = bp_pages b" "bp_current_size (pool_miss b) = bp_current_size b"
  "bp_pages_read (pool_miss b) = bp_pages_read b" "bp_evictions (pool_miss b) = bp_evictions b"
  "bp_pages (pool_erase n b) = filter (\<lambda>x. fst x \<noteq> n) (bp_pages b)"
  "bp_current_size (pool_erase n b) = bp_current_size b - 8192"
  "bp_pages_read (pool_erase n b) = bp_pages_read b" "bp_evictions (pool_erase n b) = bp_evictions b + 1"
  "bp_pages (pool_add now n p b) =
     (n, \<lparr>pe_page = p, pe_last_access = now, pe_access_count = 0, pe_frequency = 0\<rparr>) # bp_pages b"
  "bp_current_size (pool_add now n p b) = bp_current_size b + 8192"
  "bp_pages_read (pool_add now n p b) = bp_pages_read b + 1"
  "bp_evictions (pool_add now n p b) = bp_evictions b"
  by (simp_all add: pool_op_defs)

lemma writer_unique:
  "pool_locks_ok s \<Longrightarrow> holds_exclusive (cp_pc s t) \<Longrightarrow> holds_exclusive (cp_pc s u) \<Longrightarrow> u = t"
  by (metis pool_locks_ok_def option.inject)

lemma step_locks: "pool_step t s s' \<Longrightarrow> pool_locks_ok s \<Longrightarrow> pool_locks_ok s'"
proof (induction rule: pool_step.induct)
  case (get_found s t n e)
  then show ?case using writer_unique [of s t] by (auto simp: pool_locks_ok_def)
next
  case (get_done s t n i)
  then show ?case using writer_unique [of s t] by (auto simp: pool_locks_ok_def)
qed (auto simp: pool_locks_ok_def)

lemma page_do_num [simp]: "pg_num (page_do oper p) = pg_num p"
  by (cases oper) (simp_all add: insert_row_def append_slot_def Let_def read_row_def delete_row_def
      update_row_def serialize_def deserialize_def mark_clean_def)

lemma save_num [simp]: "pg_num (snd (serialize p)) = pg_num p" "pg_num (mark_clean p) = pg_num p"
  by (simp_all add: serialize_def Let_def mark_clean_def)

lemma page_at_update [simp]:
  "(\<And>p. pg_num (f p) = pg_num p) \<Longrightarrow> page_at (on_page j f s) n i = page_at s n i"
  by (cases "i = j") (auto simp: page_at_def on_page_def nth_list_update)

lemma page_at_same [simp]:
  "page_at (at_pc t c s) n i = page_at s n i" "page_at (lock_shared t s) n i = page_at s n i"
  "page_at (unlock_shared t s) n i = page_at s n i" "page_at (set_writer w s) n i = page_at s n i"
  "page_at (on_pool g s) n i = page_at s n i" "page_at (hand_out t k j s) n i = page_at s n i"
  by (simp_all add: page_at_def cpool_defs)

lemma page_at_create [simp]:
  "page_at (create_page t now k s) n i \<longleftrightarrow> page_at s n i \<or> i = length (cp_heap s) \<and> k = n"
  by (auto simp: page_at_def create_page_def at_pc_def nth_append page_new_def)

lemma refs_okD: "refs_ok s \<Longrightarrow> pc_page (cp_pc s t) = Some (n, i) \<Longrightarrow> page_at s n i"
  by (auto simp: refs_ok_def)

lemma step_refs: "pool_step t s s' \<Longrightarrow> entries_ok s \<Longrightarrow> refs_ok s \<Longrightarrow> refs_ok s'"
proof (induction rule: pool_step.induct)
  case (get_evict_dirty s t n i v e)
  then show ?case using refs_okD [of s t n i] by (auto simp: refs_ok_def)
next
  case (get_done s t n i)
  then show ?case using refs_okD [of s t n i] by (auto simp: refs_ok_def)
next
  case (save_write s t n i)
  then show ?case using refs_okD [of s t n i] by (auto simp: refs_ok_def)
qed (auto simp: refs_ok_def entries_ok_def split: if_splits)

text \<open>Lookups after the operations on the pool.\<close>

lemma map_of_upd_entry: "map_of (upd_entry k f es) n = map_option (if n = k then f else id) (map_of es n)"
  by (induction es) (auto simp: upd_entry_def)

lemma map_of_filter_key: "map_of (filter (\<lambda>x. fst x \<noteq> k) es) n = (if n = k then None else map_of es n)"
  by (induction es) auto

lemma lru_victim_in: "bp_pages b \<noteq> [] \<Longrightarrow> lru_victim b \<in> set (bp_pages b)"
  using find_lru_in [of "hd (bp_pages b)" "bp_pages b"] by (auto simp: lru_victim_def insert_absorb)

lemma erase_size:
  assumes "distinct (map fst (bp_pages b))" "unat (bp_current_size b) = 8192 * length (bp_pages b)"
    and "over_limit b" "lru_victim b = (v, e)"
  shows "Suc (length (bp_pages (pool_erase v b))) = length (bp_pages b)"
    and "unat (bp_current_size (pool_erase v b)) = 8192 * length (bp_pages (pool_erase v b))"
proof -
  have "(v, e) \<in> set (bp_pages b)" using assms(3,4) lru_victim_in [of b] by (simp add: over_limit_def)
  from length_filter_key [OF assms(1) this]
  show len: "Suc (length (bp_pages (pool_erase v b))) = length (bp_pages b)" by simp
  with assms(2) show "unat (bp_current_size (pool_erase v b)) = 8192 * length (bp_pages (pool_erase v b))"
    by (simp add: unat_sub word_le_nat_alt)
qed

lemma add_size:
  assumes "distinct (map fst (bp_pages b))" "unat (bp_current_size b) = 8192 * length (bp_pages b)"
  shows "unat (bp_current_size b + 8192) = 8192 * Suc (length (bp_pages b))"
  using pages_bound [OF assms(1)] assms(2) by (subst unat_word_ariths) simp

lemma step_entries: "pool_step t s s' \<Longrightarrow> entries_ok s \<Longrightarrow> entries_ok s'"
proof (induction rule: pool_step.induct)
  case (get_hit s t n e now)
  then show ?case
    by (auto simp: entries_ok_def map_of_upd_entry simp del: map_of_eq_Some_iff split: if_splits)
next
  case (get_create s t n now)
  then have "unat (bp_current_size (cp_pool s) + 8192) = 8192 * Suc (length (bp_pages (cp_pool s)))"
    by (intro add_size) (auto simp: entries_ok_def)
  moreover have "page_at s k i \<Longrightarrow> i \<le> length (cp_heap s)" for k i by (simp add: page_at_def)
  moreover have "n \<notin> fst ` set (bp_pages (cp_pool s))" using get_create by (simp add: map_of_eq_None_iff)
  ultimately show ?case
    using get_create
    by (auto simp: entries_ok_def simp del: map_of_eq_Some_iff)
next
  case (get_evict s t n i v e)
  then show ?case using erase_size [OF _ _ get_evict(2,3)]
    by (auto simp: entries_ok_def map_of_filter_key distinct_map_filter simp del: map_of_eq_Some_iff
        split: if_splits)
qed (auto simp: entries_ok_def simp del: map_of_eq_Some_iff)

lemma step_counts: "pool_step t s s' \<Longrightarrow> entries_ok s \<Longrightarrow> counts_ok s \<Longrightarrow> counts_ok s'"
proof (induction rule: pool_step.induct)
  case (get_evict s t n i v e)
  then have "Suc (length (bp_pages (pool_erase v (cp_pool s)))) = length (bp_pages (cp_pool s))"
    by (intro erase_size) (auto simp: entries_ok_def)
  then have "(word_of_nat (length (bp_pages (cp_pool s))) :: u64) =
      1 + word_of_nat (length (bp_pages (pool_erase v (cp_pool s))))"
    by (metis of_nat_Suc)
  with get_evict show ?case by (auto simp: counts_ok_def ac_simps)
qed (auto simp: counts_ok_def)

interpretation pool: interleaving pool_step cpool_ok
  by unfold_locales (auto simp: cpool_ok_def intro: step_locks step_refs step_entries step_counts)

section \<open>A call without interference\<close>

text \<open>The operations on addresses are the operations on pages.\<close>

lemma pool_of_sels [simp]:
  "bp_pages (pool_of s) = map (\<lambda>(k, e). (k, deref (cp_heap s) e)) (bp_pages (cp_pool s))"
  "bp_max_size (pool_of s) = bp_max_size (cp_pool s)"
  "bp_current_size (pool_of s) = bp_current_size (cp_pool s)"
  by (simp_all add: pool_of_def Let_def)

lemma deref_sels [simp]:
  "pe_page (deref h e) = h ! pe_page e" "pe_last_access (deref h e) = pe_last_access e"
  by (simp_all add: deref_def)

lemma pool_of_cong [simp]:
  "pool_of (at_pc t c s) = pool_of s" "pool_of (lock_shared t s) = pool_of s"
  "pool_of (unlock_shared t s) = pool_of s" "pool_of (set_writer w s) = pool_of s"
  "pool_of (hand_out t n i s) = pool_of s"
  by (simp_all add: pool_of_def)

lemma map_of_deref:
  "map_of (map (\<lambda>(k, e). (k, deref h e)) es) n = map_option (deref h) (map_of es n)"
  by (induction es) auto

lemma pool_of_hit [simp]: "pool_of (on_pool (pool_hit now n) s) = pool_hit now n (pool_of s)"
  by (simp add: pool_of_def pool_hit_def Let_def upd_entry_def deref_def case_prod_unfold)

lemma pool_of_miss [simp]: "pool_of (on_pool pool_miss s) = pool_miss (pool_of s)"
  by (simp add: pool_of_def pool_miss_def Let_def)

lemma pool_of_erase [simp]: "pool_of (on_pool (pool_erase v) s) = pool_erase v (pool_of s)"
  by (simp add: pool_of_def pool_erase_def Let_def filter_map comp_def case_prod_unfold)

lemma pool_of_create:
  assumes "entries_ok s"
  shows "pool_of (create_page t now n s) = pool_add now n (page_new now n) (pool_of s)"
proof -
  have "deref (cp_heap s @ [p]) e = deref (cp_heap s) e" if "(k, e) \<in> set (bp_pages (cp_pool s))" for p k e
    using assms that by (auto simp: entries_ok_def page_at_def deref_def nth_append)
  then show ?thesis
    by (auto simp: pool_of_def pool_add_def Let_def deref_def nth_append)
qed

lemma find_lru_deref:
  "find_lru (map_prod id (deref h) f) (map (map_prod id (deref h)) es) = map_prod id (deref h) (find_lru f es)"
  by (induction es arbitrary: f) (simp_all add: find_lru_def)

lemma lru_victim_deref:
  assumes "bp_pages (cp_pool s) \<noteq> []" "lru_victim (cp_pool s) = (v, e)"
  shows "lru_victim (pool_of s) = (v, deref (cp_heap s) e)"
proof -
  have "lru_victim (pool_of s) = map_prod id (deref (cp_heap s)) (lru_victim (cp_pool s))"
    using assms(1) find_lru_deref by (simp add: lru_victim_def hd_map map_prod_def id_def)
  with assms(2) show ?thesis by simp
qed

abbreviation alone :: "nat \<Rightarrow> cpool \<Rightarrow> cpool \<Rightarrow> bool" where
  "alone t \<equiv> (pool_step t)\<^sup>*\<^sup>*"

lemma alone_step: "pool_step t a b \<Longrightarrow> alone t b c \<Longrightarrow> alone t a c"
  by (rule converse_rtranclp_into_rtranclp)

lemma alone_runs: "alone t a b \<Longrightarrow> pool_runs a b"
  unfolding interleave_def by (rule rtranclp_mono [THEN predicate2D, rotated]) auto

text \<open>One round of the eviction loop does what \<open>evict_lru\<close> does.\<close>

lemma evict_round:
  assumes "cp_pc s t = Evicting n i" "over_limit (cp_pool s)"
  shows "case evict_lru (pool_of s) of
      Some b \<Rightarrow> \<exists>v. pool_step t s (on_pool (pool_erase v) s) \<and> pool_of (on_pool (pool_erase v) s) = b
    | None \<Rightarrow> \<exists>v. pool_step t s (at_pc t (Evict_saving n i v) s)"
proof -
  obtain v e where v: "lru_victim (cp_pool s) = (v, e)" by fastforce
  have ne: "bp_pages (cp_pool s) \<noteq> []" using assms(2) by (simp add: over_limit_def)
  then have lru: "evict_lru (pool_of s) =
      (if pg_dirty (cp_heap s ! pe_page e) then None else Some (pool_of (on_pool (pool_erase v) s)))"
    using lru_victim_deref [OF ne v] by (simp add: evict_lru_def)
  show ?thesis
    using get_evict [OF assms v] get_evict_dirty [OF assms v]
    by (cases "pg_dirty (cp_heap s ! pe_page e)") (auto simp: lru simp del: pool_of_erase)
qed

lemma evict_loop_step:
  "evict_loop (pool_of s) =
     (if over_limit (cp_pool s)
      then (case evict_lru (pool_of s) of None \<Rightarrow> None | Some b \<Rightarrow> evict_loop b)
      else Some (pool_of s))"
  by (subst evict_loop.simps) (simp add: over_limit_def)

text \<open>The eviction loop: it ends with the pool that \<open>evict_loop\<close> computes, or asks for its own lock.\<close>

lemma evict_alone:
  assumes "cp_pc s t = Evicting n i"
  shows "case evict_loop (pool_of s) of
      Some b \<Rightarrow> \<exists>g. alone t s (on_pool g s) \<and> pool_of (on_pool g s) = b \<and> \<not> over_limit (g (cp_pool s))
    | None \<Rightarrow> \<exists>g v. alone t s (at_pc t (Evict_saving n i v) (on_pool g s))"
  using assms
proof (induction "pool_of s" arbitrary: s rule: evict_loop.induct)
  case 1
  show ?case
  proof (cases "over_limit (cp_pool s)")
    case False
    then show ?thesis by (auto simp: evict_loop_step intro!: exI [of _ "\<lambda>b. b"])
  next
    case True
    note round = evict_round [OF 1(2) True]
    show ?thesis
    proof (cases "evict_lru (pool_of s)")
      case None
      with round obtain v where "alone t s (at_pc t (Evict_saving n i v) (on_pool (\<lambda>b. b) s))" by auto
      with None True show ?thesis by (auto simp: evict_loop_step simp del: on_pool_id)
    next
      case (Some b)
      with round obtain v where v: "pool_step t s (on_pool (pool_erase v) s)"
        "b = pool_of (on_pool (pool_erase v) s)" by auto
      let ?s = "on_pool (pool_erase v) s"
      have comp: "on_pool g ?s = on_pool (g \<circ> pool_erase v) s" for g by (simp add: on_pool_def)
      have loop: "evict_loop (pool_of s) = evict_loop (pool_of ?s)" using Some True v(2) by (simp add: evict_loop_step)
      have "bp_current_size (pool_of s) > bp_max_size (pool_of s) \<and> bp_pages (pool_of s) \<noteq> []"
        using True by (simp add: over_limit_def)
      note IH = 1(1) [OF this Some [unfolded v(2)], simplified, OF 1(2)]
      show ?thesis
      proof (cases "evict_loop (pool_of ?s)")
        case None
        with IH obtain g w where "alone t ?s (at_pc t (Evict_saving n i w) (on_pool g ?s))" by auto
        with alone_step [OF v(1)] None show ?thesis by (auto simp: loop comp)
      next
        case (Some c)
        with IH obtain g where "alone t ?s (on_pool g ?s)" "pool_of (on_pool g ?s) = c"
          "\<not> over_limit (g (cp_pool ?s))" by auto
        with alone_step [OF v(1)] Some show ?thesis
          by (auto simp: loop comp intro!: exI [of _ "g \<circ> pool_erase v"])
      qed
    qed
  qed
qed

lemma free_lock_alone:
  assumes "cp_pc s t = Idle" "cp_writer s = None" "cp_readers s = {}" "lookup s n = None"
  shows "alone t s (set_writer (Some t) (at_pc t (Rechecking n) (on_pool pool_miss s)))"
proof -
  let ?a = "lock_shared t (at_pc t (Looking n) s)"
  let ?b = "unlock_shared t (at_pc t (Missed n) (on_pool pool_miss ?a))"
  have "pool_step t s ?a" using assms by (intro call_get)
  moreover have "pool_step t ?a ?b" using assms by (intro get_miss) simp_all
  moreover have "pool_step t ?b (set_writer (Some t) (at_pc t (Rechecking n) ?b))"
    using assms by (intro get_lock) simp_all
  moreover have "set_writer (Some t) (at_pc t (Rechecking n) ?b) =
      set_writer (Some t) (at_pc t (Rechecking n) (on_pool pool_miss s))"
    using assms(3) by (simp add: cpool_defs)
  ultimately show ?thesis by (metis (no_types, lifting) alone_step rtranclp.rtrancl_refl)
qed

text \<open>The state after a call on a free lock, in terms of the sequential \<open>get_page\<close>.\<close>

definition returned :: "nat \<Rightarrow> u32 \<Rightarrow> page \<Rightarrow> page buffer_pool \<Rightarrow> cpool \<Rightarrow> cpool \<Rightarrow> bool" where
  "returned t n p b s s' \<longleftrightarrow> pool_of s' = b \<and> cp_pc s' = cp_pc s \<and> cp_writer s' = None \<and>
     cp_readers s' = {} \<and>
     (\<exists>i. cp_handles s' = (cp_handles s)(t := (n, i) # cp_handles s t) \<and> cp_heap s' ! i = p)"

lemma get_page_alone_hit:
  assumes "cp_pc s t = Idle" "cp_writer s = None" "cp_readers s = {}" and "lookup s n = Some e"
  shows "\<exists>s'. alone t s s' \<and> returned t n (cp_heap s ! pe_page e) (pool_hit now n (pool_of s)) s s'"
proof -
  let ?a = "lock_shared t (at_pc t (Looking n) s)"
  let ?b = "unlock_shared t (hand_out t n (pe_page e) (on_pool (pool_hit now n) ?a))"
  have "pool_step t s ?a" using assms by (intro call_get)
  moreover have "pool_step t ?a ?b" using assms(4) by (intro get_hit) simp_all
  moreover have "pool_of ?b = pool_hit now n (pool_of s)" by simp
  ultimately show ?thesis using assms
    by (auto simp: returned_def fun_upd_idem intro!: exI [of _ ?b] alone_step [of t s ?a])
qed

lemma create_alone:
  assumes "cp_pc s t = Idle" "cp_writer s = None" "cp_readers s = {}" and ok: "entries_ok s"
    and "lookup s n = None"
  shows "\<exists>b. alone t s b \<and> pool_of b = pool_add now n (page_new now n) (pool_miss (pool_of s)) \<and>
    cp_pc b = (cp_pc s)(t := Evicting n (length (cp_heap s))) \<and> cp_readers b = {} \<and>
    cp_handles b = cp_handles s \<and> cp_heap b = cp_heap s @ [page_new now n]"
proof -
  let ?a = "set_writer (Some t) (at_pc t (Rechecking n) (on_pool pool_miss s))"
  let ?b = "create_page t now n ?a"
  have "entries_ok ?a" using ok by (simp add: entries_ok_def del: map_of_eq_Some_iff)
  note pool = pool_of_create [OF this, of t now n]
  have "pool_step t ?a ?b" using assms(5) by (intro get_create) simp_all
  with free_lock_alone [OF assms(1-3,5)] have "alone t s ?b" by simp
  with pool assms(3) show ?thesis by (intro exI [of _ ?b]) simp
qed

lemma get_page_alone:
  assumes free: "cp_pc s t = Idle" "cp_writer s = None" "cp_readers s = {}" and ok: "entries_ok s"
  shows "case get_page now n (pool_of s) of
      Some (p, b) \<Rightarrow> \<exists>s'. alone t s s' \<and> returned t n p b s s'
    | None \<Rightarrow> \<exists>s' i v. alone t s s' \<and> cp_pc s' t = Evict_saving n i v"
proof (cases "lookup s n")
  case (Some e)
  with get_page_alone_hit [OF free this] show ?thesis by (simp add: get_page_def map_of_deref)
next
  case None
  let ?i = "length (cp_heap s)"
  obtain b where b: "alone t s b" "pool_of b = pool_add now n (page_new now n) (pool_miss (pool_of s))"
    "cp_pc b = (cp_pc s)(t := Evicting n ?i)" "cp_readers b = {}" "cp_handles b = cp_handles s"
    "cp_heap b = cp_heap s @ [page_new now n]"
    using create_alone [OF free ok None] by blast
  have get: "get_page now n (pool_of s) = map_option (Pair (page_new now n)) (evict_loop (pool_of b))"
    using None by (simp add: get_page_def map_of_deref b(2) Let_def split: option.split)
  have "cp_pc b t = Evicting n ?i" by (simp add: b(3))
  note loop = evict_alone [OF this]
  show ?thesis
  proof (cases "evict_loop (pool_of b)")
    case None': None
    with loop obtain g v where "alone t b (at_pc t (Evict_saving n ?i v) (on_pool g b))" by auto
    from rtranclp_trans [OF b(1) this] have
      "\<exists>s' i v. alone t s s' \<and> cp_pc s' t = Evict_saving n i v" by fastforce
    with None' show ?thesis by (simp add: get)
  next
    case (Some c)
    with loop obtain g where g: "alone t b (on_pool g b)" "pool_of (on_pool g b) = c"
      "\<not> over_limit (g (cp_pool b))" by auto
    let ?d = "set_writer None (hand_out t n ?i (on_pool g b))"
    have "pool_step t (on_pool g b) ?d" using g(3) b(3) by (intro get_done) simp_all
    with rtranclp_trans [OF b(1) g(1)] have "alone t s ?d" by simp
    moreover have "returned t n (page_new now n) c s ?d"
      using g(2) b free by (auto simp: returned_def fun_upd_idem)
    ultimately show ?thesis using Some by (auto simp: get)
  qed
qed

text \<open>
  Every run of a call: the steps of a thread alone while its call is under way, from its first step on.
  \<open>call_state\<close> says what such a run has done when the thread is at a program point.
\<close>

definition pending :: "cpool \<Rightarrow> nat \<Rightarrow> bool" where
  "pending s t \<longleftrightarrow> cp_pc s t \<noteq> Idle"

inductive call_run :: "nat \<Rightarrow> u32 \<Rightarrow> cpool \<Rightarrow> cpool \<Rightarrow> bool" for t n s where
  call_starts: "call_run t n s (lock_shared t (at_pc t (Looking n) s))"
| call_goes_on: "\<lbrakk>call_run t n s a; pending a t; pool_step t a b\<rbrakk> \<Longrightarrow> call_run t n s b"

definition call_state :: "nat \<Rightarrow> u32 \<Rightarrow> cpool \<Rightarrow> cpool \<Rightarrow> bool" where
  "call_state t n s a \<longleftrightarrow>
     (case cp_pc a t of
        Looking m \<Rightarrow> a = lock_shared t (at_pc t (Looking n) s)
      | Missed m \<Rightarrow> a = at_pc t (Missed n) (on_pool pool_miss s) \<and> lookup s n = None
      | Rechecking m \<Rightarrow> a = set_writer (Some t) (at_pc t (Rechecking n) (on_pool pool_miss s)) \<and> lookup s n = None
      | Evicting m i \<Rightarrow> lookup s n = None \<and> m = n \<and> cp_pc a = (cp_pc s)(t := Evicting n i) \<and>
          cp_readers a = {} \<and> cp_handles a = cp_handles s \<and>
          (\<exists>now. cp_heap a ! i = page_new now n \<and>
             evict_loop (pool_of a) = evict_loop (pool_add now n (page_new now n) (pool_miss (pool_of s))))
      | Evict_saving m i v \<Rightarrow> \<exists>now. get_page now n (pool_of s) = None
      | Idle \<Rightarrow> \<exists>now p b. get_page now n (pool_of s) = Some (p, b) \<and> returned t n p b s a
      | _ \<Rightarrow> False)"

lemma get_page_miss:
  assumes "lookup s n = None"
  shows "get_page now n (pool_of s) =
    map_option (Pair (page_new now n)) (evict_loop (pool_add now n (page_new now n) (pool_miss (pool_of s))))"
  using assms by (simp add: get_page_def map_of_deref Let_def split: option.split)

lemma call_state_step:
  assumes free: "cp_pc s t = Idle" "cp_writer s = None" "cp_readers s = {}" and ok: "entries_ok s"
    and a: "call_state t n s a" "pending a t" and step: "pool_step t a b"
  shows "call_state t n s b"
proof (cases "cp_pc a t")
  case (Looking m)
  then have a': "a = lock_shared t (at_pc t (Looking n) s)" using a(1) by (simp add: call_state_def)
  show ?thesis
  proof (cases "lookup s n")
    case None
    from step Looking a' None free have "b = unlock_shared t (at_pc t (Missed n) (on_pool pool_miss a))"
      by (cases rule: pool_step.cases) auto
    with a' None free(3) show ?thesis by (simp add: call_state_def)
  next
    case (Some e)
    from step Looking a' Some obtain now where
      b: "b = unlock_shared t (hand_out t n (pe_page e) (on_pool (pool_hit now n) a))"
      by (cases rule: pool_step.cases) auto
    have "get_page now n (pool_of s) = Some (cp_heap s ! pe_page e, pool_hit now n (pool_of s))"
      using Some by (simp add: get_page_def map_of_deref)
    moreover have "returned t n (cp_heap s ! pe_page e) (pool_hit now n (pool_of s)) s b"
      using a' free by (auto simp: b returned_def fun_upd_idem)
    ultimately show ?thesis by (auto simp: call_state_def b)
  qed
next
  case (Missed m)
  with a(1) have a': "a = at_pc t (Missed n) (on_pool pool_miss s)" "lookup s n = None"
    by (simp_all add: call_state_def)
  from step Missed a' have "b = set_writer (Some t) (at_pc t (Rechecking n) a)"
    by (cases rule: pool_step.cases) auto
  with a' show ?thesis by (simp add: call_state_def)
next
  case (Rechecking m)
  with a(1) have a': "a = set_writer (Some t) (at_pc t (Rechecking n) (on_pool pool_miss s))" "lookup s n = None"
    by (simp_all add: call_state_def)
  from step Rechecking a' obtain now where b: "b = create_page t now n a"
    by (cases rule: pool_step.cases) auto
  have "entries_ok a" using ok by (simp add: a'(1) entries_ok_def del: map_of_eq_Some_iff)
  from pool_of_create [OF this, of t now n] a' b free(3) show ?thesis
    by (auto simp: call_state_def)
next
  case (Evicting m i)
  with a(1) obtain now where e: "lookup s n = None" "m = n" "cp_pc a = (cp_pc s)(t := Evicting n i)"
      "cp_readers a = {}" "cp_handles a = cp_handles s" "cp_heap a ! i = page_new now n"
    and loop: "evict_loop (pool_of a) = evict_loop (pool_add now n (page_new now n) (pool_miss (pool_of s)))"
    by (auto simp: call_state_def)
  note get = get_page_miss [OF e(1), of now, folded loop]
  show ?thesis
  proof (cases "over_limit (cp_pool a)")
    case False
    from step Evicting e(2) False have b: "b = set_writer None (hand_out t n i a)"
      by (cases rule: pool_step.cases) auto
    have "get_page now n (pool_of s) = Some (page_new now n, pool_of a)"
      using get False by (simp add: evict_loop_step)
    moreover have "returned t n (page_new now n) (pool_of a) s b"
      using e free by (auto simp: b returned_def fun_upd_idem)
    ultimately show ?thesis by (auto simp: call_state_def b)
  next
    case True
    obtain v x where v: "lru_victim (cp_pool a) = (v, x)" by fastforce
    have ne: "bp_pages (cp_pool a) \<noteq> []" using True by (simp add: over_limit_def)
    then have lru: "evict_lru (pool_of a) =
        (if pg_dirty (cp_heap a ! pe_page x) then None else Some (pool_erase v (pool_of a)))"
      using lru_victim_deref [OF ne v] by (simp add: evict_lru_def)
    show ?thesis
    proof (cases "pg_dirty (cp_heap a ! pe_page x)")
      case dirty: True
      from step Evicting True v dirty have "b = at_pc t (Evict_saving n i v) a"
        using e(2) by (cases rule: pool_step.cases) auto
      moreover have "get_page now n (pool_of s) = None" using get True lru dirty by (simp add: evict_loop_step)
      ultimately show ?thesis by (auto simp: call_state_def)
    next
      case clean: False
      from step Evicting True v clean have b: "b = on_pool (pool_erase v) a"
        by (cases rule: pool_step.cases) auto
      have "evict_loop (pool_of b) = evict_loop (pool_of a)"
        using True lru clean by (simp add: evict_loop_step [of a] b)
      with e loop show ?thesis by (auto simp: call_state_def b)
    qed
  qed
next
  case (Evict_saving m i v)
  with step show ?thesis by (cases rule: pool_step.cases) auto
qed (use a in \<open>simp_all add: call_state_def pending_def\<close>)

lemma call_run_state:
  assumes "cp_pc s t = Idle" "cp_writer s = None" "cp_readers s = {}" "entries_ok s"
  shows "call_run t n s a \<Longrightarrow> call_state t n s a"
proof (induction rule: call_run.induct)
  case call_starts
  then show ?case by (simp add: call_state_def)
next
  case (call_goes_on a b)
  with call_state_step [OF assms] show ?case by blast
qed

text \<open>The call is stuck only where it asks for its own lock.\<close>

lemma call_run_steps:
  assumes free: "cp_pc s t = Idle" "cp_writer s = None" "cp_readers s = {}"
    and "call_state t n s a" "pending a t" "\<And>m i v. cp_pc a t \<noteq> Evict_saving m i v"
  shows "\<exists>b. pool_step t a b"
proof (cases "cp_pc a t")
  case (Looking m)
  then show ?thesis by (cases "lookup a m") (blast intro: get_hit get_miss)+
next
  case (Missed m)
  with assms have "cp_writer a = None" "cp_readers a = {}" by (simp_all add: call_state_def)
  with Missed show ?thesis by (blast intro: get_lock)
next
  case (Rechecking m)
  then show ?thesis by (cases "lookup a m") (blast intro: get_found get_create)+
next
  case (Evicting m i)
  then show ?thesis by (cases "lru_victim (cp_pool a)") (blast intro: get_evict get_evict_dirty get_done)
qed (use assms in \<open>auto simp: call_state_def pending_def\<close>)

section \<open>Getting stuck\<close>

fun own_lock :: "pool_pc \<Rightarrow> bool" where
  "own_lock (Evict_saving n i v) = True"
| "own_lock _ = False"

text \<open>A thread that waits for another one can wait only for a thread that can go on.\<close>

lemma holder_steps:
  assumes "holds_shared (cp_pc s t) \<or> holds_exclusive (cp_pc s t)" "\<not> own_lock (cp_pc s t)"
  shows "\<exists>s'. pool_step t s s'"
proof (cases "cp_pc s t")
  case (Looking n)
  then show ?thesis by (cases "lookup s n") (blast intro: get_hit get_miss)+
next
  case (Save_looking n)
  then show ?thesis by (cases "lookup s n") (blast intro: save_missing save_found)+
next
  case (Rechecking n)
  then show ?thesis by (cases "lookup s n") (blast intro: get_found get_create)+
next
  case (Evicting n i)
  then show ?thesis by (cases "lru_victim (cp_pool s)") (blast intro: get_evict get_evict_dirty get_done)
qed (use assms in auto)

lemma some_pending_steps:
  assumes ok: "pool_locks_ok s" and t: "pending s t" and free: "\<And>u. \<not> own_lock (cp_pc s u)"
  shows "\<exists>u s'. pending s u \<and> pool_step u s s'"
proof (cases "\<exists>u. holds_shared (cp_pc s u) \<or> holds_exclusive (cp_pc s u)")
  case True
  then obtain u where u: "holds_shared (cp_pc s u) \<or> holds_exclusive (cp_pc s u)" by blast
  moreover from u have "pending s u" by (auto simp: pending_def)
  ultimately show ?thesis using holder_steps [OF _ free] by blast
next
  case False
  then have none: "cp_writer s = None" "cp_readers s = {}"
    using ok by (auto simp: pool_locks_ok_def simp flip: not_None_eq)
  have "\<not> holds_shared (cp_pc s t)" "\<not> holds_exclusive (cp_pc s t)" using False by blast+
  then have "\<exists>s'. pool_step t s s'"
    using t none by (cases "cp_pc s t") (auto simp: pending_def intro: get_lock save_write save_clean)
  with t show ?thesis by blast
qed

text \<open>
  While the lock waits for its own holder, only clients and calls of \<open>save_page\<close> that have left the lock go
  on: \<open>past_lock\<close> lists where these can get.
\<close>

fun past_lock :: "pool_pc \<Rightarrow> pool_pc set" where
  "past_lock (Save_writing n i) = {Save_writing n i, Save_cleaning n i, Idle}"
| "past_lock (Save_cleaning n i) = {Save_cleaning n i, Idle}"
| "past_lock c = {c}"

lemma past_lock_refl [simp]: "c \<in> past_lock c"
  by (cases c) simp_all

lemma past_lock_trans: "b \<in> past_lock a \<Longrightarrow> c \<in> past_lock b \<Longrightarrow> c \<in> past_lock a"
  by (cases a) auto

lemma stuck_step:
  assumes "pool_step u s s'" "pool_locks_ok s" "cp_pc s t = Evict_saving n i v"
  shows "cp_pc s' t = Evict_saving n i v \<and> bp_pages (cp_pool s') = bp_pages (cp_pool s) \<and>
    cp_handles s' = cp_handles s \<and> (\<forall>w. cp_pc s' w \<in> past_lock (cp_pc s w))"
proof -
  have w: "cp_writer s = Some t" using assms(2,3) by (auto simp: pool_locks_ok_def)
  have "\<not> holds_shared (cp_pc s u)" using assms(2) w by (auto simp: pool_locks_ok_def)
  moreover have "holds_exclusive (cp_pc s u) \<Longrightarrow> u = t"
    using writer_unique [OF assms(2), of t u] assms(3) by simp
  ultimately show ?thesis using assms(3) w by (cases rule: pool_step.cases [OF assms(1), consumes 0]) auto
qed

section \<open>Calls end\<close>

text \<open>
  How many steps of its own a thread can still make before its call returns or waits for its own
  lock. Page numbers have 32 bits, so the pool never holds more than \<open>2 ^ 32\<close> pages, and the eviction
  loop loses one in every round.
\<close>

fun pc_rank :: "nat \<Rightarrow> pool_pc \<Rightarrow> nat" where
  "pc_rank k Idle = 0"
| "pc_rank k (Looking n) = 2 ^ 32 + 5"
| "pc_rank k (Missed n) = 2 ^ 32 + 4"
| "pc_rank k (Rechecking n) = 2 ^ 32 + 3"
| "pc_rank k (Evicting n i) = k + 2"
| "pc_rank k (Evict_saving n i v) = 1"
| "pc_rank k (Save_looking n) = 3"
| "pc_rank k (Save_writing n i) = 2"
| "pc_rank k (Save_cleaning n i) = 1"

definition pool_rank :: "cpool \<Rightarrow> nat \<Rightarrow> nat" where
  "pool_rank s t = pc_rank (length (bp_pages (cp_pool s))) (cp_pc s t)"

lemma pc_rank_exclusive: "\<not> holds_exclusive pc \<Longrightarrow> pc_rank k pc = pc_rank k' pc"
  by (cases pc) simp_all

lemma own_step_rank:
  assumes "pool_step t s s'" "cpool_ok s" "pending s t"
  shows "pool_rank s' t < pool_rank s t"
  using assms
proof (induction rule: pool_step.induct)
  case (get_create s t n now)
  have "pool_step t s (create_page t now n s)" using get_create(1,2) by (rule pool_step.get_create)
  then have "entries_ok (create_page t now n s)" using get_create(3) by (simp add: cpool_ok_def step_entries)
  then have "length (bp_pages (cp_pool (create_page t now n s))) \<le> 2 ^ 32"
    by (intro pages_bound) (simp add: entries_ok_def)
  with get_create(1) show ?case by (simp add: pool_rank_def)
next
  case (get_evict s t n i v e)
  then have "Suc (length (bp_pages (pool_erase v (cp_pool s)))) = length (bp_pages (cp_pool s))"
    by (intro erase_size) (auto simp: cpool_ok_def entries_ok_def)
  with get_evict(1) show ?case by (simp add: pool_rank_def)
qed (auto simp: pool_rank_def pending_def)

lemma other_step_rank:
  assumes "pool_step u s s'" "cpool_ok s" "u \<noteq> t"
  shows "pool_rank s' t = pool_rank s t"
proof -
  have pc: "cp_pc s' t = cp_pc s t" using assms(1,3) by (induction rule: pool_step.induct) simp_all
  have "length (bp_pages (cp_pool s')) = length (bp_pages (cp_pool s)) \<or> holds_exclusive (cp_pc s u)"
    using assms(1) by (induction rule: pool_step.induct) (simp_all add: pool_miss_def)
  then show ?thesis
  proof
    assume "holds_exclusive (cp_pc s u)"
    then have "\<not> holds_exclusive (cp_pc s t)"
      using writer_unique [of s t u] assms(2,3) by (auto simp: cpool_ok_def)
    then show ?thesis unfolding pool_rank_def pc by (rule pc_rank_exclusive)
  qed (simp add: pool_rank_def pc)
qed

text \<open>Runs from within a call of thread \<open>t\<close> that count its steps until the call has returned.\<close>

inductive own_run :: "nat \<Rightarrow> nat \<Rightarrow> cpool \<Rightarrow> cpool \<Rightarrow> bool" for t where
  start: "own_run t 0 s s"
| mine: "\<lbrakk>own_run t k s a; pending a t; pool_step t a b\<rbrakk> \<Longrightarrow> own_run t (Suc k) s b"
| others: "\<lbrakk>own_run t k s a; u \<noteq> t; pool_step u a b\<rbrakk> \<Longrightarrow> own_run t k s b"

lemma own_run_bound: "own_run t k s s' \<Longrightarrow> cpool_ok s \<Longrightarrow> cpool_ok s' \<and> k + pool_rank s' t \<le> pool_rank s t"
proof (induction rule: own_run.induct)
  case (mine k s a b)
  then have ok: "cpool_ok a" by simp
  from own_step_rank [OF mine(3) ok mine(2)] mine(4,5) pool.tstep_inv [OF mine(3) ok] show ?case by simp
next
  case (others k s a u b)
  then have ok: "cpool_ok a" by simp
  from other_step_rank [OF others(3) ok others(2)] others(4,5) pool.tstep_inv [OF others(3) ok] show ?case
    by simp
qed simp

lemma pool_rank_bound: "cpool_ok s \<Longrightarrow> pool_rank s t \<le> 2 ^ 32 + 5"
  using pages_bound [of "bp_pages (cp_pool s)"]
  by (cases "cp_pc s t") (auto simp: pool_rank_def cpool_ok_def entries_ok_def)

section \<open>A page that gets dirty\<close>

text \<open>An image of zeros with its checksum loads, and leaves room behind a header of no length.\<close>

definition zero_image :: bytes where
  "zero_image = mem_write 24 (le32 (crc_calculate (replicate 8192 0))) (replicate 8192 0)"

lemma mem_write_zeros: "off + n \<le> m \<Longrightarrow> mem_write off (replicate n 0) (replicate m 0) = replicate m 0"
  by (simp add: mem_write_def min_def flip: replicate_add)

lemma zero_image_loads:
  "\<exists>h. page_do (P_deserialize zero_image) p = p\<lparr>pg_header := h, pg_data := zero_image, pg_dirty := False\<rparr> \<and>
     ph_num_slots h = 0 \<and> ph_free_offset h = 0"
proof -
  let ?c = "crc_calculate (replicate 8192 0)"
  have z: "zero_image = replicate 24 0 @ le32 ?c @ replicate 8164 0"
    by (simp add: zero_image_def mem_write_def min_def)
  have len: "length zero_image = 8192" by (simp add: zero_image_def)
  have "rd32 (drop 24 zero_image) = ?c" by (simp add: z)
  moreover have "mem_write 24 (replicate 4 0) zero_image = replicate 8192 0"
    unfolding zero_image_def by (subst mem_write_write_same) (simp_all add: mem_write_zeros)
  ultimately have "crc_verify (mem_write 24 (replicate 4 0) zero_image) (rd32 (drop 24 zero_image))"
    by (simp add: crc_verify_def)
  then have "page_do (P_deserialize zero_image) p =
      p\<lparr>pg_header := header_of_bytes zero_image, pg_data := zero_image, pg_dirty := False\<rparr>"
    by (simp add: deserialize_def len)
  moreover have "rd16 (drop 8 zero_image) = 0" "rd16 (drop 10 zero_image) = 0"
    by (simp_all add: z rd16_def numeral_2_eq_2)
  ultimately show ?thesis by (auto simp: header_of_bytes_def)
qed

lemma gets_dirty: "pg_dirty (page_do (P_insert now [1] 1 1) (page_do (P_deserialize zero_image) p))"
  using zero_image_loads [of p]
  by (auto simp: insert_row_def no_room_def append_slot_def Let_def)

section \<open>A run into the lock\<close>

text \<open>No thread is in a call.\<close>

definition quiet :: "cpool \<Rightarrow> bool" where
  "quiet s \<longleftrightarrow> (\<forall>t. cp_pc s t = Idle) \<and> cp_writer s = None \<and> cp_readers s = {}"

text \<open>A quiet pool that asks for a new page and has room for it.\<close>

lemma add_one:
  assumes q: "quiet s" and ok: "cpool_ok s" and new: "lookup s n = None"
    and room: "bp_current_size (cp_pool s) + 8192 \<le> bp_max_size (cp_pool s)"
  shows "\<exists>s'. pool_runs s s' \<and> quiet s' \<and> bp_max_size (cp_pool s') = bp_max_size (cp_pool s) \<and>
    bp_pages (pool_of s') = (n, \<lparr>pe_page = page_new now n, pe_last_access = now, pe_access_count = 0,
      pe_frequency = 0\<rparr>) # bp_pages (pool_of s)"
proof -
  let ?b = "pool_add now n (page_new now n) (pool_miss (pool_of s))"
  have b: "bp_current_size ?b \<le> bp_max_size ?b" "bp_max_size ?b = bp_max_size (cp_pool s)"
    using room by (simp_all add: pool_op_defs)
  then have "evict_loop ?b = Some ?b" by (subst evict_loop.simps) (auto simp: not_le)
  then have get: "get_page now n (pool_of s) = Some (page_new now n, ?b)"
    using new by (simp add: get_page_def map_of_deref Let_def)
  have "entries_ok s" using ok by (simp add: cpool_ok_def)
  with get_page_alone [of s 0, where now = now and n = n] q get obtain s' where
    s': "alone 0 s s'" "returned 0 n (page_new now n) ?b s s'" by (auto simp: quiet_def)
  from s'(2) have "pool_of s' = ?b" "quiet s'" using q by (auto simp: returned_def quiet_def)
  with alone_runs [OF s'(1)] b(2) show ?thesis
    by (intro exI [of _ s']) (metis pool_of_sels(1,2) pool_op_sels(5,13))
qed

lemma dirty_one:
  assumes q: "quiet s" and one: "bp_pages (cp_pool s) = [(n, e)]" and i: "pe_page e < length (cp_heap s)"
  shows "\<exists>s' e'. pool_runs s s' \<and> quiet s' \<and> bp_max_size (cp_pool s') = bp_max_size (cp_pool s) \<and>
    bp_pages (pool_of s') = [(n, e')] \<and> pg_dirty (pe_page e') \<and> pe_last_access e' = now"
proof -
  let ?i = "pe_page e"
  let ?a = "lock_shared 0 (at_pc 0 (Looking n) s)"
  let ?b = "unlock_shared 0 (hand_out 0 n ?i (on_pool (pool_hit now n) ?a))"
  let ?c = "on_page ?i (page_do (P_deserialize zero_image)) ?b"
  let ?d = "on_page ?i (page_do (P_insert now [1] 1 1)) ?c"
  have "pool_step 0 s ?a" using q by (intro call_get) (auto simp: quiet_def)
  moreover have "pool_step 0 ?a ?b" using one by (intro get_hit) simp_all
  moreover have "pool_step 0 ?b ?c" by (intro client [of _ _ n]) simp_all
  moreover have "pool_step 0 ?c ?d" by (intro client [of _ _ n]) simp_all
  ultimately have "pool_runs s ?d" by (meson interleave_step interleave_refl)
  moreover have "quiet ?d" using q by (auto simp: quiet_def)
  moreover have "\<exists>e'. bp_pages (pool_of ?d) = [(n, e')] \<and> pg_dirty (pe_page e') \<and> pe_last_access e' = now"
    using one i gets_dirty by (simp add: upd_entry_def)
  moreover have "bp_max_size (cp_pool ?d) = bp_max_size (cp_pool s)" by (simp add: pool_hit_def)
  ultimately show ?thesis by blast
qed

lemma cpool_runs_ok: "pool_runs (cpool_new mb) s \<Longrightarrow> cpool_ok s"
  by (rule pool.runs_inv [OF _ cpool_new_ok])

lemma entries_size: "cpool_ok s \<Longrightarrow> unat (bp_current_size (cp_pool s)) = 8192 * length (bp_pages (pool_of s))"
  by (simp add: cpool_ok_def entries_ok_def)

lemma lookup_pool_of: "lookup s n = None \<longleftrightarrow> n \<notin> fst ` set (bp_pages (pool_of s))"
  by (force simp: map_of_eq_None_iff)

text \<open>
  A full pool of \<open>k\<close> pages, the numbers from 0, whose least recently used one is page 0 and dirty.
\<close>

definition dirty_pool :: "u64 \<Rightarrow> nat \<Rightarrow> cpool \<Rightarrow> bool" where
  "dirty_pool mb k s \<longleftrightarrow> pool_runs (cpool_new mb) s \<and> quiet s \<and>
     bp_max_size (cp_pool s) = mb * 1024 * 1024 \<and> length (bp_pages (pool_of s)) = k \<and>
     fst ` set (bp_pages (pool_of s)) = word_of_nat ` {..<k} \<and>
     (\<exists>ys e. bp_pages (pool_of s) = ys @ [(0, e)] \<and> pg_dirty (pe_page e) \<and>
        (\<forall>y \<in> set ys. pe_last_access e < pe_last_access (snd y)))"

lemma mb_bytes:
  assumes "mb < (33554432 :: u64)"
  shows "unat (mb * 1024 * 1024) = 8192 * (128 * unat mb)" "128 * unat mb < 4294967296"
  using assms by (simp_all add: word_less_nat_alt unat_word_ariths)

lemma room_for:
  assumes "mb < 33554432" "cpool_ok s" "bp_max_size (cp_pool s) = mb * 1024 * 1024"
    "length (bp_pages (pool_of s)) < 128 * unat mb"
  shows "bp_current_size (cp_pool s) + 8192 \<le> bp_max_size (cp_pool s)"
  using assms entries_size [OF assms(2)] mb_bytes [OF assms(1)]
  by (simp add: word_le_nat_alt unat_word_ariths)

lemma new_number:
  assumes "k < 4294967296" "fst ` set (bp_pages (pool_of s)) = word_of_nat ` {..<k}"
  shows "lookup s (word_of_nat k) = None"
proof -
  have "(word_of_nat k :: u32) \<noteq> word_of_nat i" if "i < k" for i
  proof -
    have "unat (word_of_nat k :: u32) = k" "unat (word_of_nat i :: u32) = i"
      using that assms(1) by (simp_all add: unat_of_nat)
    with that show ?thesis by auto
  qed
  then show ?thesis unfolding lookup_pool_of assms(2) by auto
qed

lemma dirty_pool_one:
  assumes "0 < mb" "mb < 33554432"
  shows "\<exists>s. dirty_pool mb 1 s"
proof -
  have q: "quiet (cpool_new mb)" "lookup (cpool_new mb) 0 = None"
    "bp_max_size (cp_pool (cpool_new mb)) = mb * 1024 * 1024" "bp_pages (pool_of (cpool_new mb)) = []"
    by (simp_all add: quiet_def cpool_new_def pool_new_def)
  have "0 < unat mb" using assms(1) by (simp add: word_less_nat_alt)
  then have "bp_current_size (cp_pool (cpool_new mb)) + 8192 \<le> bp_max_size (cp_pool (cpool_new mb))"
    using q by (intro room_for [OF assms(2) cpool_new_ok]) simp_all
  from add_one [OF q(1) cpool_new_ok q(2) this, where now = 0] obtain s where
    s: "pool_runs (cpool_new mb) s" "quiet s" "bp_max_size (cp_pool s) = mb * 1024 * 1024"
    and one: "map fst (bp_pages (pool_of s)) = [0]"
    using q by (metis list.map(1) list.simps(9) fst_conv)
  obtain e where e: "bp_pages (cp_pool s) = [(0, e)]"
    using one by (cases "bp_pages (cp_pool s)") auto
  have "pe_page e < length (cp_heap s)"
    using cpool_runs_ok [OF s(1)] e by (simp add: cpool_ok_def entries_ok_def page_at_def)
  from dirty_one [OF s(2) e this, where now = 1] obtain s' e' where
    "pool_runs s s'" "quiet s'" "bp_max_size (cp_pool s') = mb * 1024 * 1024"
    "bp_pages (pool_of s') = [(0, e')]" "pg_dirty (pe_page e')"
    using s(3) by auto
  with interleave_trans [OF s(1)] have "dirty_pool mb 1 s'"
    by (auto simp: dirty_pool_def lessThan_Suc intro!: exI [of _ "[]"] simp del: pool_of_sels)
  then show ?thesis by blast
qed

lemma dirty_pool_Suc:
  assumes "mb < 33554432" "k < 128 * unat mb" and d: "dirty_pool mb k s"
  shows "\<exists>s'. dirty_pool mb (Suc k) s'"
proof -
  obtain ys e where ys: "bp_pages (pool_of s) = ys @ [(0, e)]" "pg_dirty (pe_page e)"
    "\<forall>y \<in> set ys. pe_last_access e < pe_last_access (snd y)"
    using d by (auto simp: dirty_pool_def)
  have ok: "cpool_ok s" using d cpool_runs_ok by (auto simp: dirty_pool_def)
  have new: "lookup s (word_of_nat k) = None"
    using d assms(2) mb_bytes(2) [OF assms(1)] by (intro new_number) (auto simp: dirty_pool_def)
  have room: "bp_current_size (cp_pool s) + 8192 \<le> bp_max_size (cp_pool s)"
    using d assms(2) by (intro room_for [OF assms(1) ok]) (auto simp: dirty_pool_def)
  have "quiet s" using d by (simp add: dirty_pool_def)
  let ?now = "Suc (pe_last_access e)"
  let ?x = "(word_of_nat k, \<lparr>pe_page = page_new ?now (word_of_nat k), pe_last_access = ?now,
    pe_access_count = 0, pe_frequency = 0\<rparr>)"
  from add_one [OF \<open>quiet s\<close> ok new room, where now = ?now] obtain s' where
    s': "pool_runs s s'" "quiet s'" "bp_max_size (cp_pool s') = bp_max_size (cp_pool s)"
    "bp_pages (pool_of s') = ?x # bp_pages (pool_of s)" by blast
  have "bp_pages (pool_of s') = (?x # ys) @ [(0, e)] \<and> pg_dirty (pe_page e) \<and>
      (\<forall>y \<in> set (?x # ys). pe_last_access e < pe_last_access (snd y))"
    using s'(4) ys by simp
  moreover have "pool_runs (cpool_new mb) s'" using d s'(1) interleave_trans
    by (auto simp: dirty_pool_def)
  ultimately have "dirty_pool mb (Suc k) s'"
    using d s' unfolding dirty_pool_def lessThan_Suc by (simp only: image_insert) auto
  then show ?thesis by blast
qed

lemma dirty_pool_full:
  assumes "0 < mb" "mb < 33554432" "k < 128 * unat mb"
  shows "\<exists>s. dirty_pool mb (Suc k) s"
  using assms(3)
proof (induction k)
  case 0
  then show ?case using dirty_pool_one [OF assms(1,2)] by simp
next
  case (Suc k)
  then show ?case using dirty_pool_Suc [OF assms(2)] by auto
qed

lemma find_lru_last:
  assumes "\<forall>y \<in> set ys. pe_last_access (snd z) < pe_last_access (snd y)" "ys \<noteq> []"
  shows "find_lru (hd (ys @ [z])) (ys @ [z]) = z"
proof -
  have "find_lru (hd ys) ys \<in> set ys" using find_lru_in [of "hd ys" ys] assms(2) by (auto simp: insert_absorb)
  with assms show ?thesis by (simp add: find_lru_def)
qed

text \<open>
  The self-lock is reachable in every pool of 1 MB up to 32 TB: a client loads an image with room into
  page 0 and inserts a row, the pool is filled, and the next new page makes page 0 the victim.
\<close>

lemma own_lock_reached:
  assumes "0 < mb" "mb < 33554432"
  shows "\<exists>s t n i v. pool_runs (cpool_new mb) s \<and> cp_pc s t = Evict_saving n i v"
proof -
  have pos: "0 < unat mb" using assms(1) by (simp add: word_less_nat_alt)
  define k where "k = 128 * unat mb"
  have k: "0 < k" "k < 4294967296" using pos mb_bytes(2) [OF assms(2)] by (auto simp: k_def)
  obtain s where d: "dirty_pool mb k s"
    using dirty_pool_full [OF assms, of "k - 1"] k(1) by (auto simp: k_def)
  then obtain ys e where ys: "bp_pages (pool_of s) = ys @ [(0, e)]" "pg_dirty (pe_page e)"
    "\<forall>y \<in> set ys. pe_last_access e < pe_last_access (snd y)"
    by (auto simp: dirty_pool_def)
  have ok: "cpool_ok s" using d cpool_runs_ok by (auto simp: dirty_pool_def)
  have new: "lookup s (word_of_nat k) = None"
    using d k(2) by (intro new_number) (auto simp: dirty_pool_def)
  let ?now = "Suc (pe_last_access e)"
  let ?p = "page_new ?now (word_of_nat k)"
  let ?b = "pool_add ?now (word_of_nat k) ?p (pool_miss (pool_of s))"
  let ?x = "(word_of_nat k, \<lparr>pe_page = ?p, pe_last_access = ?now, pe_access_count = 0, pe_frequency = 0\<rparr>)"
  have "bp_pages ?b = (?x # ys) @ [(0, e)]" using ys(1) by (simp del: pool_of_sels)
  then have victim: "lru_victim ?b = (0, e)" and ne: "bp_pages ?b \<noteq> []"
    using find_lru_last [of "?x # ys" "(0, e)"] ys(3) by (simp_all add: lru_victim_def)
  have "unat (bp_current_size (cp_pool s)) = 8192 * k" "unat (bp_max_size (cp_pool s)) = 8192 * k"
    using entries_size [OF ok] d mb_bytes(1) [OF assms(2)] by (simp_all add: dirty_pool_def k_def)
  then have "bp_max_size ?b < bp_current_size ?b"
    using k(2) by (simp add: word_less_nat_alt unat_word_ariths pool_miss_def pool_add_def)
  then have "evict_loop ?b = None"
    using ne victim ys(2) by (subst evict_loop.simps) (simp add: evict_lru_def)
  then have "get_page ?now (word_of_nat k) (pool_of s) = None"
    using new by (simp add: get_page_def map_of_deref)
  moreover have "cp_pc s 0 = Idle" "cp_writer s = None" "cp_readers s = {}" "entries_ok s"
    using d ok by (auto simp: dirty_pool_def quiet_def cpool_ok_def)
  ultimately obtain s' i v where "alone 0 s s'" "cp_pc s' 0 = Evict_saving (word_of_nat k) i v"
    using get_page_alone [of s 0, where now = ?now and n = "word_of_nat k"] by auto
  then show ?thesis
    using d interleave_trans alone_runs by (fastforce simp: dirty_pool_def)
qed

text \<open>
  Eviction does not ask who holds a page: two threads can hold different objects of one page
  number, and what the holder of the older one writes is lost to the pool. The smallest case is a
  pool of 0 MB, which evicts every page as it is created.
\<close>

lemma create_evicted:
  assumes "quiet s" "cpool_ok s" "bp_pages (cp_pool s) = []" "bp_max_size (cp_pool s) = 0"
  shows "\<exists>s'. pool_runs s s' \<and> quiet s' \<and> cpool_ok s' \<and> bp_pages (cp_pool s') = [] \<and>
    bp_max_size (cp_pool s') = 0 \<and> length (cp_heap s') = Suc (length (cp_heap s)) \<and>
    cp_handles s' = (cp_handles s)(t := (n, length (cp_heap s)) # cp_handles s t)"
proof -
  let ?a = "set_writer (Some t) (at_pc t (Rechecking n) (on_pool pool_miss s))"
  let ?b = "create_page t 0 n ?a"
  let ?c = "on_pool (pool_erase n) ?b"
  let ?d = "set_writer None (hand_out t n (length (cp_heap s)) ?c)"
  have "bp_current_size (cp_pool s) = 0"
    using entries_size [OF assms(2)] assms(3) by (simp add: unat_eq_0)
  then have over: "over_limit (cp_pool ?b)" and small: "\<not> over_limit (cp_pool ?c)"
    using assms(3,4) by (simp_all add: over_limit_def pool_op_defs)
  obtain e where victim: "lru_victim (cp_pool ?b) = (n, e)" and e: "pe_page e = length (cp_heap s)"
    using assms(3) by (simp add: lru_victim_def find_lru_def)
  have "alone t s ?a" using assms by (intro free_lock_alone) (simp_all add: quiet_def)
  moreover have "pool_step t ?a ?b" using assms(3) by (intro get_create) simp_all
  moreover have "pool_step t ?b ?c"
    by (rule get_evict [OF _ over victim]) (simp_all add: e page_new_def)
  moreover have "pool_step t ?c ?d" using small by (intro get_done) simp_all
  ultimately have "alone t s ?d" by (meson rtranclp.rtrancl_into_rtrancl)
  note run = alone_runs [OF this]
  moreover have "quiet ?d" using assms(1) by (auto simp: quiet_def)
  moreover have "bp_max_size (cp_pool ?d) = 0" using assms(4) by (simp add: pool_op_defs)
  ultimately show ?thesis using assms(3) pool.runs_inv [OF run assms(2)] by (intro exI [of _ ?d]) simp
qed

lemma two_objects:
  "\<exists>s. pool_runs (cpool_new 0) s \<and> cp_handles s 0 = [(5, 0)] \<and> cp_handles s 1 = [(5, 1)]"
proof -
  let ?s = "cpool_new 0"
  have "quiet ?s" "bp_pages (cp_pool ?s) = []" "bp_max_size (cp_pool ?s) = 0" "cp_heap ?s = []"
    and h: "cp_handles ?s = (\<lambda>_. [])"
    by (simp_all add: quiet_def cpool_new_def pool_new_def)
  with create_evicted [OF this(1) cpool_new_ok this(2,3), of 0 5] obtain s where
    s: "pool_runs ?s s" "quiet s" "cpool_ok s" "bp_pages (cp_pool s) = []" "bp_max_size (cp_pool s) = 0"
      "length (cp_heap s) = 1" "cp_handles s = (cp_handles ?s)(0 := [(5, 0)])" by auto
  from create_evicted [OF s(2-5), of 1 5] obtain s' where
    "pool_runs s s'" "cp_handles s' = (cp_handles s)(1 := (5, 1) # cp_handles s 1)"
    using s(6) by auto
  with interleave_trans [OF s(1)] s(7) h show ?thesis by (intro exI [of _ s']) simp
qed

text \<open>
  \<open>save_page\<close> marks the page clean in a second step: a change that another thread makes in between
  is not in the image that was written, and yet the page counts as clean.
\<close>

lemma save_forgets_change:
  assumes "cp_pc s t = Save_cleaning n i" "cp_pc s u = Idle" "(n, i) \<in> set (cp_handles s u)"
    "i < length (cp_heap s)"
  shows "\<exists>s'. pool_runs s s' \<and> cp_pc s' t = Idle \<and>
    cp_heap s' ! i = mark_clean (page_do oper (cp_heap s ! i)) \<and> \<not> pg_dirty (cp_heap s' ! i)"
proof -
  let ?a = "on_page i (page_do oper) s"
  let ?b = "at_pc t Idle (on_page i mark_clean ?a)"
  have "pool_step u s ?a" using assms(2,3) by (rule client)
  moreover have "pool_step t ?a ?b" using assms(1) by (intro save_clean) simp
  ultimately have "pool_runs s ?b" by (meson interleave_step interleave_refl)
  with assms(4) show ?thesis by (intro exI [of _ ?b]) (simp add: mark_clean_def)
qed

lemma entries_pool_ok:
  assumes "entries_ok s"
  shows "pool_ok (pool_of s)"
proof -
  have "map fst (bp_pages (pool_of s)) = map fst (bp_pages (cp_pool s))"
    by (simp add: case_prod_unfold)
  moreover have "\<forall>x \<in> set (bp_pages (pool_of s)). case x of (k, e) \<Rightarrow> pg_num (pe_page e) = k"
    using assms by (auto simp: entries_ok_def page_at_def)
  ultimately show ?thesis
    using assms unfolding pool_ok_def by (simp add: entries_ok_def del: map_map)
qed

section \<open>Properties\<close>

text \<open>
  C25. Concurrent callers. In every interleaving of calls of \<open>get_page\<close>, \<open>save_page\<close> and the methods of
  handed-out pages, by any number of threads on a new pool, the double-checked lookup keeps the
  books right: one entry per page number, pages under their own numbers, the recorded size that of
  the pages, and every page ever created either in the pool or counted as evicted. At most one
  thread is in the exclusive stretch, and none in the shared one with it. A thread holds only pages
  with the numbers it asked for, and the pool's page of a number is the latest one created.
\<close>

theorem pool_interleaving_safe:
  assumes "pool_runs (cpool_new mb) s"
  shows "pool_ok (pool_of s) \<and>
    bp_pages_read (pool_of s) = word_of_nat (length (bp_pages (pool_of s))) + bp_evictions (pool_of s) \<and>
    (\<forall>t u. holds_exclusive (cp_pc s t) \<and> (holds_exclusive (cp_pc s u) \<or> holds_shared (cp_pc s u)) \<longrightarrow> t = u) \<and>
    (\<forall>t n i. (n, i) \<in> set (cp_handles s t) \<longrightarrow> page_at s n i) \<and>
    (\<forall>t n i e. (n, i) \<in> set (cp_handles s t) \<and> lookup s n = Some e \<longrightarrow> i \<le> pe_page e)"
proof -
  note ok = cpool_runs_ok [OF assms, unfolded cpool_ok_def]
  have "pool_ok (pool_of s)" using ok entries_pool_ok by blast
  moreover have "t = u" if "holds_exclusive (cp_pc s t)" "holds_exclusive (cp_pc s u) \<or> holds_shared (cp_pc s u)"
    for t u using that ok unfolding pool_locks_ok_def by (metis empty_iff option.distinct(1) option.inject)
  moreover have "bp_pages_read (pool_of s) = bp_pages_read (cp_pool s)"
    "bp_evictions (pool_of s) = bp_evictions (cp_pool s)" by (simp_all add: pool_of_def Let_def)
  ultimately show ?thesis
    using ok by (auto simp: counts_ok_def refs_ok_def entries_ok_def simp del: map_of_eq_Some_iff)
qed

theorem pool_interleaving_safe_witness:
  "\<exists>s. pool_runs (cpool_new 0) s \<and> cp_handles s 0 = [(5, 0)] \<and> cp_handles s 1 = [(5, 1)] \<and>
     pool_ok (pool_of s)"
proof -
  obtain s where "pool_runs (cpool_new 0) s" "cp_handles s 0 = [(5, 0)]" "cp_handles s 1 = [(5, 1)]"
    using two_objects by blast
  with pool_interleaving_safe [OF this(1)] show ?thesis by blast
qed

text \<open>
  C26. \<open>get_page\<close> implements its sequential version. Take any state that concurrent use can reach, with the
  lock free, and a call of \<open>get_page\<close> that no other thread interferes with. In every run of the call, where it
  has returned it has handed out the page and left the pool that the sequential \<open>get_page\<close> computes on the
  pages behind the pointers, with the lock free again; where it asks for the lock it holds, that
  function has no result; and at every other point it can go on, so that, as its steps are bounded, it
  ends in one of the two ways. Conversely every outcome of the sequential function is one of such a run.
  (The sequential function is given the time that the run reads from the clock.)
\<close>

theorem get_page_implements:
  assumes "pool_runs (cpool_new mb) s" "cp_pc s t = Idle" "cp_writer s = None" "cp_readers s = {}"
  shows "(\<forall>s'. call_run t n s s' \<longrightarrow>
      (cp_pc s' t = Idle \<longrightarrow> (\<exists>now p b. get_page now n (pool_of s) = Some (p, b) \<and> returned t n p b s s')) \<and>
      (own_lock (cp_pc s' t) \<longrightarrow> (\<exists>now. get_page now n (pool_of s) = None)) \<and>
      (cp_pc s' t \<noteq> Idle \<and> \<not> own_lock (cp_pc s' t) \<longrightarrow> (\<exists>s''. pool_step t s' s''))) \<and>
    (case get_page now n (pool_of s) of
      Some (p, b) \<Rightarrow> \<exists>s'. alone t s s' \<and> returned t n p b s s'
    | None \<Rightarrow> \<exists>s' i v. alone t s s' \<and> cp_pc s' t = Evict_saving n i v)"
proof -
  have ok: "entries_ok s" using cpool_runs_ok [OF assms(1)] by (simp add: cpool_ok_def)
  have "(cp_pc s' t = Idle \<longrightarrow> (\<exists>now p b. get_page now n (pool_of s) = Some (p, b) \<and> returned t n p b s s')) \<and>
      (own_lock (cp_pc s' t) \<longrightarrow> (\<exists>now. get_page now n (pool_of s) = None)) \<and>
      (cp_pc s' t \<noteq> Idle \<and> \<not> own_lock (cp_pc s' t) \<longrightarrow> (\<exists>s''. pool_step t s' s''))"
    if "call_run t n s s'" for s'
  proof -
    have st: "call_state t n s s'" using call_run_state [OF assms(2-4) ok that] .
    with call_run_steps [OF assms(2-4) st] show ?thesis
      by (cases "cp_pc s' t") (auto simp: call_state_def pending_def)
  qed
  with get_page_alone [OF assms(2-4) ok] show ?thesis by blast
qed

theorem get_page_implements_witness:
  "\<exists>s' b. alone 3 (cpool_new 1) s' \<and> returned 3 7 (page_new 0 7) b (cpool_new 1) s'"
proof -
  have "get_page 0 7 (pool_of (cpool_new 1)) \<noteq> None" "map_of (bp_pages (pool_of (cpool_new 1))) 7 = None"
    using evict_loop_clean [of "pool_add 0 7 (page_new 0 7) (pool_miss (pool_of (cpool_new 1)))"]
    by (auto simp: get_page_def cpool_new_def pool_new_def page_new_def split: option.splits)
  then obtain b where "get_page 0 7 (pool_of (cpool_new 1)) = Some (page_new 0 7, b)"
    by (auto simp: get_page_def Let_def split: option.splits)
  then show ?thesis
    using get_page_implements [of 1 "cpool_new 1" 3, where now = 0 and n = 7]
    by (auto simp: cpool_new_def)
qed



text \<open>
  C28. Calls end. Whatever the other threads do, a thread inside a call of \<open>get_page\<close> or \<open>save_page\<close> makes
  only a bounded number of steps of its own until the call has returned or waits for its own lock:
  three in a \<open>save_page\<close> that holds the lock, and in the eviction loop at most one per page and two
  more; no interleaving makes the loop or the double lookup go round for ever.
\<close>

theorem pool_calls_end:
  assumes "pool_runs (cpool_new mb) s" "own_run t k s s'"
  shows "k \<le> pool_rank s t \<and> pool_rank s t \<le> 2 ^ 32 + 5 \<and>
    (k = pool_rank s t \<longrightarrow> cp_pc s' t = Idle) \<and>
    (\<forall>n i. cp_pc s t = Evicting n i \<longrightarrow> k \<le> length (bp_pages (cp_pool s)) + 2)"
proof -
  have ok: "cpool_ok s" using assms(1) by (rule cpool_runs_ok)
  note bound = own_run_bound [OF assms(2) ok]
  have "cp_pc s' t = Idle" if "pool_rank s' t = 0" using that by (cases "cp_pc s' t") (simp_all add: pool_rank_def)
  with bound pool_rank_bound [OF ok, of t] show ?thesis by (auto simp: pool_rank_def)
qed

theorem pool_calls_end_witness:
  "pool_rank (lock_shared 3 (at_pc 3 (Save_looking 7) (cpool_new 1))) 3 = 3 \<and>
   \<not> (\<exists>s'. own_run 3 4 (lock_shared 3 (at_pc 3 (Save_looking 7) (cpool_new 1))) s')"
proof -
  let ?s = "lock_shared 3 (at_pc 3 (Save_looking 7) (cpool_new 1))"
  have "pool_step 3 (cpool_new 1) ?s" by (rule call_save) (simp_all add: cpool_new_def)
  then have run: "pool_runs (cpool_new 1) ?s" by (meson interleave_step interleave_refl)
  have rank: "pool_rank ?s 3 = 3" by (simp add: pool_rank_def)
  have "\<not> own_run 3 4 ?s s'" for s'
  proof
    assume "own_run 3 4 ?s s'"
    from pool_calls_end [OF run this] rank show False by simp
  qed
  with rank show ?thesis by blast
qed

end
