(* ===== verification/Row_Codec.thy ===== *)
theory Row_Codec
  imports Dbx4_Prelude
begin

text \<open>
  The row of \<open>include/dbx4/unified_row.h\<close> and its byte format: a 32-bit column count followed by
  length-prefixed names and values. A \<open>std::string\<close> is its sequence of bytes.
\<close>

section \<open>The code\<close>

type_synonym bstring = bytes

record urow =
  ur_columns :: "(bstring, bstring) omap"
  ur_row_id :: u64
  ur_is_deleted :: bool
  ur_version :: u64

definition row_default :: urow where
  "row_default = \<lparr>ur_columns = [], ur_row_id = 0, ur_is_deleted = False, ur_version = 0\<rparr>"

definition row_get :: "bstring \<Rightarrow> urow \<Rightarrow> bstring" where
  "row_get c r = (case map_of (ur_columns r) c of Some v \<Rightarrow> v | None \<Rightarrow> [])"

definition row_set :: "bstring \<Rightarrow> bstring \<Rightarrow> urow \<Rightarrow> urow" where
  "row_set c v r = r\<lparr>ur_columns := omap_insert c v (ur_columns r)\<rparr>"

definition row_has :: "bstring \<Rightarrow> urow \<Rightarrow> bool" where
  "row_has c r \<longleftrightarrow> map_of (ur_columns r) c \<noteq> None"

definition enc_column :: "bstring \<times> bstring \<Rightarrow> bytes" where
  "enc_column = (\<lambda>(name, val). le16 (word_of_nat (length name)) @ name @
     le16 (word_of_nat (length val)) @ val)"

definition row_serialize :: "urow \<Rightarrow> bytes" where
  "row_serialize r = le32 (word_of_nat (length (ur_columns r))) @
     concat (map enc_column (ur_columns r))"

text \<open>One round of the loop on the bytes from \<open>pos\<close> on: a name and a value, or \<open>break\<close>.\<close>

definition dec_column :: "bytes \<Rightarrow> (bstring \<times> bstring) dec_result" where
  "dec_column bs =
     (if length bs < 2 then Dec_Fail
      else let nl = unat (rd16 bs) in
        if length bs < 2 + nl then Dec_Fail
        else let name = take nl (drop 2 bs); bs1 = drop (2 + nl) bs in
          if length bs1 < 2 then Dec_Fail
          else let vl = unat (rd16 bs1) in
            if length bs1 < 2 + vl then Dec_Fail
            else Dec_OK (name, take vl (drop 2 bs1)) (2 + nl + (2 + vl)))"

fun dec_columns :: "nat \<Rightarrow> bytes \<Rightarrow> urow \<Rightarrow> urow" where
  "dec_columns 0 bs r = r"
| "dec_columns (Suc n) bs r =
     (if bs = [] then r
      else case dec_column bs of
        Dec_OK (name, val) k \<Rightarrow> dec_columns n (drop k bs) (row_set name val r)
      | _ \<Rightarrow> r)"

definition row_deserialize :: "bytes \<Rightarrow> urow" where
  "row_deserialize data =
     (if length data < 4 then row_default
      else dec_columns (unat (rd32 data)) (drop 4 data) row_default)"

section \<open>A column as a codec\<close>

definition column_fits :: "bstring \<times> bstring \<Rightarrow> bool" where
  "column_fits = (\<lambda>(name, val). length name < 65536 \<and> length val < 65536)"

lemma unat_len16: "n < 65536 \<Longrightarrow> unat (word_of_nat n :: u16) = n"
  by (simp add: unat_of_nat)

lemma dec_column_enc: "column_fits x \<Longrightarrow> dec_column (enc_column x @ rest) = Dec_OK x (length (enc_column x))"
  by (cases x) (simp add: column_fits_def enc_column_def dec_column_def Let_def unat_len16)

lemma rd16_take: "2 \<le> k \<Longrightarrow> rd16 (take k bs) = rd16 bs"
  by (simp add: rd16_def min_def)

lemma dec_column_torn:
  assumes "column_fits x" "k < length (enc_column x)"
  shows "dec_column (take k (enc_column x)) = Dec_Fail"
proof -
  obtain name val where x: "x = (name, val)" by (cases x)
  let ?n = "le16 (word_of_nat (length name))" and ?v = "le16 (word_of_nat (length val))"
  have fits: "length name < 65536" "length val < 65536" using assms(1) by (simp_all add: column_fits_def x)
  have k: "k < 4 + length name + length val" using assms(2) by (simp add: x enc_column_def)
  consider "k < 2 + length name" | "2 + length name \<le> k" "k < 4 + length name" | "4 + length name \<le> k"
    by linarith
  then show ?thesis
  proof cases
    case 1
    then show ?thesis using fits
      by (cases "k < 2") (simp_all add: x enc_column_def dec_column_def Let_def rd16_take unat_len16)
  next
    case 2
    have tail: "drop (2 + length name) (take k (enc_column x)) = take (k - (2 + length name)) (?v @ val)"
      using 2 by (simp add: x enc_column_def drop_take)
    show ?thesis using fits 2 tail
      by (simp add: x enc_column_def dec_column_def Let_def rd16_take unat_len16)
  next
    case 3
    have tail: "drop (2 + length name) (take k (enc_column x)) = take (k - (2 + length name)) (?v @ val)"
      using 3 by (simp add: x enc_column_def drop_take)
    have "rd16 (take (k - (2 + length name)) (?v @ val)) = word_of_nat (length val)"
      using 3 by (subst rd16_take) simp_all
    with fits 3 tail k show ?thesis
      by (auto simp: x enc_column_def dec_column_def Let_def rd16_take unat_len16)
  qed
qed

interpretation col: codec enc_column dec_column column_fits
proof unfold_locales
  show "enc_column x \<noteq> []" for x
    using length_le16 by (cases x) (auto simp: enc_column_def simp flip: length_0_conv)
qed (simp_all add: dec_column_enc dec_column_torn)

section \<open>Rows\<close>

abbreviation set_columns :: "urow \<Rightarrow> (bstring \<times> bstring) list \<Rightarrow> urow" where
  "set_columns \<equiv> foldl (\<lambda>r (name, val). row_set name val r)"

lemma dec_columns_prefix:
  "list_all column_fits xs \<Longrightarrow>
     \<exists>m \<le> length xs. dec_columns (length xs) (take k (concat (map enc_column xs))) r =
       set_columns r (take m xs) \<and>
       (length (concat (map enc_column xs)) \<le> k \<longrightarrow> m = length xs)"
proof (induction xs arbitrary: k r)
  case (Cons x xs)
  obtain name val where x: "x = (name, val)" by (cases x)
  have fit: "column_fits x" and fits: "list_all column_fits xs" using Cons.prems by auto
  show ?case
  proof (cases "k < length (enc_column x)")
    case True
    then have "dec_columns (length (x # xs)) (take k (concat (map enc_column (x # xs)))) r = r"
      using col.dec_torn [OF fit True] by simp
    with True show ?thesis by (intro exI [of _ 0]) simp
  next
    case False
    let ?rest = "take (k - length (enc_column x)) (concat (map enc_column xs))"
    have "take k (concat (map enc_column (x # xs))) = enc_column x @ ?rest" using False by simp
    then have dec: "dec_columns (length (x # xs)) (take k (concat (map enc_column (x # xs)))) r =
        dec_columns (length xs) ?rest (row_set name val r)"
      using col.dec_enc [OF fit] col.enc_nonempty [of x] by (simp add: x)
    obtain m where m: "m \<le> length xs"
      "dec_columns (length xs) ?rest (row_set name val r) = set_columns (row_set name val r) (take m xs)"
      "length (concat (map enc_column xs)) \<le> k - length (enc_column x) \<longrightarrow> m = length xs"
      using Cons.IH [OF fits] by blast
    have "dec_columns (length (x # xs)) (take k (concat (map enc_column (x # xs)))) r =
        set_columns r (take (Suc m) (x # xs))"
      unfolding dec m(2) by (simp add: x)
    moreover have "length (concat (map enc_column (x # xs))) \<le> k \<longrightarrow> Suc m = length (x # xs)"
      using m(3) False by auto
    moreover have "Suc m \<le> length (x # xs)" using m(1) by simp
    ultimately show ?thesis by blast
  qed
qed simp

lemma omap_insert_snoc: "omap_ok (m @ [(k, v)]) \<Longrightarrow> omap_insert k v m = m @ [(k, v)]"
  by (rule omap_insert_last) (simp add: omap_ok_def sorted_wrt_append)

lemma set_columns_sorted: "omap_ok xs \<Longrightarrow> set_columns row_default xs = row_default\<lparr>ur_columns := xs\<rparr>"
proof (induction xs rule: rev_induct)
  case (snoc x xs)
  then have "omap_ok xs" by (simp add: omap_ok_def sorted_wrt_append)
  with snoc show ?case by (cases x) (simp add: row_set_def omap_insert_snoc)
qed (simp add: row_default_def)

lemma omap_ok_take: "omap_ok xs \<Longrightarrow> omap_ok (take m xs)"
  by (simp add: omap_ok_def sorted_wrt_take take_map [symmetric])

section \<open>Properties\<close>

text \<open>
  C30. Rows on disk. Reading back any prefix of a serialised row, all of it or cut at an arbitrary
  byte, gives the first columns of the row, and all of them when nothing was cut, provided every
  name and value is shorter than \<open>2 ^ 16\<close> bytes. Row id, version and deletion mark are not part of the
  format and come back as zero.
\<close>

theorem row_roundtrip:
  assumes "omap_ok (ur_columns r)" "list_all column_fits (ur_columns r)"
    and "length (ur_columns r) < 2 ^ 32"
  shows "\<exists>m. row_deserialize (take k (row_serialize r)) =
      row_default\<lparr>ur_columns := take m (ur_columns r)\<rparr> \<and>
    (length (row_serialize r) \<le> k \<longrightarrow> take m (ur_columns r) = ur_columns r)"
proof (cases "k < 4")
  case True
  then show ?thesis
    by (intro exI [of _ 0]) (simp add: row_deserialize_def row_serialize_def row_default_def)
next
  case False
  have cnt: "unat (word_of_nat (length (ur_columns r)) :: u32) = length (ur_columns r)"
    using assms(3) by (simp add: unat_of_nat)
  obtain m where m: "m \<le> length (ur_columns r)"
    "dec_columns (length (ur_columns r)) (take (k - 4) (concat (map enc_column (ur_columns r)))) row_default
      = set_columns row_default (take m (ur_columns r))"
    "length (concat (map enc_column (ur_columns r))) \<le> k - 4 \<longrightarrow> m = length (ur_columns r)"
    using dec_columns_prefix [OF assms(2)] by blast
  have "row_deserialize (take k (row_serialize r)) = set_columns row_default (take m (ur_columns r))"
    using False m(2) by (simp add: row_deserialize_def row_serialize_def rd32_take cnt)
  with m False show ?thesis
    by (intro exI [of _ m]) (auto simp: set_columns_sorted omap_ok_take assms(1) row_serialize_def)
qed

theorem row_roundtrip_witness:
  "\<exists>m. row_deserialize (take 100 (row_serialize (row_default\<lparr>ur_columns := [([1], [2, 3]), ([4], [])]\<rparr>))) =
     row_default\<lparr>ur_columns := take m [([1], [2, 3]), ([4], [])]\<rparr> \<and>
     take m [([1], [2, 3]), ([4], [])] = [([1 :: u8], [2 :: u8, 3]), ([4], [])]"
  using row_roundtrip [of "row_default\<lparr>ur_columns := [([1], [2, 3]), ([4], [])]\<rparr>" 100]
  by (simp add: omap_ok_def column_fits_def row_serialize_def enc_column_def)

text \<open>A name of \<open>2 ^ 16\<close> bytes is stored with length zero, and the row is not read back.\<close>

lemma row_long_name:
  assumes "length name = 65536"
  shows "row_serialize (row_default\<lparr>ur_columns := [(name, val)]\<rparr>) =
    le32 1 @ le16 0 @ name @ le16 (word_of_nat (length val)) @ val"
proof -
  have len: "(word_of_nat (length name) :: u16) = 0"
    by (simp only: assms word_of_nat_eq_0_iff) simp
  show ?thesis by (simp add: row_serialize_def enc_column_def len)
qed

end
