(* ===== verification/Row_Cache.thy ===== *)
theory Row_Cache
  imports Dbx4_Prelude
begin

text \<open>
  The row cache and the first query executor of \<open>src/query_executor.cpp\<close>. Every method holds a mutex,
  so executions are sequences of calls. \<open>max_size\<close> is a member that only its initialiser sets.
\<close>

section \<open>The cache\<close>

type_synonym crow = "(string, string) omap"

record row_cache =
  rc_cache :: "(string, crow) omap"
  rc_lru_order :: "string list"
  rc_max_size :: nat

definition cache_new :: "nat \<Rightarrow> row_cache" where
  "cache_new mx = \<lparr>rc_cache = [], rc_lru_order = [], rc_max_size = mx\<rparr>"

abbreviation "default_cache \<equiv> cache_new 10000"

definition cache_evict :: "row_cache \<Rightarrow> row_cache" where
  "cache_evict c =
     (if rc_max_size c \<le> length (rc_cache c) then
        case rc_lru_order c of
          [] \<Rightarrow> c
        | k # ks \<Rightarrow> c\<lparr>rc_cache := omap_erase k (rc_cache c), rc_lru_order := ks\<rparr>
      else c)"

definition cache_put :: "string \<Rightarrow> crow \<Rightarrow> row_cache \<Rightarrow> row_cache" where
  "cache_put key row c0 =
     (let c = cache_evict c0 in
      c\<lparr>rc_cache := omap_insert key row (rc_cache c), rc_lru_order := rc_lru_order c @ [key]\<rparr>)"

definition cache_get :: "string \<Rightarrow> row_cache \<Rightarrow> crow option" where
  "cache_get key c = map_of (rc_cache c) key"

definition cache_erase :: "string \<Rightarrow> row_cache \<Rightarrow> row_cache" where
  "cache_erase key c =
     c\<lparr>rc_cache := omap_erase key (rc_cache c), rc_lru_order := remove1 key (rc_lru_order c)\<rparr>"

definition cache_clear :: "row_cache \<Rightarrow> row_cache" where
  "cache_clear c = c\<lparr>rc_cache := [], rc_lru_order := []\<rparr>"

section \<open>The executor\<close>

text \<open>\<open>stamp\<close> is \<open>std::to_string(time(nullptr))\<close>.\<close>

definition build_crow :: "string list \<Rightarrow> string list \<Rightarrow> crow" where
  "build_crow cols vals = foldl (\<lambda>m (c, v). omap_insert c v m) [] (zip cols vals)"

definition qe_insert ::
  "string \<Rightarrow> string \<Rightarrow> string list \<Rightarrow> string list \<Rightarrow> row_cache \<Rightarrow> crow list \<times> row_cache" where
  "qe_insert stamp table cols vals c =
     (let row = build_crow cols vals in ([row], cache_put (table @ '':row:'' @ stamp) row c))"

definition qe_select :: "string \<Rightarrow> row_cache \<Rightarrow> crow list" where
  "qe_select table c = []"

definition qe_update :: "string \<Rightarrow> string \<Rightarrow> crow \<Rightarrow> row_cache \<Rightarrow> bool \<times> row_cache" where
  "qe_update table row_id updates c = (True, c)"

definition qe_delete :: "string \<Rightarrow> string \<Rightarrow> row_cache \<Rightarrow> bool \<times> row_cache" where
  "qe_delete table row_id c = (True, c)"

definition qe_commit :: "row_cache \<Rightarrow> bool \<times> row_cache" where
  "qe_commit c = (True, c)"

definition qe_rollback :: "row_cache \<Rightarrow> bool \<times> row_cache" where
  "qe_rollback c = (True, c)"

text \<open>\<open>execute\<close> on a string of SQL: \<open>None\<close> is the exception for an empty string.\<close>

definition qe_execute :: "string \<Rightarrow> row_cache \<Rightarrow> crow list option" where
  "qe_execute sql c =
     (if sql = [] then None else Some [[(''rows_affected'', ''0''), (''status'', ''ok'')]])"

section \<open>Histories\<close>

datatype cache_op = Put string crow | Erase string | Clear

fun cache_step :: "row_cache \<Rightarrow> cache_op \<Rightarrow> row_cache" where
  "cache_step c (Put k r) = cache_put k r c"
| "cache_step c (Erase k) = cache_erase k c"
| "cache_step c Clear = cache_clear c"

text \<open>The specification: the row last put under a key since it was last erased or all was cleared.\<close>

fun spec_step :: "(string \<rightharpoonup> crow) \<Rightarrow> cache_op \<Rightarrow> (string \<rightharpoonup> crow)" where
  "spec_step m (Put k r) = m(k \<mapsto> r)"
| "spec_step m (Erase k) = m(k := None)"
| "spec_step m Clear = Map.empty"

text \<open>A history in which no key is put while it is cached.\<close>

fun fresh_puts :: "row_cache \<Rightarrow> cache_op list \<Rightarrow> bool" where
  "fresh_puts c [] = True"
| "fresh_puts c (x # xs) =
     ((case x of Put k r \<Rightarrow> cache_get k c = None | _ \<Rightarrow> True) \<and> fresh_puts (cache_step c x) xs)"

lemma keys_omap_insert: "fst ` set (omap_insert k v m) = insert k (fst ` set m)"
  using set_keys_omap_insert [of k v m] by simp

lemma keys_omap_erase: "fst ` set (omap_erase k m) = fst ` set m - {k}"
  by (auto simp: omap_erase_def)

lemma evict_sub: "map_of (rc_cache (cache_evict c)) \<subseteq>\<^sub>m map_of (rc_cache c)"
  by (auto simp: cache_evict_def map_le_def split: list.splits)

lemma cache_step_sound:
  assumes "map_of (rc_cache c) \<subseteq>\<^sub>m m"
  shows "map_of (rc_cache (cache_step c x)) \<subseteq>\<^sub>m spec_step m x"
proof (cases x)
  case (Put k r)
  have "map_of (rc_cache (cache_evict c)) \<subseteq>\<^sub>m m" using evict_sub assms by (rule map_le_trans)
  with Put show ?thesis by (auto simp: cache_put_def Let_def map_le_def)
qed (use assms in \<open>auto simp: cache_erase_def cache_clear_def map_le_def\<close>)

definition cache_tight :: "row_cache \<Rightarrow> bool" where
  "cache_tight c \<longleftrightarrow> omap_ok (rc_cache c) \<and> distinct (rc_lru_order c) \<and>
     set (rc_lru_order c) = fst ` set (rc_cache c) \<and> length (rc_cache c) \<le> rc_max_size c"

lemma tight_length: "cache_tight c \<Longrightarrow> length (rc_cache c) = length (rc_lru_order c)"
  using length_omap_card [of "rc_cache c"] distinct_card [of "rc_lru_order c"]
  by (simp add: cache_tight_def)

lemma evict_tight:
  assumes "cache_tight c" "0 < rc_max_size c"
  shows "cache_tight (cache_evict c)" and "length (rc_cache (cache_evict c)) < rc_max_size c"
    and "rc_max_size (cache_evict c) = rc_max_size c"
proof -
  show "rc_max_size (cache_evict c) = rc_max_size c" by (simp add: cache_evict_def split: list.splits)
  show tight: "cache_tight (cache_evict c)"
  proof (cases "rc_lru_order c")
    case (Cons k ks)
    have "length (omap_erase k m) \<le> length m" for m :: "(string, crow) omap"
      by (simp add: omap_erase_def)
    with assms Cons show ?thesis
      by (auto simp: cache_evict_def cache_tight_def keys_omap_erase intro: order_trans)
  qed (use assms in \<open>simp add: cache_evict_def\<close>)
  show "length (rc_cache (cache_evict c)) < rc_max_size c"
    using tight_length [OF tight] tight_length [OF assms(1)] assms
    by (cases "rc_lru_order c") (auto simp: cache_evict_def cache_tight_def)
qed

lemma cache_step_tight:
  assumes "cache_tight c" "0 < rc_max_size c" "case x of Put k r \<Rightarrow> cache_get k c = None | _ \<Rightarrow> True"
  shows "cache_tight (cache_step c x) \<and> rc_max_size (cache_step c x) = rc_max_size c"
proof (cases x)
  case (Put k r)
  let ?e = "cache_evict c"
  note ev = evict_tight [OF assms(1,2)]
  have "map_of (rc_cache ?e) k = None"
    using assms(3) Put evict_sub [of c]
    by (simp add: cache_get_def map_le_def) (metis domIff)
  then have new: "k \<notin> fst ` set (rc_cache ?e)" by (simp add: map_of_eq_None_iff)
  have ok: "omap_ok (rc_cache ?e)" using ev(1) by (simp add: cache_tight_def)
  have "length (omap_insert k r (rc_cache ?e)) = Suc (length (rc_cache ?e))"
    using length_omap_card [OF omap_ok_insert [OF ok, of k r]] length_omap_card [OF ok] new
    by (simp add: keys_omap_insert)
  with ev new ok show ?thesis
    by (auto simp: Put cache_put_def Let_def cache_tight_def keys_omap_insert)
next
  case (Erase k)
  have "length (omap_erase k (rc_cache c)) \<le> length (rc_cache c)" by (simp add: omap_erase_def)
  with assms Erase show ?thesis
    by (auto simp: cache_erase_def cache_tight_def keys_omap_erase)
qed (use assms in \<open>simp_all add: cache_clear_def cache_tight_def\<close>)

section \<open>Properties\<close>

text \<open>
  C31. The cache is sound: after any history a hit delivers the row that was last put under the key,
  never one that was overwritten, erased or cleared. And as long as no key is put again while it
  is cached, the cache stays within its limit.
\<close>

theorem cache_correct:
  "(cache_get k (run_steps cache_step (cache_new mx) ops) = Some r \<longrightarrow>
      run_steps spec_step Map.empty ops k = Some r) \<and>
   (0 < mx \<and> fresh_puts (cache_new mx) ops \<longrightarrow>
      length (rc_cache (run_steps cache_step (cache_new mx) ops)) \<le> mx)"
proof -
  have sound: "map_of (rc_cache c) \<subseteq>\<^sub>m m \<Longrightarrow>
      map_of (rc_cache (run_steps cache_step c ops)) \<subseteq>\<^sub>m run_steps spec_step m ops" for c m
    by (induction ops arbitrary: c m) (auto intro: cache_step_sound)
  have tight: "cache_tight c \<Longrightarrow> 0 < rc_max_size c \<Longrightarrow> fresh_puts c ops \<Longrightarrow>
      cache_tight (run_steps cache_step c ops) \<and>
      rc_max_size (run_steps cache_step c ops) = rc_max_size c" for c
  proof (induction ops arbitrary: c)
    case (Cons x ops)
    from cache_step_tight [OF Cons.prems(1,2)] Cons.prems(3) Cons.IH [of "cache_step c x"] Cons.prems(2)
    show ?case by simp
  qed simp
  have "map_of (rc_cache (cache_new mx)) \<subseteq>\<^sub>m Map.empty" by (simp add: cache_new_def)
  from sound [OF this] have "cache_get k (run_steps cache_step (cache_new mx) ops) = Some r \<longrightarrow>
      run_steps spec_step Map.empty ops k = Some r"
    by (auto simp: cache_get_def map_le_def dom_def)
  moreover have "cache_tight (cache_new mx)" by (simp add: cache_tight_def cache_new_def)
  ultimately show ?thesis using tight [of "cache_new mx"] by (auto simp: cache_tight_def cache_new_def)
qed

theorem cache_correct_witness:
  "cache_get ''b'' (run_steps cache_step (cache_new 2) [Put ''a'' [], Put ''b'' [(''x'', ''1'')]]) =
     Some [(''x'', ''1'')] \<and>
   run_steps spec_step Map.empty [Put ''a'' [], Put ''b'' [(''x'', ''1'')]] ''b'' = Some [(''x'', ''1'')] \<and>
   length (rc_cache (run_steps cache_step (cache_new 2) [Put ''a'' [], Put ''b'' [(''x'', ''1'')]])) \<le> 2"
proof -
  let ?ops = "[Put ''a'' [], Put ''b'' [(''x'', ''1'')]]"
  have hit: "cache_get ''b'' (run_steps cache_step (cache_new 2) ?ops) = Some [(''x'', ''1'')]"
    by (simp add: cache_get_def cache_put_def cache_evict_def cache_new_def Let_def)
  have fresh: "fresh_puts (cache_new 2) ?ops"
    by (simp add: cache_get_def cache_put_def cache_evict_def cache_new_def Let_def)
  show ?thesis using cache_correct [of "''b''" 2 ?ops "[(''x'', ''1'')]"] hit fresh by simp
qed

text \<open>
  Putting a cached key again lists it twice. Its second mention later evicts nothing, and the cache
  grows beyond its limit.
\<close>

lemma cache_overflows:
  "length (rc_cache (run_steps cache_step (cache_new 2)
     [Put ''a'' [], Put ''a'' [], Put ''b'' [], Put ''c'' [], Put ''d'' []])) = 3"
  by (simp add: cache_put_def cache_evict_def cache_new_def Let_def omap_erase_def)

text \<open>A row inserted through the executor is never returned by a query.\<close>

lemma qe_select_empty: "qe_select table (snd (qe_insert stamp table cols vals c)) = []"
  by (simp add: qe_select_def)

text \<open>
  The key of an inserted row is its table and the second of the insertion, so of two rows inserted
  into a table within one second only the later one is kept.
\<close>

lemma qe_insert_same_second:
  assumes "qe_insert stamp table cols vals c = (rows, c')" "qe_insert stamp table cols' vals' c' = (rows', c'')"
  shows "cache_get (table @ '':row:'' @ stamp) c'' = Some (build_crow cols' vals') \<and>
    dom (map_of (rc_cache c'')) \<subseteq> dom (map_of (rc_cache c'))"
proof -
  have "dom (map_of (rc_cache (cache_evict c'))) \<subseteq> dom (map_of (rc_cache c'))"
    by (rule map_le_implies_dom_le [OF evict_sub])
  moreover have "map_of (rc_cache c'') =
      (map_of (rc_cache (cache_evict c')))(table @ '':row:'' @ stamp \<mapsto> build_crow cols' vals')"
    using assms(2) by (auto simp: qe_insert_def cache_put_def Let_def)
  moreover have "table @ '':row:'' @ stamp \<in> dom (map_of (rc_cache c'))"
    using assms(1) by (auto simp: qe_insert_def cache_put_def Let_def)
  ultimately show ?thesis by (simp add: cache_get_def)
qed

end
