(* ===== verification/Btree_Index.thy ===== *)
theory Btree_Index
  imports Dbx4_Prelude
begin

text \<open>
  The index of \<open>src/indexing.cpp\<close>: a tree whose root node is never split, so an index is one sorted
  array of keys. \<open>std::lower_bound\<close> and \<open>std::binary_search\<close> are the halving searches of the standard
  library on the range \<open>first .. first + len\<close>.
\<close>

section \<open>The code\<close>

datatype 'k btree_node = Node (node_keys: "'k list") (node_children: "'k btree_node list") (node_is_leaf: bool)

function lower_bound_loop :: "'k::linorder list \<Rightarrow> 'k \<Rightarrow> nat \<Rightarrow> nat \<Rightarrow> nat" where
  "lower_bound_loop xs key first len =
     (if len = 0 then first
      else let half = len div 2 in
        if xs ! (first + half) < key
        then lower_bound_loop xs key (first + half + 1) (len - half - 1)
        else lower_bound_loop xs key first half)"
  by pat_completeness auto
termination lower_bound_loop
  by (relation "measure (\<lambda>(xs, key, first, len). len)") auto

declare lower_bound_loop.simps [simp del]

definition lower_bound :: "'k::linorder list \<Rightarrow> 'k \<Rightarrow> nat" where
  "lower_bound xs key = lower_bound_loop xs key 0 (length xs)"

definition binary_search :: "'k::linorder list \<Rightarrow> 'k \<Rightarrow> bool" where
  "binary_search xs key =
     (let i = lower_bound xs key in i \<noteq> length xs \<and> \<not> key < xs ! i)"

fun insert_key :: "'k::linorder \<Rightarrow> 'k btree_node \<Rightarrow> 'k btree_node" where
  "insert_key key (Node keys children leaf) =
     (let pos = lower_bound keys key in
      if pos \<noteq> length keys \<and> keys ! pos = key then Node keys children leaf
      else Node (take pos keys @ key # drop pos keys) children leaf)"

definition contains :: "'k::linorder \<Rightarrow> 'k btree_node \<Rightarrow> bool" where
  "contains key n = binary_search (node_keys n) key"

text \<open>The index: its root pointer, \<open>None\<close> for a null pointer.\<close>

type_synonym 'k btree_index = "'k btree_node option"

definition index_new :: "'k btree_index" where
  "index_new = Some (Node [] [] True)"

definition index_insert :: "'k::linorder \<Rightarrow> 'k btree_index \<Rightarrow> 'k btree_index" where
  "index_insert key root =
     Some (insert_key key (case root of None \<Rightarrow> Node [] [] True | Some n \<Rightarrow> n))"

definition index_search :: "'k::linorder \<Rightarrow> 'k btree_index \<Rightarrow> bool" where
  "index_search key root = (case root of None \<Rightarrow> False | Some n \<Rightarrow> contains key n)"

text \<open>The destructor, as the nodes it deletes in order.\<close>

fun delete_node :: "'k btree_node \<Rightarrow> 'k btree_node list" where
  "delete_node (Node keys children leaf) =
     (if leaf then [] else concat (map delete_node children)) @ [Node keys children leaf]"

definition index_destroy :: "'k btree_index \<Rightarrow> 'k btree_node list" where
  "index_destroy root = (case root of None \<Rightarrow> [] | Some n \<Rightarrow> delete_node n)"

section \<open>Binary search\<close>

text \<open>The loop keeps the keys below \<open>first\<close> smaller and the keys from \<open>first + len\<close> on not smaller.\<close>

lemma lower_bound_loop_spec:
  assumes "sorted xs" "first + len \<le> length xs"
    and "\<forall>i < first. xs ! i < key" "\<forall>i. first + len \<le> i \<and> i < length xs \<longrightarrow> \<not> xs ! i < key"
  shows "lower_bound_loop xs key first len \<le> length xs \<and>
    (\<forall>i < lower_bound_loop xs key first len. xs ! i < key) \<and>
    (\<forall>i. lower_bound_loop xs key first len \<le> i \<and> i < length xs \<longrightarrow> \<not> xs ! i < key)"
  using assms
proof (induction xs key first len rule: lower_bound_loop.induct)
  case (1 xs key first len)
  let ?half = "len div 2"
  show ?case
  proof (cases "len = 0")
    case True
    with 1(4-6) show ?thesis by (subst (1 2 3) lower_bound_loop.simps) auto
  next
    case False
    have mid: "first + ?half < length xs" using False 1(4) by (simp add: div_less_dividend less_le_trans)
    show ?thesis
    proof (cases "xs ! (first + ?half) < key")
      case True
      have low: "\<forall>i < first + ?half + 1. xs ! i < key"
        using sorted_nth_mono [OF 1(3) _ mid] True by (auto intro: le_less_trans simp: less_Suc_eq_le)
      have split: "first + ?half + 1 + (len - ?half - 1) = first + len" using False by simp
      show ?thesis
        using 1(1) [OF False refl True 1(3)] low split 1(4,6) False True
        by (subst (1 2 3) lower_bound_loop.simps) (simp add: Let_def)
    next
      case notless: False
      have high: "\<forall>i. first + ?half \<le> i \<and> i < length xs \<longrightarrow> \<not> xs ! i < key"
        using sorted_nth_mono [OF 1(3)] notless by (meson le_less_trans)
      show ?thesis
        using 1(2) [OF False refl notless 1(3) _ 1(5) high] mid False notless
        by (subst (1 2 3) lower_bound_loop.simps) (simp add: Let_def)
    qed
  qed
qed

lemma lower_bound_spec:
  assumes "sorted xs"
  shows "lower_bound xs key \<le> length xs"
    "\<forall>i < lower_bound xs key. xs ! i < key"
    "\<forall>i. lower_bound xs key \<le> i \<and> i < length xs \<longrightarrow> \<not> xs ! i < key"
proof -
  note all = lower_bound_loop_spec [OF assms, of 0 "length xs" key, folded lower_bound_def]
  have "0 + length xs \<le> length xs" "\<forall>i < 0. xs ! i < key"
    "\<forall>i. 0 + length xs \<le> i \<and> i < length xs \<longrightarrow> \<not> xs ! i < key" by auto
  note spec = all [OF this]
  show "lower_bound xs key \<le> length xs" by (rule conjunct1 [OF spec])
  show "\<forall>i < lower_bound xs key. xs ! i < key" by (rule conjunct1 [OF conjunct2 [OF spec]])
  show "\<forall>i. lower_bound xs key \<le> i \<and> i < length xs \<longrightarrow> \<not> xs ! i < key"
    by (rule conjunct2 [OF conjunct2 [OF spec]])
qed

lemma lower_bound_found:
  assumes "sorted xs"
  shows "key \<in> set xs \<longleftrightarrow> lower_bound xs key \<noteq> length xs \<and> xs ! lower_bound xs key = key"
proof
  note lb = lower_bound_spec [OF assms, of key]
  assume "key \<in> set xs"
  then obtain i where i: "i < length xs" "xs ! i = key" by (auto simp: in_set_conv_nth)
  with lb(2) have le: "lower_bound xs key \<le> i" by (meson less_irrefl not_le)
  then have "xs ! lower_bound xs key \<le> key" using sorted_nth_mono [OF assms le] i by simp
  moreover have lt: "lower_bound xs key < length xs" using le i by simp
  moreover have "\<not> xs ! lower_bound xs key < key" using lb(3) lt by blast
  ultimately show "lower_bound xs key \<noteq> length xs \<and> xs ! lower_bound xs key = key" by simp
next
  assume "lower_bound xs key \<noteq> length xs \<and> xs ! lower_bound xs key = key"
  then show "key \<in> set xs" using lower_bound_spec(1) [OF assms, of key]
    by (metis nth_mem order_le_less)
qed

lemma binary_search_iff: "sorted xs \<Longrightarrow> binary_search xs key \<longleftrightarrow> key \<in> set xs"
proof -
  assume s: "sorted xs"
  note lb = lower_bound_spec [OF s, of key]
  have "lower_bound xs key < length xs \<Longrightarrow>
      (\<not> key < xs ! lower_bound xs key) = (xs ! lower_bound xs key = key)"
    using lb(3) by auto
  then show ?thesis using lb(1) by (auto simp: binary_search_def Let_def lower_bound_found [OF s])
qed

section \<open>Keys of an index\<close>

definition index_keys :: "'k btree_index \<Rightarrow> 'k list" where
  "index_keys root = (case root of None \<Rightarrow> [] | Some n \<Rightarrow> node_keys n)"

lemma insert_at_lower_bound:
  assumes "sorted_wrt (<) xs" "key \<notin> set xs"
  shows "sorted_wrt (<) (take (lower_bound xs key) xs @ key # drop (lower_bound xs key) xs)"
proof -
  let ?p = "lower_bound xs key"
  have s: "sorted xs" using assms(1) by (rule strict_sorted_imp_sorted)
  note lb = lower_bound_spec [OF s, of key]
  have "x < key" if "x \<in> set (take ?p xs)" for x
    using that lb(1,2) by (auto simp: in_set_conv_nth)
  moreover have "key < y" if y: "y \<in> set (drop ?p xs)" for y
  proof -
    from y obtain i where "i < length xs - ?p" "y = xs ! (?p + i)" by (auto simp: in_set_conv_nth)
    with lb(3) have "\<not> y < key" by simp
    moreover have "y \<noteq> key" using y assms(2) by (meson in_set_dropD)
    ultimately show ?thesis by simp
  qed
  moreover have "sorted_wrt (<) (take ?p xs @ drop ?p xs)" using assms(1) by simp
  ultimately show ?thesis unfolding sorted_wrt_append by (auto intro: less_trans)
qed

lemma index_insert_keys:
  assumes "sorted_wrt (<) (index_keys root)"
  shows "sorted_wrt (<) (index_keys (index_insert key root)) \<and>
    set (index_keys (index_insert key root)) = insert key (set (index_keys root))"
proof -
  define n where "n = (case root of None \<Rightarrow> Node [] [] True | Some n \<Rightarrow> n)"
  obtain keys cs leaf where n: "n = Node keys cs leaf" by (cases n)
  have keys: "index_keys root = keys" using n by (auto simp: index_keys_def n_def split: option.splits)
  have s: "sorted keys" using assms keys strict_sorted_imp_sorted by blast
  have ins: "index_keys (index_insert key root) = (if key \<in> set keys then keys
      else take (lower_bound keys key) keys @ key # drop (lower_bound keys key) keys)"
    by (simp add: index_insert_def index_keys_def n_def [symmetric] n Let_def lower_bound_found [OF s])
  have "set (take i keys @ key # drop i keys) = insert key (set keys)" for i
    using set_append [of "take i keys" "drop i keys"] by auto
  with assms keys insert_at_lower_bound [of keys key] show ?thesis by (auto simp: ins)
qed

section \<open>Destruction\<close>

text \<open>
  \<open>delete_node\<close> does not visit the children of a node that calls itself a leaf. In a tree whose leaves
  have none, every node is deleted exactly once, children before their parents.
\<close>

fun post_order :: "'k btree_node \<Rightarrow> 'k btree_node list" where
  "post_order (Node keys children leaf) = concat (map post_order children) @ [Node keys children leaf]"

fun leaves_ok :: "'k btree_node \<Rightarrow> bool" where
  "leaves_ok (Node keys children leaf) \<longleftrightarrow> (leaf \<longrightarrow> children = []) \<and> list_all leaves_ok children"

lemma delete_node_all: "leaves_ok n \<Longrightarrow> delete_node n = post_order n"
proof (induction n rule: delete_node.induct)
  case (1 keys children leaf)
  then have "map delete_node children = map post_order children" if "\<not> leaf"
    using that by (auto simp: list_all_iff)
  then have "concat (map delete_node children) = concat (map post_order children)" if "\<not> leaf"
    using that by metis
  with 1(2) show ?case by (cases leaf) (simp_all del: map_eq_conv)
qed

lemma insert_key_shape [simp]:
  "node_children (insert_key key n) = node_children n" "node_is_leaf (insert_key key n) = node_is_leaf n"
  by (cases n; simp add: Let_def)+

lemma index_destroy_all:
  "\<exists>n. foldl (\<lambda>r k. index_insert k r) index_new ks = Some n \<and> index_destroy (Some n) = [n]"
proof -
  have "\<exists>n. foldl (\<lambda>r k. index_insert k r) index_new ks = Some n \<and> node_children n = [] \<and> node_is_leaf n"
    by (induction ks rule: rev_induct) (auto simp: index_new_def index_insert_def)
  then obtain n where n: "foldl (\<lambda>r k. index_insert k r) index_new ks = Some n" "node_children n = []"
    "node_is_leaf n" by blast
  then have "delete_node n = [n]" by (cases n) simp
  with n show ?thesis by (auto simp: index_destroy_def)
qed

section \<open>Properties\<close>

text \<open>
  C32. An index is a set. After any sequence of insertions, duplicates included, the key array is
  the strictly increasing list of the keys inserted, and a search finds a key iff it was
  inserted.
\<close>

theorem index_is_set:
  "index_keys (foldl (\<lambda>ix k. index_insert k ix) index_new ks) = sorted_list_of_set (set ks) \<and>
   index_search key (foldl (\<lambda>ix k. index_insert k ix) index_new ks) = (key \<in> set ks)"
proof -
  let ?ix = "foldl (\<lambda>ix k. index_insert k ix) index_new ks"
  have "sorted_wrt (<) (index_keys (foldl (\<lambda>ix k. index_insert k ix) index_new ks)) \<and>
      set (index_keys (foldl (\<lambda>ix k. index_insert k ix) index_new ks)) = set ks" for ks :: "'a list"
  proof (induction ks rule: rev_induct)
    case Nil
    show ?case by (simp add: index_new_def index_keys_def)
  qed (simp add: index_insert_keys)
  then have k: "sorted_wrt (<) (index_keys ?ix)" "set (index_keys ?ix) = set ks" by blast+
  then have "index_keys ?ix = sorted_list_of_set (set ks)"
    by (metis sorted_list_of_set.idem_if_sorted_distinct strict_sorted_iff)
  moreover have "index_search key ?ix = (key \<in> set (index_keys ?ix))"
    using binary_search_iff [OF strict_sorted_imp_sorted [OF k(1)]]
    by (auto simp: index_search_def index_keys_def contains_def split: option.splits)
  ultimately show ?thesis using k(2) by simp
qed

end
