(* ===== verification/Sql_Executor.thy ===== *)
theory Sql_Executor
  imports Sql_Ast
begin

text \<open>
  The string-based executor of \<open>src/sql_executor_enhanced.cpp\<close>: projection lists, conditions that are
  taken apart by searching for \<open>AND\<close>, \<open>OR\<close> and \<open>NOT\<close> in the text, and the selection pipeline.
\<close>

section \<open>The code\<close>

datatype 'a outcome = Ok 'a | Throw string | Undefined

type_synonym srow = "string \<rightharpoonup> string"

text \<open>\<open>std::string::find\<close>: the first position of a pattern.\<close>

fun find_sub :: "string \<Rightarrow> string \<Rightarrow> nat option" where
  "find_sub pat [] = (if pat = [] then Some 0 else None)"
| "find_sub pat (c # cs) =
     (if take (length pat) (c # cs) = pat then Some 0 else map_option Suc (find_sub pat cs))"

definition trim :: "string \<Rightarrow> string" where
  "trim s = rev (dropWhile is_space (rev (dropWhile is_space s)))"

fun split_columns :: "string \<Rightarrow> string \<Rightarrow> string list \<Rightarrow> string list" where
  "split_columns current [] cols = (if current \<noteq> [] then cols @ [trim current] else cols)"
| "split_columns current (c # cs) cols =
     (if c = CHR '','' then
        if current \<noteq> [] then split_columns [] cs (cols @ [trim current]) else split_columns current cs cols
      else split_columns (current @ [c]) cs cols)"

definition parse_columns :: "string \<Rightarrow> string list" where
  "parse_columns proj = (if proj = ''*'' then [] else split_columns [] proj [])"

lemma find_sub_bound: "find_sub pat s = Some i \<Longrightarrow> i + length pat \<le> length s"
proof (induction s arbitrary: i)
  case (Cons c s)
  have "length pat \<le> length (c # s)" if "take (length pat) (c # s) = pat"
    using that by (metis length_take min.cobounded1)
  with Cons show ?case by (auto split: if_splits)
qed (auto split: if_splits)

definition single_condition :: "string \<Rightarrow> srow \<Rightarrow> bool outcome" where
  "single_condition s row =
     (case find_sub ''='' s of
        None \<Rightarrow> Throw (''Unsupported WHERE syntax: '' @ s)
      | Some i \<Rightarrow>
          (case row (trim (take i s)) of
             None \<Rightarrow> Ok False
           | Some v \<Rightarrow> Ok (v = trim (drop (i + 1) s))))"

function evaluate_where :: "string \<Rightarrow> srow \<Rightarrow> bool outcome" where
  "evaluate_where s row =
     (if s = [] then Ok True
      else case find_sub '' AND '' s of
        Some i \<Rightarrow>
          (case evaluate_where (take i s) row of
             Ok b \<Rightarrow> if b then evaluate_where (drop (i + 5) s) row else Ok False
           | e \<Rightarrow> e)
      | None \<Rightarrow>
          (case find_sub '' OR '' s of
             Some i \<Rightarrow>
               (case evaluate_where (take i s) row of
                  Ok b \<Rightarrow> if b then Ok True else evaluate_where (drop (i + 4) s) row
                | e \<Rightarrow> e)
           | None \<Rightarrow>
               if find_sub ''NOT '' s = Some 0 then
                 (case evaluate_where (drop 4 s) row of Ok b \<Rightarrow> Ok (\<not> b) | e \<Rightarrow> e)
               else single_condition s row))"
  by pat_completeness auto
termination evaluate_where
  by (relation "measure (\<lambda>(s, row). length s)") (auto dest: find_sub_bound)

declare evaluate_where.simps [simp del]

fun filter_where :: "string \<Rightarrow> srow list \<Rightarrow> srow list outcome" where
  "filter_where w [] = Ok []"
| "filter_where w (r # rs) =
     (case evaluate_where w r of
        Ok b \<Rightarrow> (case filter_where w rs of Ok rs' \<Rightarrow> Ok (if b then r # rs' else rs') | e \<Rightarrow> e)
      | Throw m \<Rightarrow> Throw m
      | Undefined \<Rightarrow> Undefined)"

definition column_less :: "string \<Rightarrow> srow \<Rightarrow> srow \<Rightarrow> bool" where
  "column_less c a b =
     (case a c of None \<Rightarrow> True | Some x \<Rightarrow> (case b c of None \<Rightarrow> False | Some y \<Rightarrow> x < y))"

fun insert_by :: "('a \<Rightarrow> 'a \<Rightarrow> bool) \<Rightarrow> 'a \<Rightarrow> 'a list \<Rightarrow> 'a list" where
  "insert_by lt x [] = [x]"
| "insert_by lt x (y # ys) = (if lt x y then x # y # ys else y # insert_by lt x ys)"

text \<open>
  \<open>std::sort\<close> needs a strict weak order. A row without the column is less than itself, so sorting two
  or more rows of which one lacks the column is undefined.
\<close>

definition sort_by_column :: "string \<Rightarrow> srow list \<Rightarrow> srow list outcome" where
  "sort_by_column c rows =
     (if 2 \<le> length rows \<and> (\<exists>r \<in> set rows. r c = None) then Undefined
      else Ok (foldl (\<lambda>done r. insert_by (column_less c) r done) [] rows))"

definition project_row :: "string list \<Rightarrow> srow \<Rightarrow> srow" where
  "project_row cols row =
     foldl (\<lambda>m c. case row c of None \<Rightarrow> m | Some v \<Rightarrow> m(c \<mapsto> v)) Map.empty cols"

definition execute_select :: "srow list \<Rightarrow> string \<Rightarrow> string \<Rightarrow> int \<Rightarrow> string \<Rightarrow> srow list outcome" where
  "execute_select rows projection order_by limit where_clause =
     (case filter_where where_clause rows of
        Throw m \<Rightarrow> Throw m
      | Undefined \<Rightarrow> Undefined
      | Ok filtered \<Rightarrow>
          (case (if order_by \<noteq> [] \<and> order_by \<noteq> ''*'' then sort_by_column order_by filtered
                 else Ok filtered) of
             Throw m \<Rightarrow> Throw m
           | Undefined \<Rightarrow> Undefined
           | Ok ordered \<Rightarrow>
               let limited = (if limit > 0 \<and> int (length ordered) > limit then take (nat limit) ordered
                              else ordered);
                   cols = parse_columns projection
               in Ok (if cols \<noteq> [] then map (project_row cols) limited else limited)))"

section \<open>Searching in joined texts\<close>

fun join :: "string \<Rightarrow> string list \<Rightarrow> string" where
  "join sep [] = []"
| "join sep [x] = x"
| "join sep (x # xs) = x @ sep @ join sep xs"

text \<open>A condition \<open>column=value\<close> without blanks.\<close>

definition atom :: "string \<Rightarrow> bool" where
  "atom a \<longleftrightarrow> CHR '' '' \<notin> set a \<and> CHR ''='' \<in> set a"

lemma find_skip:
  "CHR '' '' \<notin> set a \<Longrightarrow> p \<noteq> [] \<Longrightarrow>
     find_sub (CHR '' '' # p) (a @ s) = map_option ((+) (length a)) (find_sub (CHR '' '' # p) s)"
  by (induction a; cases "find_sub (CHR '' '' # p) s") auto

lemma atom_no_keyword:
  assumes "atom b" "CHR ''='' \<notin> set w"
  shows "take (Suc (length w)) (b @ t) \<noteq> w @ '' ''"
proof
  assume eq: "take (Suc (length w)) (b @ t) = w @ '' ''"
  show False
  proof (cases "length b \<le> length w")
    case True
    then have "b = take (length b) w"
      using arg_cong [OF eq, of "take (length b)"] by (simp add: min_def)
    then have "set b \<subseteq> set w" by (metis set_take_subset)
    with assms show False by (auto simp: atom_def)
  next
    case False
    then have "b ! length w = CHR '' ''"
      using arg_cong [OF eq, of "\<lambda>s. s ! length w"] by (simp add: nth_append)
    with assms(1) False show False by (metis atom_def not_le nth_mem)
  qed
qed

lemma join_head: "cs \<noteq> [] \<Longrightarrow> \<exists>t. join sep cs = hd cs @ t"
  by (cases "(sep, cs)" rule: join.cases) auto

lemma atoms_no_keyword:
  assumes "cs \<noteq> []" "list_all atom cs" "CHR ''='' \<notin> set w"
  shows "take (Suc (length w)) (join sep cs @ t) \<noteq> w @ '' ''"
proof -
  obtain u where "join sep cs = hd cs @ u" using join_head [OF assms(1)] by blast
  moreover have "atom (hd cs)" using assms(1,2) by (cases cs) auto
  ultimately show ?thesis using atom_no_keyword [OF _ assms(3), of "hd cs" "u @ t"] by simp
qed

text \<open>A clause of conditions joined by \<open>OR\<close> contains no \<open>AND\<close>, and \<open>OR\<close> first after its first condition.\<close>

lemma find_and_clause:
  "cs \<noteq> [] \<Longrightarrow> list_all atom cs \<Longrightarrow>
     find_sub '' AND '' (join '' OR '' cs) = None \<and>
     find_sub '' AND '' (join '' OR '' cs @ '' AND '' @ rest) = Some (length (join '' OR '' cs))"
proof (induction "'' OR ''" cs rule: join.induct)
  case (2 a)
  then have a: "CHR '' '' \<notin> set a" by (simp add: atom_def)
  show ?case using find_skip [OF a, of "''AND ''" "[]"] find_skip [OF a, of "''AND ''"] by simp
next
  case (3 a b cs)
  let ?j = "join '' OR '' (b # cs)"
  have a: "CHR '' '' \<notin> set a" and bs: "list_all atom (b # cs)" using 3(3) by (auto simp: atom_def)
  have IH: "find_sub '' AND '' ?j = None"
    "find_sub '' AND '' (?j @ '' AND '' @ rest) = Some (length ?j)" using 3(1) bs by auto
  have no: "take 4 (?j @ t) \<noteq> ''AND ''" for t
    using atoms_no_keyword [of "b # cs" "''AND''" "'' OR ''" t] bs by (simp add: numeral_eq_Suc)
  have "find_sub '' AND '' ('' OR '' @ ?j @ t) = map_option ((+) 4) (find_sub '' AND '' (?j @ t))" for t
    using no [of t] by (cases "find_sub '' AND '' (?j @ t)") (simp_all add: numeral_eq_Suc)
  from this [of "[]"] this [of "'' AND '' @ rest"] IH show ?case
    using find_skip [OF a, of "''AND ''" "'' OR '' @ ?j"]
      find_skip [OF a, of "''AND ''" "'' OR '' @ ?j @ '' AND '' @ rest"] by simp
qed simp

lemma find_or_atom:
  assumes "atom a"
  shows "find_sub '' OR '' a = None" "find_sub '' OR '' (a @ '' OR '' @ rest) = Some (length a)"
    "find_sub '' AND '' a = None"
proof -
  have a: "CHR '' '' \<notin> set a" using assms by (simp add: atom_def)
  show "find_sub '' OR '' a = None" "find_sub '' AND '' a = None"
    using find_skip [OF a, of "''OR ''" "[]"] find_skip [OF a, of "''AND ''" "[]"] by simp_all
  show "find_sub '' OR '' (a @ '' OR '' @ rest) = Some (length a)"
    using find_skip [OF a, of "''OR ''" "'' OR '' @ rest"] by simp
qed

lemma drop_and: "drop (length a + 5) (a @ '' AND '' @ rest) = rest"
  by (simp add: add.commute [of "length a"] flip: drop_drop)

lemma drop_or: "drop (length a + 4) (a @ '' OR '' @ rest) = rest"
  by (simp add: add.commute [of "length a"] flip: drop_drop)

section \<open>Conditions in conjunctive form\<close>

definition atom_holds :: "srow \<Rightarrow> string \<Rightarrow> bool" where
  "atom_holds row a \<longleftrightarrow>
     row (trim (takeWhile (\<lambda>c. c \<noteq> CHR ''='') a)) = Some (trim (tl (dropWhile (\<lambda>c. c \<noteq> CHR ''='') a)))"

lemma find_eq: "CHR ''='' \<in> set a \<Longrightarrow>
    find_sub ''='' a = Some (length (takeWhile (\<lambda>c. c \<noteq> CHR ''='') a))"
  by (induction a) auto

lemma eval_atom:
  assumes "atom a"
  shows "evaluate_where a row = Ok (atom_holds row a)"
proof -
  let ?n = "length (takeWhile (\<lambda>c. c \<noteq> CHR ''='') a)"
  have ne: "a \<noteq> []" and eq: "CHR ''='' \<in> set a" using assms by (auto simp: atom_def)
  have "take 4 a \<noteq> ''NOT ''" using assms by (metis atom_def in_set_takeD list.set_intros(1,2))
  then have not: "find_sub ''NOT '' a \<noteq> Some 0" using ne by (cases a) (auto simp: numeral_eq_Suc)
  have "take ?n a = takeWhile (\<lambda>c. c \<noteq> CHR ''='') a" by (metis takeWhile_eq_take)
  moreover have "drop (?n + 1) a = tl (dropWhile (\<lambda>c. c \<noteq> CHR ''='') a)"
    by (metis add.commute dropWhile_eq_drop drop_Suc plus_1_eq_Suc tl_drop)
  ultimately have "single_condition a row = Ok (atom_holds row a)"
    using find_eq [OF eq] by (auto simp: single_condition_def atom_holds_def split: option.splits)
  with find_or_atom [OF assms] not ne show ?thesis by (subst evaluate_where.simps) simp
qed

lemma eval_clause:
  "cs \<noteq> [] \<Longrightarrow> list_all atom cs \<Longrightarrow>
     evaluate_where (join '' OR '' cs) row = Ok (\<exists>a \<in> set cs. atom_holds row a)"
proof (induction "'' OR ''" cs rule: join.induct)
  case (3 a b cs)
  have at: "atom a" using 3(3) by simp
  have "find_sub '' AND '' (join '' OR '' (a # b # cs)) = None"
    using find_and_clause [of "a # b # cs"] 3(3) by simp
  then have "evaluate_where (join '' OR '' (a # b # cs)) row =
      (if atom_holds row a then Ok True else evaluate_where (join '' OR '' (b # cs)) row)"
    using find_or_atom(2) [OF at, of "join '' OR '' (b # cs)"] eval_atom [OF at]
      drop_or [of a "join '' OR '' (b # cs)"]
    by (subst evaluate_where.simps) simp
  with 3(1,3) show ?case by simp
qed (simp_all add: eval_atom)

lemma eval_and:
  assumes "find_sub '' AND '' s = Some (length l)" "take (length l) s = l" "drop (length l + 5) s = r"
  shows "evaluate_where s row =
    (case evaluate_where l row of Ok b \<Rightarrow> if b then evaluate_where r row else Ok False | e \<Rightarrow> e)"
proof -
  have "s \<noteq> []" using assms(1) by auto
  then show ?thesis using assms
    by (subst evaluate_where.simps) (simp split: outcome.splits)
qed

section \<open>The pipeline\<close>

lemma filter_where_Ok:
  "filter_where w rows = Ok rs \<Longrightarrow> rs = filter (\<lambda>r. evaluate_where w r = Ok True) rows"
  by (induction rows arbitrary: rs) (auto split: outcome.splits)

lemma filter_where_total:
  "\<forall>r \<in> set rows. \<exists>b. evaluate_where w r = Ok b \<Longrightarrow>
     filter_where w rows = Ok (filter (\<lambda>r. evaluate_where w r = Ok True) rows)"
  by (induction rows) auto

text \<open>A limit of zero is no limit.\<close>

lemma select_no_limit:
  assumes "filter_where w rows = Ok rs"
  shows "execute_select rows ''*'' [] 0 w = Ok rs"
  using assms by (simp add: execute_select_def parse_columns_def)

lemma insert_by_set: "set (insert_by lt x ys) = insert x (set ys)"
  by (induction ys) auto

text \<open>Sorting by a column that every row has gives the rows in the order of that column.\<close>

lemma insert_by_sorted:
  assumes "sorted_wrt (\<lambda>a b. \<not> column_less c b a) ys" "\<forall>r \<in> insert x (set ys). r c \<noteq> None"
  shows "sorted_wrt (\<lambda>a b. \<not> column_less c b a) (insert_by (column_less c) x ys)"
  using assms
proof (induction ys)
  case (Cons y ys)
  then show ?case by (auto simp: insert_by_set column_less_def split: option.splits)
qed simp

section \<open>Properties\<close>

text \<open>
  C33. What a condition means. Conditions without blanks, joined by \<open>OR\<close> and \<open>AND\<close>, are read as a
  conjunction of disjunctions: \<open>OR\<close> binds more tightly than \<open>AND\<close>, on any number of clauses, and the
  evaluation of such a text always returns.
\<close>

theorem where_conjunctive:
  assumes "css \<noteq> []" "\<forall>cs \<in> set css. cs \<noteq> [] \<and> list_all atom cs"
  shows "evaluate_where (join '' AND '' (map (join '' OR '') css)) row =
    Ok (\<forall>cs \<in> set css. \<exists>a \<in> set cs. atom_holds row a)"
  using assms
proof (induction css rule: induct_list012)
  case (2 cs)
  then show ?case using eval_clause [of cs row] by simp
next
  case (3 cs ds css)
  let ?c = "join '' OR '' cs" and ?rest = "join '' AND '' (map (join '' OR '') (ds # css))"
  have cs: "cs \<noteq> []" "list_all atom cs" using 3(4) by auto
  have "evaluate_where (?c @ '' AND '' @ ?rest) row =
      (case evaluate_where ?c row of Ok b \<Rightarrow> if b then evaluate_where ?rest row else Ok False | e \<Rightarrow> e)"
    by (rule eval_and) (use find_and_clause [OF cs, of ?rest] in \<open>simp_all only: drop_and, simp\<close>)
  with eval_clause [OF cs, of row] 3(2,4) show ?case by simp
qed simp

theorem where_conjunctive_witness:
  "evaluate_where ''x=1 OR y=1 AND z=1'' [''x'' \<mapsto> ''1'', ''z'' \<mapsto> ''2''] = Ok False"
  using where_conjunctive [of "[[''x=1'', ''y=1''], [''z=1'']]" "[''x'' \<mapsto> ''1'', ''z'' \<mapsto> ''2'']"]
  by (simp add: atom_def atom_holds_def trim_def is_space_def)

end
