(* ===== verification/Declared_Api.thy ===== *)
theory Declared_Api
  imports Sql_Executor
begin

text \<open>
  Two headers declare classes most of whose methods no source file defines:
  \<open>include/dbx4/query_executor.h\<close> (the public query executor with its log, cache and index) and
  \<open>include/dbx4/sql_engine.h\<close> (an SQL engine over rows of text). Here are the data they declare, with
  the initial values, and the members that the headers define inline. A member that no
  initializer sets is an argument. The declared methods have no definition to model.

  A \<open>std::map\<close> is a key-sorted association list; \<open>int\<close> and \<open>long long\<close> are integers.
\<close>

section \<open>The query executor header\<close>

datatype op_type = OP_INSERT | OP_UPDATE | OP_DELETE | OP_COMMIT | OP_ROLLBACK

record log_entry =
  le_timestamp :: int
  le_tx_id :: int
  le_op :: op_type
  le_table_name :: string
  le_row_data :: "(string, string) omap"
  le_committed :: bool

definition log_entry_default :: log_entry where
  "log_entry_default = \<lparr>le_timestamp = 0, le_tx_id = 0, le_op = OP_INSERT, le_table_name = [],
     le_row_data = [], le_committed = False\<rparr>"

definition log_entry_new :: "int \<Rightarrow> int \<Rightarrow> op_type \<Rightarrow> string \<Rightarrow> (string, string) omap \<Rightarrow> log_entry" where
  "log_entry_new ts tx oper table d = \<lparr>le_timestamp = ts, le_tx_id = tx, le_op = oper,
     le_table_name = table, le_row_data = d, le_committed = False\<rparr>"

datatype value_type = NULL_T | INT_T | DOUBLE_T | TEXT_T

record 'd api_value =
  va_type :: value_type
  va_int_val :: int
  va_double_val :: 'd
  va_text_val :: string

text \<open>\<open>zero\<close> is the double \<open>0.0\<close>.\<close>

definition value_null :: "'d \<Rightarrow> 'd api_value" where
  "value_null zero = \<lparr>va_type = NULL_T, va_int_val = 0, va_double_val = zero, va_text_val = []\<rparr>"

definition value_int :: "'d \<Rightarrow> int \<Rightarrow> 'd api_value" where
  "value_int zero i = \<lparr>va_type = INT_T, va_int_val = i, va_double_val = zero, va_text_val = []\<rparr>"

definition value_double :: "'d \<Rightarrow> 'd api_value" where
  "value_double d = \<lparr>va_type = DOUBLE_T, va_int_val = 0, va_double_val = d, va_text_val = []\<rparr>"

definition value_text :: "'d \<Rightarrow> string \<Rightarrow> 'd api_value" where
  "value_text zero s = \<lparr>va_type = TEXT_T, va_int_val = 0, va_double_val = zero, va_text_val = s\<rparr>"

record row_history_entry =
  vr_data :: "(string, string) omap"
  vr_version_id :: int
  vr_created_at :: int
  vr_deleted_at :: int

definition is_deleted :: "row_history_entry \<Rightarrow> bool" where
  "is_deleted r \<longleftrightarrow> vr_deleted_at r \<ge> 0"

datatype transaction_state = TX_ACTIVE | TX_COMMITTED | TX_ABORTED

record transaction_context =
  tc_tx_id :: int
  tc_start_time :: int
  tc_read_set :: "string list"
  tc_write_set :: "(string, (string, string) omap) omap"
  tc_state :: transaction_state

definition transaction_context_new :: "int \<Rightarrow> int \<Rightarrow> transaction_context" where
  "transaction_context_new tx time = \<lparr>tc_tx_id = tx, tc_start_time = time, tc_read_set = [],
     tc_write_set = [], tc_state = TX_ACTIVE\<rparr>"

definition transaction_context_default :: transaction_context where
  "transaction_context_default = transaction_context_new 0 0"

record index_entry =
  ie_key :: string
  ie_row_keys :: "string list"

definition index_entry_new :: "string \<Rightarrow> index_entry" where
  "index_entry_new k = \<lparr>ie_key = k, ie_row_keys = []\<rparr>"

type_synonym key_index = "(string, string list) omap"

record text_cache =
  rc_cache :: "(string, (string, string) omap) omap"
  rc_lru_order :: "string list"
  rc_max_size :: u64
  rc_current_size :: u64

definition text_cache_new :: "u64 \<Rightarrow> text_cache" where
  "text_cache_new max_size = \<lparr>rc_cache = [], rc_lru_order = [], rc_max_size = max_size, rc_current_size = 0\<rparr>"

definition text_cache_get_size :: "text_cache \<Rightarrow> u64" where
  "text_cache_get_size c = rc_current_size c"

record history_table =
  ht_name :: string
  ht_columns :: "string list"
  ht_version_history :: "(string, row_history_entry list) omap"
  ht_primary_index :: key_index
  ht_row_cache :: text_cache

record log_manager =
  lm_log_directory :: string
  lm_pending_writes :: "(string, log_entry list) omap"
  lm_committed_transactions :: "int set"

definition log_manager_new :: "string \<Rightarrow> log_manager" where
  "log_manager_new log_dir = \<lparr>lm_log_directory = log_dir, lm_pending_writes = [],
     lm_committed_transactions = {}\<rparr>"

text \<open>
  The recovery manager holds a reference to the log manager beside it and nothing else, so it is not a
  field of its own. \<open>recover_from_wal\<close>, which the constructor calls, has the definition of
  \<open>src/query_executor_public_api.cpp\<close>: it reads the log and prints, and leaves the members alone.
\<close>

record executor =
  ex_tables :: "(string, history_table) omap"
  ex_active_transactions :: "(int, transaction_context) omap"
  ex_committed_tx_ids :: "int set"
  ex_transaction_counter :: int
  ex_clock :: int
  ex_wal_manager :: log_manager
  ex_total_memory_bytes :: int

definition executor_new :: "string \<Rightarrow> executor" where
  "executor_new log_dir = \<lparr>ex_tables = [], ex_active_transactions = [], ex_committed_tx_ids = {},
     ex_transaction_counter = 0, ex_clock = 0, ex_wal_manager = log_manager_new log_dir,
     ex_total_memory_bytes = 0\<rparr>"

definition get_memory_usage :: "executor \<Rightarrow> int" where
  "get_memory_usage x = ex_total_memory_bytes x"

text \<open>\<open>++clock\<close> on a \<open>long long\<close> is undefined at its greatest value.\<close>

definition get_timestamp :: "executor \<Rightarrow> (int \<times> executor) outcome" where
  "get_timestamp x =
     (if ex_clock x + 1 < 2 ^ 63 then Ok (ex_clock x + 1, x\<lparr>ex_clock := ex_clock x + 1\<rparr>) else Undefined)"

section \<open>The SQL engine header\<close>

record text_row =
  tr_fields :: "(string, string) omap"
  tr_row_id :: u64
  tr_data :: bytes

definition text_row_default :: text_row where
  "text_row_default = \<lparr>tr_fields = [], tr_row_id = 0, tr_data = []\<rparr>"

record text_column =
  cn_name :: string
  cn_type :: string
  cn_nullable :: bool
  cn_default_value :: string

definition text_column_default :: text_column where
  "text_column_default = \<lparr>cn_name = [], cn_type = [], cn_nullable = True, cn_default_value = []\<rparr>"

datatype comparison_op =
    EQUAL | NOT_EQUAL | LESS_THAN | LESS_EQUAL | GREATER_THAN | GREATER_EQUAL | IN_LIST | NOT_IN
  | LIKE | NOT_LIKE | IS_NULL | IS_NOT_NULL | BETWEEN

datatype logical_op = L_AND | L_OR | L_NOT

datatype order_direction = ASC | DESC

datatype join_type = INNER | LEFT | RIGHT

text \<open>The shared pointers of a condition are options: a null pointer is \<open>None\<close>.\<close>

datatype condition =
  Condition (cd_column: string) (cd_op: comparison_op) (cd_value: string) (cd_values: "string list")
    (cd_logical_op: logical_op) (cd_left: "condition option") (cd_right: "condition option")

definition condition_default :: "comparison_op \<Rightarrow> condition" where
  "condition_default junk = Condition [] junk [] [] L_AND None None"

record order_by_clause =
  ob_column :: string
  ob_direction :: order_direction

definition order_by_default :: order_by_clause where
  "order_by_default = \<lparr>ob_column = [], ob_direction = ASC\<rparr>"

record aggregation_func =
  ag_type :: string
  ag_column :: string

record select_query =
  sq_select_columns :: "string list"
  sq_column_aliases :: "string list"
  sq_from_table :: string
  sq_where_clause :: "condition option"
  sq_group_by_columns :: "string list"
  sq_having_clause :: "condition option"
  sq_order_by :: "order_by_clause list"
  sq_limit :: int
  sq_offset :: int
  sq_distinct :: bool

definition select_query_default :: select_query where
  "select_query_default = \<lparr>sq_select_columns = [], sq_column_aliases = [], sq_from_table = [],
     sq_where_clause = None, sq_group_by_columns = [], sq_having_clause = None, sq_order_by = [],
     sq_limit = -1, sq_offset = 0, sq_distinct = False\<rparr>"

section \<open>The logical clock\<close>

text \<open>\<open>n\<close> calls of \<open>get_timestamp\<close>.\<close>

fun timestamps :: "nat \<Rightarrow> executor \<Rightarrow> int list outcome" where
  "timestamps 0 x = Ok []"
| "timestamps (Suc n) x =
     (case get_timestamp x of
        Ok (t, x') \<Rightarrow> (case timestamps n x' of Ok ts \<Rightarrow> Ok (t # ts) | r \<Rightarrow> r)
      | Throw m \<Rightarrow> Throw m
      | Undefined \<Rightarrow> Undefined)"

text \<open>
  A new executor hands out 1, 2, 3 and so on, for as many calls as a \<open>long long\<close> can count, so
  timestamps are distinct and increasing, and positive: a row whose \<open>deleted_at\<close> was set to one counts
  as deleted.
\<close>

lemma timestamps_from:
  "ex_clock x + int n < 2 ^ 63 \<Longrightarrow> timestamps n x = Ok (map (\<lambda>i. ex_clock x + 1 + int i) [0..<n])"
proof (induction n arbitrary: x)
  case (Suc n)
  let ?x = "x\<lparr>ex_clock := ex_clock x + 1\<rparr>"
  have "timestamps n ?x = Ok (map (\<lambda>i. ex_clock ?x + 1 + int i) [0..<n])" using Suc by simp
  moreover have "get_timestamp x = Ok (ex_clock x + 1, ?x)" using Suc.prems by (simp add: get_timestamp_def)
  ultimately show ?case by (simp add: map_Suc_upt [symmetric] upt_conv_Cons comp_def del: upt_Suc)
qed simp

lemma timestamps_new:
  assumes "n < 2 ^ 63"
  shows "\<exists>ts. timestamps n (executor_new dir) = Ok ts \<and> sorted_wrt (<) ts \<and>
    (\<forall>t \<in> set ts. \<forall>r. is_deleted (r\<lparr>vr_deleted_at := t\<rparr>))"
proof -
  have "int n < 2 ^ 63" using assms by (metis of_nat_less_iff of_nat_numeral of_nat_power)
  then have "timestamps n (executor_new dir) = Ok (map (\<lambda>i. 1 + int i) [0..<n])"
    using timestamps_from [of "executor_new dir" n] by (simp add: executor_new_def)
  then show ?thesis by (auto simp: sorted_wrt_map is_deleted_def)
qed

end
