(* ===== verification/Support_Services.thy ===== *)
theory Support_Services
  imports Sql_Lexer Sql_Executor
begin

text \<open>
  The small services around the engine: text helpers (\<open>src/sql_parser_enhanced.cpp\<close>), the
  in-memory log (\<open>src/durable_log_system.cpp\<close>), the agent stub (\<open>src/agent_integration.cpp\<close>),
  the page of \<open>src/storage_engine_test_fixed.cpp\<close>, monitoring (\<open>include/dbx4/monitoring.h\<close>),
  logging (\<open>include/dbx4_logger.h\<close>) and the two placeholders that stand where SQL text would be
  executed: \<open>parseSQL\<close> (\<open>src/sql_parser.cpp\<close>) and the public \<open>execute\<close>
  (\<open>src/query_executor_public_api.cpp\<close>).
\<close>

section \<open>Text helpers (EnhancedSQLParser)\<close>

text \<open>
  \<open>trim_back\<close> is the \<open>do\<close> loop that moves the end iterator back; on the empty string its first
  decrement leaves the string, which is undefined.
\<close>

fun trim_back :: "string \<Rightarrow> nat \<Rightarrow> nat \<Rightarrow> nat" where
  "trim_back s start 0 = 0"
| "trim_back s start (Suc e) = (if start < Suc e \<and> is_space (s ! Suc e) then trim_back s start e else Suc e)"

definition enhanced_trim :: "string \<Rightarrow> string outcome" where
  "enhanced_trim s =
     (let start = length (takeWhile is_space s) in
      if s = [] then Undefined
      else let e = trim_back s start (length s - 1) in Ok (take (e + 1 - start) (drop start s)))"

definition enhanced_to_upper :: "string \<Rightarrow> string" where
  "enhanced_to_upper s = map toupper s"

lemma trim_back_spec:
  assumes "start \<le> e" and "e < length s" and "\<not> is_space (s ! start)"
  shows "trim_back s start e + 1 - start = length (dropWhile is_space (rev (take (e + 1 - start) (drop start s))))"
  using assms
proof (induction e)
  case 0
  then show ?case by (cases s) simp_all
next
  case (Suc e)
  have sn: "take (Suc (Suc e) - start) (drop start s) = take (Suc e - start) (drop start s) @ [s ! Suc e]"
    using Suc.prems by (simp add: Suc_diff_le take_Suc_conv_app_nth)
  show ?case
  proof (cases "is_space (s ! Suc e)")
    case True
    with Suc.prems have "start \<noteq> Suc e" by auto
    with Suc.prems have "start \<le> e" by simp
    with True Suc sn show ?thesis by (simp add: less_Suc_eq_le)
  next
    case False
    with Suc.prems sn show ?thesis by simp
  qed
qed

lemma dropWhile_take: "dropWhile P s = drop (length (takeWhile P s)) s"
  by (induction s) auto

lemma rev_dropWhile_take: "rev (dropWhile P (rev t)) = take (length (dropWhile P (rev t))) t"
  by (metis append_eq_conv_conj length_rev rev_append rev_rev_ident takeWhile_dropWhile_id)

text \<open>On every non-empty string this trims like the function of \<open>sql_executor_enhanced.cpp\<close>.\<close>

lemma enhanced_trim_trim: "enhanced_trim s = (if s = [] then Undefined else Ok (trim s))"
proof (cases "list_all is_space s")
  case True
  then have tw: "takeWhile is_space s = s" and dw: "dropWhile is_space s = []" by (simp_all add: list_all_iff)
  show ?thesis unfolding enhanced_trim_def Let_def trim_def tw dw by simp
next
  case False
  let ?start = "length (takeWhile is_space s)"
  have len: "?start < length s"
    using False by (metis length_takeWhile_le le_neq_implies_less list_all_iff takeWhile_eq_all_conv takeWhile_eq_take take_all_iff order_refl)
  then have "\<not> is_space (s ! ?start)" by (rule nth_length_takeWhile)
  moreover have "?start \<le> length s - 1" "length s - 1 < length s" using len by auto
  ultimately have "trim_back s ?start (length s - 1) + 1 - ?start =
      length (dropWhile is_space (rev (drop ?start s)))"
    using trim_back_spec [of ?start "length s - 1" s] len by simp
  moreover have "s \<noteq> []" using len by auto
  ultimately show ?thesis
    unfolding enhanced_trim_def Let_def trim_def rev_dropWhile_take
    by (simp only: dropWhile_take [of is_space s, symmetric] if_False)
qed

section \<open>The in-memory log (DurableLog)\<close>

record durable_log =
  dl_log_path :: string
  dl_entries :: "string list"

definition durable_log_new :: "string \<Rightarrow> durable_log" where
  "durable_log_new path = \<lparr>dl_log_path = path, dl_entries = []\<rparr>"

definition dl_write :: "string \<Rightarrow> durable_log \<Rightarrow> bool \<times> durable_log" where
  "dl_write entry d = (if entry = [] then (False, d) else (True, d\<lparr>dl_entries := dl_entries d @ [entry]\<rparr>))"

definition dl_read :: "durable_log \<Rightarrow> string list" where
  "dl_read d = dl_entries d"

definition dl_verify :: "durable_log \<Rightarrow> bool" where
  "dl_verify d = True"

definition dl_clear :: "durable_log \<Rightarrow> durable_log" where
  "dl_clear d = d\<lparr>dl_entries := []\<rparr>"

lemma dl_write_read: "dl_read (snd (dl_write e d)) = dl_read d @ (if e = [] then [] else [e])"
  by (simp add: dl_read_def dl_write_def)

lemma dl_clear_read: "dl_read (dl_clear d) = []"
  by (simp add: dl_read_def dl_clear_def)

section \<open>The agent stub (AgentIntegration)\<close>

record 'f match_result =
  mr_confidence :: 'f
  mr_match_id :: string

text \<open>\<open>minus_one\<close> is the float \<open>-1.0f\<close>.\<close>

definition find_best_match :: "'f \<Rightarrow> string \<Rightarrow> 'f match_result" where
  "find_best_match minus_one query = \<lparr>mr_confidence = minus_one, mr_match_id = []\<rparr>"

section \<open>A page without slots (storage_engine_test_fixed.cpp)\<close>

record bare_page =
  bp_data :: bytes
  bp_slot_count :: u16
  bp_free_offset :: u16

definition bare_page_new :: "bytes \<Rightarrow> bare_page" where
  "bare_page_new memory = \<lparr>bp_data = memory, bp_slot_count = 0, bp_free_offset = 512\<rparr>"

text \<open>The caller's pointer leads to \<open>row\<close>, which has at least \<open>row_len\<close> bytes.\<close>

definition bare_insert_row :: "bytes \<Rightarrow> u16 \<Rightarrow> bare_page \<Rightarrow> bool \<times> bare_page" where
  "bare_insert_row row row_len p =
     (if row_len = 0 then (False, p)
      else if 8192 - 512 < unat row_len then (False, p)
      else if 8192 < unat (bp_free_offset p) + unat row_len then (False, p)
      else (True, \<lparr>bp_data = mem_write (unat (bp_free_offset p)) (take (unat row_len) row) (bp_data p),
                   bp_slot_count = bp_slot_count p + 1,
                   bp_free_offset = bp_free_offset p + row_len\<rparr>))"

text \<open>The rows lie one behind the other from offset 512; their boundaries are not recorded.\<close>

definition bare_ok :: "bytes list \<Rightarrow> bare_page \<Rightarrow> bool" where
  "bare_ok rows p \<longleftrightarrow> length (bp_data p) = 8192 \<and> unat (bp_free_offset p) = 512 + length (concat rows) \<and>
     unat (bp_free_offset p) \<le> 8192 \<and> bp_slot_count p = word_of_nat (length rows) \<and>
     mem_read 512 (length (concat rows)) (bp_data p) = concat rows"

lemma bare_insert_ok:
  assumes "bare_ok rows p" and "length row < 65536" and "bare_insert_row row (word_of_nat (length row)) p = (b, p')"
  shows "bare_ok (if b then rows @ [row] else rows) p' \<and>
    (b \<longleftrightarrow> row \<noteq> [] \<and> 512 + length (concat rows) + length row \<le> 8192) \<and> (\<not> b \<longrightarrow> p' = p)"
proof -
  have len: "unat (word_of_nat (length row) :: u16) = length row" using assms(2) by (simp add: unat_of_nat)
  then have zero: "(word_of_nat (length row) :: u16) = 0 \<longleftrightarrow> row = []"
    by (metis length_0_conv unat_eq_zero)
  have off: "unat (bp_free_offset p) = 512 + length (concat rows)" using assms(1) by (simp add: bare_ok_def)
  have b: "b \<longleftrightarrow> row \<noteq> [] \<and> 512 + length (concat rows) + length row \<le> 8192"
    using assms(3) by (auto simp: bare_insert_row_def len zero off split: if_splits)
  show ?thesis
  proof (cases b)
    case False
    with assms(1,3) b show ?thesis by (auto simp: bare_insert_row_def split: if_splits)
  next
    case True
    with assms(3) have p': "p' = \<lparr>bp_data = mem_write (unat (bp_free_offset p)) row (bp_data p),
        bp_slot_count = bp_slot_count p + 1, bp_free_offset = bp_free_offset p + word_of_nat (length row)\<rparr>"
      by (auto simp: bare_insert_row_def len split: if_splits)
    have fits: "512 + length (concat rows) + length row \<le> 8192" using b True by simp
    have "mem_read 512 (length (concat rows) + length row) (bp_data p') = concat rows @ row"
      using assms(1) fits by (simp add: p' off mem_read_def mem_write_def bare_ok_def drop_take take_add)
    moreover have "unat (bp_free_offset p + word_of_nat (length row)) = 512 + length (concat rows) + length row"
      using fits by (subst unat_add_u16) (simp_all add: off len)
    ultimately show ?thesis using assms(1) True b fits by (simp add: bare_ok_def p' off)
  qed
qed

section \<open>Monitoring (OperationalMonitoring)\<close>

record 'd metric_snapshot =
  ms_timestamp :: int
  ms_insert_rate :: 'd
  ms_select_rate :: 'd
  ms_update_rate :: 'd
  ms_delete_rate :: 'd
  ms_active_transactions :: int
  ms_memory_used_mb :: int
  ms_p99_latency_ms :: 'd
  ms_errors_count :: int

record 'd monitoring =
  mo_snapshots :: "'d metric_snapshot list"
  mo_start_time :: int

definition monitoring_new :: "int \<Rightarrow> 'd monitoring" where
  "monitoring_new now = \<lparr>mo_snapshots = [], mo_start_time = now\<rparr>"

definition record_snapshot :: "'d metric_snapshot \<Rightarrow> 'd monitoring \<Rightarrow> 'd monitoring" where
  "record_snapshot s mo = mo\<lparr>mo_snapshots := mo_snapshots mo @ [s]\<rparr>"

text \<open>\<open>slow\<close> is the comparison of a double with 100.\<close>

definition check_health :: "('d \<Rightarrow> bool) \<Rightarrow> 'd monitoring \<Rightarrow> bool" where
  "check_health slow mo =
     (if mo_snapshots mo = [] then True
      else let latest = last (mo_snapshots mo);
               h0 = True;
               h1 = (if slow (ms_p99_latency_ms latest) then False else h0);
               h2 = (if 100 < ms_errors_count latest then False else h1);
               h3 = (if 10000 < ms_memory_used_mb latest then False else h2)
           in h3)"

lemma check_health_latest:
  "check_health slow (record_snapshot s mo) \<longleftrightarrow>
     \<not> slow (ms_p99_latency_ms s) \<and> ms_errors_count s \<le> 100 \<and> ms_memory_used_mb s \<le> 10000"
  by (auto simp: check_health_def record_snapshot_def Let_def)

section \<open>Logging (Logger)\<close>

datatype log_level = DEBUG | INFO | WARN | ERROR | CRITICAL

fun level_num :: "log_level \<Rightarrow> nat" where
  "level_num DEBUG = 0"
| "level_num INFO = 1"
| "level_num WARN = 2"
| "level_num ERROR = 3"
| "level_num CRITICAL = 4"

instantiation log_level :: linorder
begin

definition less_eq_log_level :: "log_level \<Rightarrow> log_level \<Rightarrow> bool" where
  "less_eq_log_level a b \<longleftrightarrow> level_num a \<le> level_num b"

definition less_log_level :: "log_level \<Rightarrow> log_level \<Rightarrow> bool" where
  "less_log_level a b \<longleftrightarrow> level_num a < level_num b"

instance
proof
  fix a b c :: log_level
  show "a < b \<longleftrightarrow> a \<le> b \<and> \<not> b \<le> a" by (auto simp: less_eq_log_level_def less_log_level_def)
  show "a \<le> a" by (simp add: less_eq_log_level_def)
  show "a \<le> b \<Longrightarrow> b \<le> c \<Longrightarrow> a \<le> c" by (simp add: less_eq_log_level_def)
  show "a \<le> b \<Longrightarrow> b \<le> a \<Longrightarrow> a = b" by (cases a; cases b) (simp_all add: less_eq_log_level_def)
  show "a \<le> b \<or> b \<le> a" by (auto simp: less_eq_log_level_def)
qed

end

fun level_str :: "log_level \<Rightarrow> string" where
  "level_str DEBUG = ''DEBUG''"
| "level_str INFO = ''INFO''"
| "level_str WARN = ''WARN''"
| "level_str ERROR = ''ERROR''"
| "level_str CRITICAL = ''CRITICAL''"

text \<open>The log file as the list of its lines; \<open>None\<close> when it could not be opened.\<close>

record logger =
  lg_log_file :: "string list option"
  lg_min_level :: log_level

definition logger_new :: "string list option \<Rightarrow> logger" where
  "logger_new file = \<lparr>lg_log_file = file, lg_min_level = INFO\<rparr>"

definition set_level :: "log_level \<Rightarrow> logger \<Rightarrow> logger" where
  "set_level level g = g\<lparr>lg_min_level := level\<rparr>"

definition log_message :: "string \<Rightarrow> log_level \<Rightarrow> string \<Rightarrow> string \<Rightarrow> logger \<Rightarrow> logger" where
  "log_message timestamp level source message g =
     (if level < lg_min_level g then g
      else let line = ''['' @ timestamp @ ''] ['' @ level_str level @ ''] ['' @ source @ ''] '' @ message
           in g\<lparr>lg_log_file := map_option (\<lambda>ls. ls @ [line]) (lg_log_file g)\<rparr>)"

text \<open>A message is written iff the file is open and its level is at least the threshold.\<close>

lemma log_message_filter:
  "lg_log_file (log_message ts level src msg (set_level threshold g)) =
     (if threshold \<le> level
      then map_option (\<lambda>ls. ls @ [''['' @ ts @ ''] ['' @ level_str level @ ''] ['' @ src @ ''] '' @ msg]) (lg_log_file g)
      else lg_log_file g)"
  by (auto simp: log_message_def set_level_def not_less Let_def)

section \<open>Executing SQL text\<close>

text \<open>The state of the declared class \<open>SQLParser\<close>; none of its methods is defined.\<close>

record sql_parser =
  pa_tokens :: "token list"
  pa_pos :: nat

definition sql_parser_new :: "token list \<Rightarrow> sql_parser" where
  "sql_parser_new tokens = \<lparr>pa_tokens = tokens, pa_pos = 0\<rparr>"

definition parseSQL :: "string \<Rightarrow> select_statement" where
  "parseSQL sql = \<lparr>ss_distinct = False, ss_columns = [], ss_table_name = [], ss_where_clause = None,
     ss_order_by = [], ss_limit = -1, ss_offset = 0\<rparr>"

definition api_execute :: "string \<Rightarrow> qerr + (string \<rightharpoonup> string) list" where
  "api_execute sql =
     (if sql = [] then Inl (StdException ''SQL query cannot be empty'')
      else Inr [[''status'' \<mapsto> ''success'']])"

text \<open>Every non-empty text is reported as executed.\<close>

lemma api_execute_always_succeeds: "sql \<noteq> [] \<Longrightarrow> api_execute sql = Inr [[''status'' \<mapsto> ''success'']]"
  by (simp add: api_execute_def)

end
