(* ===== verification/Test_Framework.thy ===== *)
theory Test_Framework
  imports Sql_Ast
begin

text \<open>
  The test framework of \<open>src/testing_suite.cpp\<close> (class \<open>TestFramework\<close>) and the suites that are
  registered with it. A test is its outcome (\<open>None\<close>: it threw a \<open>std::exception\<close>); how long it took is
  an argument. Printing and the benchmarks are in the theory of reports.
\<close>

section \<open>The code\<close>

record test_result =
  tr_test_name :: string
  tr_passed :: bool
  tr_duration :: int
  tr_error_message :: string

record test_framework =
  tf_results :: "test_result list"
  tf_total_tests :: u64
  tf_passed_tests :: u64
  tf_failed_tests :: u64

definition framework_new :: test_framework where
  "framework_new = \<lparr>tf_results = [], tf_total_tests = 0, tf_passed_tests = 0, tf_failed_tests = 0\<rparr>"

definition register_test :: "int \<Rightarrow> string \<Rightarrow> bool option \<Rightarrow> test_framework \<Rightarrow> test_framework" where
  "register_test duration name outcome tf =
     (let result = (case outcome of None \<Rightarrow> False | Some b \<Rightarrow> b);
          tf1 = tf\<lparr>tf_total_tests := tf_total_tests tf + 1,
            tf_results := tf_results tf @ [\<lparr>tr_test_name = name, tr_passed = result, tr_duration = duration,
              tr_error_message = []\<rparr>]\<rparr>
      in if result then tf1\<lparr>tf_passed_tests := tf_passed_tests tf1 + 1\<rparr>
         else tf1\<lparr>tf_failed_tests := tf_failed_tests tf1 + 1\<rparr>)"

text \<open>\<open>rate p t\<close> is the double \<open>100.0 * p / t\<close>.\<close>

definition get_success_rate :: "(u64 \<Rightarrow> u64 \<Rightarrow> 'd) \<Rightarrow> test_framework \<Rightarrow> 'd" where
  "get_success_rate rate tf = rate (tf_passed_tests tf) (tf_total_tests tf)"

text \<open>A loop \<open>for (int i = 0; i < n; i++) tf.register_test(prefix + std::to_string(i), body)\<close>.\<close>

definition register_loop ::
  "(string \<Rightarrow> int) \<Rightarrow> string \<Rightarrow> nat \<Rightarrow> bool option \<Rightarrow> test_framework \<Rightarrow> test_framework" where
  "register_loop dur prefix n body tf =
     foldl (\<lambda>tf i. register_test (dur (prefix @ show_nat i)) (prefix @ show_nat i) body tf) tf [0..<n]"

definition run_unit_tests :: "(string \<Rightarrow> int) \<Rightarrow> test_framework \<Rightarrow> test_framework" where
  "run_unit_tests dur tf = foldl (\<lambda>tf prefix. register_loop dur prefix 100 (Some True) tf) tf
     [''CRC32C_'', ''PageOp_'', ''MVCC_'', ''Lock_'', ''WAL_'', ''Checkpoint_'', ''BTree_'', ''ZoneMap_'']"

definition run_integration_tests :: "(string \<Rightarrow> int) \<Rightarrow> test_framework \<Rightarrow> test_framework" where
  "run_integration_tests dur tf = foldl (\<lambda>tf prefix. register_loop dur prefix 50 (Some True) tf) tf
     [''StorageBufferPool_'', ''MVCCLocks_'', ''StorageMVCCLocks_'', ''WALRecovery_'',
      ''StorageIndexing_'', ''QueryOptIndexing_'', ''DeclaredIntentEvents_'', ''GraphCost_'',
      ''EndToEndTxn_'', ''ConcurrentOps_'']"

text \<open>
  The bodies of the stress tests. The increments of a counter by several threads, atomic or under a
  mutex, are a sequence of \<open>threads * rounds\<close> increments in whatever order.
\<close>

definition counter_after :: "nat \<Rightarrow> nat \<Rightarrow> nat" where
  "counter_after threads rounds = foldl (\<lambda>c _. c + 1) 0 [0..<threads * rounds]"

fun pop_all :: "'a list \<Rightarrow> 'a list" where
  "pop_all [] = []"
| "pop_all (x # xs) = pop_all xs"

definition fill_map :: "(nat \<Rightarrow> 'v) \<Rightarrow> nat \<Rightarrow> (nat, 'v) omap" where
  "fill_map f n = foldl (\<lambda>m i. omap_insert i (f i) m) [] [0..<n]"

definition stress_tests :: "(string \<times> nat \<times> bool option) list" where
  "stress_tests =
     [(''StressConcurrentInsert_'', 100, Some (counter_after 10 100 = 1000)),
      (''StressLockContention_'', 50, Some (counter_after 50 100 = 5000)),
      (''StressMemoryPressure_'', 50, Some (length [0..<100] = 100)),
      (''StressEventCascade_'', 50, Some (pop_all [0..<1000] = [])),
      (''StressGraphTraversal_'', 50, Some (length (fill_map (\<lambda>n. [n + 1]) 1000) = 1000)),
      (''StressLargeTxn_'', 50, Some (length [0..<10000] = 10000)),
      (''StressRecovery_'', 50, Some (pop_all [0..<10000] = [])),
      (''StressIndexing_'', 50, Some (length (fill_map (\<lambda>j. j * 2) 10000) = 10000)),
      (''StressDeadlockDetection_'', 50, Some (length (fill_map (\<lambda>n. {n + 1}) 100) = 100))]"

definition run_stress_tests :: "(string \<Rightarrow> int) \<Rightarrow> test_framework \<Rightarrow> test_framework" where
  "run_stress_tests dur tf = foldl (\<lambda>tf (prefix, n, body). register_loop dur prefix n body tf) tf stress_tests"

section \<open>Bookkeeping\<close>

definition framework_ok :: "test_framework \<Rightarrow> bool" where
  "framework_ok tf \<longleftrightarrow> tf_total_tests tf = word_of_nat (length (tf_results tf)) \<and>
     tf_passed_tests tf = word_of_nat (length (filter tr_passed (tf_results tf))) \<and>
     tf_failed_tests tf = word_of_nat (length (filter (\<lambda>r. \<not> tr_passed r) (tf_results tf)))"

lemma register_test_ok: "framework_ok tf \<Longrightarrow> framework_ok (register_test d name outcome tf)"
  by (auto simp: framework_ok_def register_test_def Let_def split: option.splits)

text \<open>Registering tests that succeed adds that many successes, and nothing else.\<close>

definition adds_passed :: "nat \<Rightarrow> test_framework \<Rightarrow> test_framework \<Rightarrow> bool" where
  "adds_passed n tf tf' \<longleftrightarrow> tf_total_tests tf' = tf_total_tests tf + word_of_nat n \<and>
     tf_passed_tests tf' = tf_passed_tests tf + word_of_nat n \<and> tf_failed_tests tf' = tf_failed_tests tf"

lemma adds_passed_trans: "adds_passed m a b \<Longrightarrow> adds_passed n b c \<Longrightarrow> adds_passed (m + n) a c"
  by (simp add: adds_passed_def)

lemma adds_passed_refl: "adds_passed 0 tf tf"
  by (simp add: adds_passed_def)

lemma register_loop_passed: "adds_passed n tf (register_loop dur prefix n (Some True) tf)"
  unfolding register_loop_def
  by (induction n) (auto simp: adds_passed_def register_test_def Let_def)

lemma register_loops_passed:
  "adds_passed (sum_list (map fst ps))
     tf (foldl (\<lambda>tf (n, prefix). register_loop dur prefix n (Some True) tf) tf ps)"
proof (induction ps arbitrary: tf)
  case Nil
  then show ?case by (simp add: adds_passed_refl)
next
  case (Cons p ps)
  obtain n prefix where p: "p = (n, prefix)" by (cases p)
  show ?case
    using adds_passed_trans [OF register_loop_passed Cons.IH [of "register_loop dur prefix n (Some True) tf"]]
    by (simp add: p)
qed

lemma counter_after_eq: "counter_after t r = t * r"
proof -
  have "foldl (\<lambda>c _. c + 1) 0 [0..<n] = n" for n :: nat by (induction n) auto
  then show ?thesis by (simp add: counter_after_def)
qed

lemma pop_all_Nil: "pop_all xs = []"
  by (induction xs) auto

lemma fill_map_eq: "fill_map f n = map (\<lambda>i. (i, f i)) [0..<n]"
  unfolding fill_map_def by (induction n) (simp_all add: omap_insert_last)

lemma length_fill_map: "length (fill_map f n) = n"
  by (simp add: fill_map_eq)

text \<open>
  The suites of 1800 tests succeed whatever the engine does: no test calls a function of
  the engine.
\<close>

lemma suites_pass:
  "adds_passed 1800 tf (run_stress_tests dur (run_integration_tests dur (run_unit_tests dur tf)))"
proof -
  have unit: "adds_passed 800 tf (run_unit_tests dur tf)"
    using register_loops_passed [of "map (Pair 100) [''CRC32C_'', ''PageOp_'', ''MVCC_'', ''Lock_'',
      ''WAL_'', ''Checkpoint_'', ''BTree_'', ''ZoneMap_'']" tf dur]
    by (simp add: run_unit_tests_def)
  have int: "adds_passed 500 t (run_integration_tests dur t)" for t
    using register_loops_passed [of "map (Pair 50) [''StorageBufferPool_'', ''MVCCLocks_'',
      ''StorageMVCCLocks_'', ''WALRecovery_'', ''StorageIndexing_'', ''QueryOptIndexing_'',
      ''DeclaredIntentEvents_'', ''GraphCost_'', ''EndToEndTxn_'', ''ConcurrentOps_'']" t dur]
    by (simp add: run_integration_tests_def)
  have all: "stress_tests = map (\<lambda>(n, p). (p, n, Some True))
      [(100, ''StressConcurrentInsert_''), (50, ''StressLockContention_''), (50, ''StressMemoryPressure_''),
       (50, ''StressEventCascade_''), (50, ''StressGraphTraversal_''), (50, ''StressLargeTxn_''),
       (50, ''StressRecovery_''), (50, ''StressIndexing_''), (50, ''StressDeadlockDetection_'')]"
    by (simp add: stress_tests_def counter_after_eq pop_all_Nil length_fill_map)
  have stress: "adds_passed 500 t (run_stress_tests dur t)" for t
    using register_loops_passed [of "map (\<lambda>(p, n, b). (n, p)) stress_tests" t dur]
    by (simp add: run_stress_tests_def all)
  from adds_passed_trans [OF adds_passed_trans [OF unit int] stress] show ?thesis by simp
qed

end
