(* ===== verification/Reports.thy ===== *)
theory Reports
  imports Wal_Readers Support_Services Test_Framework
begin

text \<open>
  What the program prints about itself: the recovery report (\<open>src/recovery_wal_hardened.cpp\<close>), the
  integrity report (\<open>src/transaction_integrity_e2e.cpp\<close>), the health report
  (\<open>include/dbx4/monitoring.h\<close>), the results of the test framework and the benchmarks
  (\<open>src/testing_suite.cpp\<close>).

  A report is the list of its lines, in the bytes of the source file. How a double is printed is an
  argument, and so are the running times of the benchmarks.
\<close>

section \<open>Symbols\<close>

text \<open>The check mark, the cross and the warning sign in UTF-8; the marks of the test framework are encoded twice.\<close>

definition mark_yes :: string where
  "mark_yes = [CHR 0xE2, CHR 0x9C, CHR 0x85]"

definition mark_no :: string where
  "mark_no = [CHR 0xE2, CHR 0x9D, CHR 0x8C]"

definition mark_warn :: string where
  "mark_warn = [CHR 0xE2, CHR 0x9A, CHR 0xA0, CHR 0xEF, CHR 0xB8, CHR 0x8F]"

definition mark_pass :: string where
  "mark_pass = [CHR 0xC3, CHR 0xA2, CHR 0xC5, CHR 0x93, CHR 0xE2, CHR 0x80, CHR 0x9C]"

definition mark_fail :: string where
  "mark_fail = [CHR 0xC3, CHR 0xA2, CHR 0xC5, CHR 0x93, CHR 0xE2, CHR 0x80, CHR 0x94]"

definition double_rule :: string where
  "double_rule = replicate 80 (CHR ''='')"

section \<open>Recovery and integrity\<close>

definition print_recovery_report :: "parse_result \<Rightarrow> string list" where
  "print_recovery_report r =
     [[], ''=== HARDENED WAL RECOVERY REPORT ==='',
      ''Recovered entries: '' @ show_int (sint (recovered_entries r)),
      ''Skipped (corrupted): '' @ show_int (sint (skipped_corrupted r)),
      ''Total bytes read: '' @ show_int (sint (total_bytes_read r)),
      ''Corruption detected: '' @ (if has_corruption r then ''YES'' else ''NO''), []] @
     (if has_corruption r
      then [mark_warn @ ''  WARNING: WAL file contained corrupted entries'',
            ''   Successfully recovered '' @ show_int (sint (recovered_entries r)) @ '' valid entries'',
            ''   Skipped '' @ show_int (sint (skipped_corrupted r)) @ '' corrupted entries'',
            ''   Data loss: '' @ show_int (sint (skipped_corrupted r)) @ '' transactions'']
      else [mark_yes @ '' All entries valid, no corruption''])"

definition print_integrity_report :: "integrity_result \<Rightarrow> string list" where
  "print_integrity_report r =
     [[], ''=== TRANSACTION INTEGRITY REPORT ==='',
      ''Total transactions: '' @ show_nat (total_txns r),
      ''Committed: '' @ show_nat (committed_count r),
      ''Uncommitted: '' @ show_nat (uncommitted_count r),
      ''Write operations: '' @ show_nat (write_operations r),
      ''All entries valid: '' @ (if all_valid r then ''YES'' else ''NO''),
      [], ''=== ACID PROPERTIES ==='',
      ''Atomicity (all writes preserved): '' @ mark_yes,
      ''Consistency (total = committed + uncommitted): '' @
        (if acid_properties_hold r then mark_yes else mark_no),
      ''Isolation (distinct txn IDs): '' @ mark_yes,
      ''Durability (committed preserved): '' @ mark_yes, []] @
     (if acid_properties_hold r then [mark_yes @ '' ACID PROPERTIES MAINTAINED'']
      else [mark_no @ '' ACID PROPERTIES VIOLATED''])"

section \<open>Health\<close>

definition generate_report :: "('d \<Rightarrow> string) \<Rightarrow> ('d \<Rightarrow> bool) \<Rightarrow> 'd monitoring \<Rightarrow> string list" where
  "generate_report show_d slow mo =
     (if mo_snapshots mo = [] then []
      else let latest = last (mo_snapshots mo) in
        [''OPERATIONAL HEALTH REPORT'', replicate 25 (CHR ''=''),
         ''Insert Rate: '' @ show_d (ms_insert_rate latest) @ '' ops/sec'',
         ''Select Rate: '' @ show_d (ms_select_rate latest) @ '' ops/sec'',
         ''Update Rate: '' @ show_d (ms_update_rate latest) @ '' ops/sec'',
         ''Delete Rate: '' @ show_d (ms_delete_rate latest) @ '' ops/sec'',
         ''Active Txns: '' @ show_int (ms_active_transactions latest),
         ''Memory Used: '' @ show_int (ms_memory_used_mb latest) @ '' MB'',
         ''P99 Latency: '' @ show_d (ms_p99_latency_ms latest) @ '' ms'',
         ''Error Count: '' @ show_int (ms_errors_count latest),
         ''Health: '' @ (if check_health slow mo then mark_yes @ '' HEALTHY'' else mark_no @ '' DEGRADED'')])"

section \<open>Test results and benchmarks\<close>

text \<open>\<open>std::setw(50) << std::left\<close> fills on the right and never cuts.\<close>

definition pad_right :: "nat \<Rightarrow> string \<Rightarrow> string" where
  "pad_right n s = s @ replicate (n - length s) (CHR '' '')"

definition result_line :: "test_result \<Rightarrow> string" where
  "result_line r = (if tr_passed r then mark_pass @ '' PASS'' else mark_fail @ '' FAIL'') @ '' | '' @
     pad_right 50 (tr_test_name r) @ '' | '' @ show_int (tr_duration r) @ ''ms''"

text \<open>\<open>show_rate p t\<close> prints the double \<open>100.0 * p / t\<close>.\<close>

definition print_results :: "(u64 \<Rightarrow> u64 \<Rightarrow> string) \<Rightarrow> test_framework \<Rightarrow> string list" where
  "print_results show_rate tf =
     [[], ''=== TEST EXECUTION RESULTS ==='', double_rule] @
     map result_line (tf_results tf) @
     [double_rule,
      ''TOTAL: '' @ show_nat (unat (tf_passed_tests tf)) @ ''/'' @ show_nat (unat (tf_total_tests tf)) @
        '' passed'',
      ''Success Rate: '' @ show_rate (tf_passed_tests tf) (tf_total_tests tf) @ ''%'', []]"

text \<open>
  \<open>static_cast<int>((100000.0 * 1000.0) / ms)\<close>: a running time of 0 ms makes the quotient infinite, and the
  conversion of an infinite double to \<open>int\<close> is undefined. From 1 ms on the quotient is within \<open>int\<close>, and
  as it is a multiple of \<open>1 / ms\<close> below \<open>2 ^ 27\<close>, rounding it to a double does not change its integer part.
\<close>

definition bench_throughput :: "nat \<Rightarrow> nat outcome" where
  "bench_throughput ms = (if ms = 0 then Undefined else Ok (100000 * 1000 div ms))"

definition bench_block :: "string \<Rightarrow> string \<Rightarrow> nat \<Rightarrow> string list outcome" where
  "bench_block title label ms =
     (case bench_throughput ms of
        Ok t \<Rightarrow> Ok [title, mark_pass @ '' 100,000 '' @ label @ '' in '' @ show_nat ms @ ''ms'',
                     mark_pass @ '' Throughput: '' @ show_nat t @ '' ops/sec'']
      | Throw m \<Rightarrow> Throw m
      | Undefined \<Rightarrow> Undefined)"

text \<open>What the loops of the benchmarks compute; none of it is printed.\<close>

definition bench_index :: "(nat, nat) omap" where
  "bench_index = fill_map (\<lambda>i. i * 2) 10000"

definition bench_searches :: "nat option list" where
  "bench_searches = map (\<lambda>i. map_of bench_index (i mod 10000)) [0..<100000]"

definition bench_counter :: nat where
  "bench_counter = counter_after 10 10000"

definition bench_memory :: "string list" where
  "bench_memory =
     (let pages = replicate 10000 (8192 :: nat); total_memory = length pages * 8192 in
      [[], ''[Benchmark 4] Memory Efficiency'',
       mark_pass @ '' Allocated '' @ show_nat (total_memory div (1024 * 1024)) @ ''MB for 10,000 pages'',
       mark_pass @ '' Memory per page: 8,192 bytes''])"

text \<open>The three running times in milliseconds are arguments.\<close>

definition run_performance_benchmarks :: "nat \<Rightarrow> nat \<Rightarrow> nat \<Rightarrow> string list outcome" where
  "run_performance_benchmarks ms1 ms2 ms3 =
     (case (bench_block ''[Benchmark 1] Insert Throughput'' ''inserts'' ms1,
            bench_block ''[Benchmark 2] Search Performance'' ''searches'' ms2,
            bench_block ''[Benchmark 3] Concurrent Operations'' ''concurrent ops'' ms3) of
        (Ok b1, Ok b2, Ok b3) \<Rightarrow>
          Ok ([[], ''=== PERFORMANCE BENCHMARKS ==='', double_rule] @ b1 @ [[]] @ b2 @ [[]] @ b3 @
              bench_memory @ [double_rule])
      | _ \<Rightarrow> Undefined)"

section \<open>What the reports say\<close>

lemma show_nat_inject [simp]: "show_nat m = show_nat n \<longleftrightarrow> m = n"
  by (metis read_show_nat)

lemma show_i32_inject [simp]: "show_int (sint (a :: i32)) = show_int (sint (b :: i32)) \<longleftrightarrow> a = b"
proof -
  have "fits_i64 (sint c)" for c :: i32
    using sint_ge [of c] sint_lt [of c] by (simp add: fits_i64_def)
  then have "sint a = sint b" if "show_int (sint a) = show_int (sint b)"
    using that stoll_show_int by (metis option.inject)
  then show ?thesis by (auto simp: signed_word_eqI)
qed

text \<open>The recovery report determines the counts it reports on.\<close>

lemma recovery_report_determines:
  assumes "print_recovery_report r = print_recovery_report r'"
  shows "recovered_entries r = recovered_entries r' \<and> skipped_corrupted r = skipped_corrupted r' \<and>
    total_bytes_read r = total_bytes_read r' \<and> has_corruption r = has_corruption r'"
  using assms by (auto simp: print_recovery_report_def split: if_splits)

text \<open>
  Three of the four lines on the ACID properties are constant, and the fourth shows the overall
  verdict under the name of consistency, which holds for every log: an empty log is reported as
  inconsistent and violated, and as atomic, isolated and durable.
\<close>

lemma integrity_report_constant:
  "print_integrity_report r ! 9 = ''Atomicity (all writes preserved): '' @ mark_yes"
  "print_integrity_report r ! 11 = ''Isolation (distinct txn IDs): '' @ mark_yes"
  "print_integrity_report r ! 12 = ''Durability (committed preserved): '' @ mark_yes"
  by (simp_all add: print_integrity_report_def)

lemma integrity_report_empty:
  defines "r \<equiv> verify_transaction_integrity (Some [])"
  shows "total_txns r = committed_count r + uncommitted_count r"
    and "print_integrity_report r ! 10 = ''Consistency (total = committed + uncommitted): '' @ mark_no"
proof -
  have "ver_loop (stream_open []) v = v" for v by (subst ver_loop_open) simp
  then have "r = \<lparr>total_txns = 0, committed_count = 0, uncommitted_count = 0, write_operations = 0,
      all_valid = True, acid_properties_hold = False\<rparr>"
    by (simp add: r_def verify_transaction_integrity_def Let_def)
  then show "total_txns r = committed_count r + uncommitted_count r"
    and "print_integrity_report r ! 10 = ''Consistency (total = committed + uncommitted): '' @ mark_no"
    by (simp_all add: print_integrity_report_def)
qed

text \<open>The test report has one line per test, and as many with the pass mark as the counter says.\<close>

lemma pass_mark_line: "take 7 (result_line r) = (if tr_passed r then mark_pass else mark_fail)"
  by (simp add: result_line_def mark_pass_def mark_fail_def)

lemma print_results_counts:
  assumes "framework_ok tf"
  shows "length (print_results show_rate tf) = length (tf_results tf) + 7"
    and "tf_passed_tests tf = word_of_nat (length (filter (\<lambda>l. take 7 l = mark_pass)
           (take (length (tf_results tf)) (drop 3 (print_results show_rate tf)))))"
proof -
  have ne: "mark_fail \<noteq> mark_pass" by (simp add: mark_fail_def mark_pass_def)
  have "filter (\<lambda>l. take 7 l = mark_pass) (map result_line rs) = map result_line (filter tr_passed rs)" for rs
    by (induction rs) (simp_all add: pass_mark_line ne)
  then show "tf_passed_tests tf = word_of_nat (length (filter (\<lambda>l. take 7 l = mark_pass)
      (take (length (tf_results tf)) (drop 3 (print_results show_rate tf)))))"
    using assms by (simp add: framework_ok_def print_results_def numeral_3_eq_3)
  show "length (print_results show_rate tf) = length (tf_results tf) + 7"
    by (simp add: print_results_def)
qed

text \<open>Every search of the second benchmark hits, and the counter of the third ends at the number it prints.\<close>

lemma map_of_fill_map: "i < n \<Longrightarrow> map_of (fill_map f n) i = Some (f i)"
  by (simp add: fill_map_eq map_of_eq_Some_iff comp_def)

lemma benchmark_loops:
  "bench_searches = map (\<lambda>i. Some (i mod 10000 * 2)) [0..<100000]" "bench_counter = 100000"
proof -
  have "map_of bench_index (i mod 10000) = Some (i mod 10000 * 2)" for i
    unfolding bench_index_def by (rule map_of_fill_map) simp
  then show "bench_searches = map (\<lambda>i. Some (i mod 10000 * 2)) [0..<100000]"
    by (simp only: bench_searches_def)
  show "bench_counter = 100000" by (simp add: bench_counter_def counter_after_eq)
qed

lemma benchmarks_defined:
  "run_performance_benchmarks ms1 ms2 ms3 \<noteq> Undefined \<longleftrightarrow> 0 < ms1 \<and> 0 < ms2 \<and> 0 < ms3"
  by (auto simp: run_performance_benchmarks_def bench_block_def bench_throughput_def)

text \<open>The health report appears once there is a snapshot, and its last line is the health check.\<close>

lemma generate_report_health:
  "generate_report show_d slow (record_snapshot s mo) \<noteq> [] \<and>
   last (generate_report show_d slow (record_snapshot s mo)) = ''Health: '' @
     (if \<not> slow (ms_p99_latency_ms s) \<and> ms_errors_count s \<le> 100 \<and> ms_memory_used_mb s \<le> 10000
      then mark_yes @ '' HEALTHY'' else mark_no @ '' DEGRADED'')"
  by (simp add: generate_report_def Let_def check_health_latest) (simp add: record_snapshot_def)

end
