(* ===== verification/Spec2Isabelle.thy ===== *)
theory Spec2Isabelle
  imports Wal_Manager Wal_Readers Wal_Selftests Storage_Page Txn_Manager Txn_Visibility
    Mvcc_Concurrency Graph_Engine Event_Reentry Intent_Table Query_Correct Sql_Grammar Pool_Concurrency
    Row_Codec Row_Cache Btree_Index Sql_Executor Declared_Api Reports
begin

text \<open>
  dbx4 is a small relational database engine in C++ (paths below are under \<open>src/\<close> of the
  repository). Its parts are largely independent of each other: each file carries its own data
  structures, and only a few call one another. This development models every part that has state or
  computes something, function by function, and proves what makes it correct; where the code does
  not do what it means to, a theorem says what it does instead.

  \<^bold>\<open>The parts, and the theories that model them.\<close>

  Write-ahead logs. \<open>src/recovery_wal.cpp\<close> writes records with commit and abort markers and recovers
  in two passes (\<^verbatim>\<open>Wal_Manager\<close>: encoder and decoder, the writers, \<open>recover\<close>, the schema registry).
  A second log format is read by four functions: the hardened parser
  (\<open>src/recovery_wal_hardened.cpp\<close>), \<open>recover_from_wal\<close> of \<open>src/query_executor.cpp\<close> and of
  \<open>src/query_executor_public_api.cpp\<close>, and the integrity verifier
  (\<open>src/transaction_integrity_e2e.cpp\<close>); the robust codec (\<open>src/wal_codec_robust.cpp\<close>) has a format
  of its own (\<^verbatim>\<open>Wal_Readers\<close>; the locale \<open>framed_reader\<close> states what a reader of frames does, and
  the four readers are its interpretations; \<^verbatim>\<open>Wal_Selftests\<close>: the test programs of these files).

  Pages. \<open>src/storage_complete.cpp\<close> has slotted pages in a byte buffer (\<^verbatim>\<open>Storage_Page\<close>);
  \<open>src/storage_engine_production.cpp\<close> has the CRC (\<^verbatim>\<open>Crc32c\<close>), pages of row versions
  (\<^verbatim>\<open>Engine_Page\<close>) and the schema manager, buffer pool and engine on top of them
  (\<^verbatim>\<open>Storage_Engine\<close>); \<^verbatim>\<open>Pool_Concurrency\<close> has the threads that use the pool together, as a step
  relation under the locale \<open>interleaving\<close> of the prelude. Both kinds of page interpret the locale
  \<open>row_page\<close> of \<^verbatim>\<open>Dbx4_Prelude\<close>. \<open>include/dbx4/unified_row.h\<close> is the byte format of rows
  (\<^verbatim>\<open>Row_Codec\<close>, an interpretation of the locale \<open>codec\<close>); \<open>src/query_executor.cpp\<close> caches rows
  (\<^verbatim>\<open>Row_Cache\<close>); \<open>src/indexing.cpp\<close> is the index (\<^verbatim>\<open>Btree_Index\<close>).

  Transactions. \<open>src/transaction_manager.cpp\<close>: transaction-local writes and undo (\<^verbatim>\<open>Txn_Manager\<close>);
  \<open>src/transaction_correctness.cpp\<close> with \<open>include/dbx4/transaction_state.h\<close>: visibility of versions
  (\<^verbatim>\<open>Txn_Visibility\<close>); \<open>src/mvcc_locks.cpp\<close>: snapshots, version chains, row locks and their
  coordinator (\<^verbatim>\<open>Mvcc_Locks\<close>), and threads that use one coordinator together (\<^verbatim>\<open>Mvcc_Concurrency\<close>,
  the second interpretation of \<open>interleaving\<close>, with a trace of what happened).
  Histories of calls are folded with \<open>run_steps\<close> of the prelude, and invariants go through
  the locale \<open>step_invariant\<close>.

  SQL. \<open>src/sql_lexer.cpp\<close> (\<^verbatim>\<open>Sql_Lexer\<close>; \<^verbatim>\<open>Sql_Grammar\<close>: the lexical grammar, as relations on
  text), the syntax trees and exceptions of \<open>include/sql_lexer.h\<close>,
  \<open>include/sql_parser.h\<close> and \<open>include/dbx4_exceptions.h\<close> (\<^verbatim>\<open>Sql_Ast\<close>), and the engine that executes
  the trees, \<open>include/query_executor_engine.h\<close> and \<open>src/query_executor_engine.cpp\<close> (\<^verbatim>\<open>Query_Value\<close>:
  values, expressions, conditions, conversions; \<^verbatim>\<open>Query_Engine\<close>: schema and statements;
  \<^verbatim>\<open>Query_Correct\<close>: what they do). \<open>src/sql_executor_enhanced.cpp\<close> evaluates conditions on text
  (\<^verbatim>\<open>Sql_Executor\<close>).

  Advanced features, \<open>src/advanced_features.cpp\<close>: declared-intent tables (\<^verbatim>\<open>Intent_Table\<close>), the
  event system (\<^verbatim>\<open>Event_System\<close>; \<^verbatim>\<open>Event_Reentry\<close>: handlers that call it back) and
  the graph engine (\<^verbatim>\<open>Graph_Engine\<close>).

  Services: text helpers, in-memory log, agent stub, monitoring, logging, the page of the storage
  test and the placeholders for SQL text (\<^verbatim>\<open>Support_Services\<close>), the test framework of
  \<open>src/testing_suite.cpp\<close> (\<^verbatim>\<open>Test_Framework\<close>), the printed reports and benchmarks (\<^verbatim>\<open>Reports\<close>), and
  the data and inline members of two headers whose methods no file defines (\<^verbatim>\<open>Declared_Api\<close>).

  \<^bold>\<open>How code becomes definitions.\<close> A class is a record, a method a function from the object to its
  result and the new object, an enumeration a datatype. Fixed-width integers are words; \<open>int\<close>
  counters that cannot overflow on inputs of realistic size are naturals (those of the hardened parser,
  which counts bytes, are words). An ordered \<open>std::map\<close> that is iterated is a key-sorted association list, one that is only looked up a HOL map. An exception
  is an error value; the state it leaves behind is part of the result. Undefined behaviour is a
  value of its own (\<open>Dec_UB\<close>, \<open>Read_UB\<close>, \<open>UB\<close>, \<open>Undefined\<close>, or \<open>None\<close>). Methods that run under one
  lock from start to end are single steps, so a concurrent execution of them is a sequence of calls,
  and theorems quantify over all such sequences; the buffer pool, whose methods release and retake
  their lock, and the MVCC coordinator, which has no lock of its own around the managers it calls,
  have the stretches between as steps of threads.

  What is not in the repository or not determined by the code is an argument: the clock, the
  operations on \<open>double\<close> (the record \<open>dops\<close>, with an instance for the witnesses), event handlers,
  memory that the code reads uninitialised or out of bounds. \<open>std::sort\<close> is an insertion sort, undefined
  where the comparison is no strict weak order; the theorems about it hold for any permutation that
  the comparison allows. The iteration order of an \<open>unordered_map\<close> is the order of a list.

  Loops that end are functions with termination proofs. The cycle search of the event system has the
  depth of its recursion as an argument: any number above the number of events plus one is enough,
  and the theorem about it says so. The eviction loop of the buffer pool, which can deadlock,
  returns an option. Recursive graph traversals have an explicit stack and are shown to return on
  every graph.

  \<^bold>\<open>What is shown.\<close> Logs: recovery returns exactly the data of committed transactions, also from a
  log cut at any byte; what it loses when writing goes on behind a torn record; the readers of one
  format agree; the parser is sound on arbitrary bytes. Pages: insertion, reading and the byte image
  refine a list of rows, or of versions; what the checksums miss. Buffer pool: least-recently-used
  eviction within the limit; under any interleaving its books stay right and the lock excludes; a
  call makes boundedly many steps of its own, and the one way in which the pool blocks.
  Transactions: reads see exactly the own last writes; commit and rollback are atomic; uncommitted
  rows are invisible; locks exclude each other and their waiters wait for ever; versions are written
  under the lock of their row when each transaction has one thread, and need not be otherwise. SQL:
  tokens are the reading of the input by the grammar, with its positions, printing and lexing are
  inverse, errors are about the first place that cannot be read;
  the schema and constraint invariants of every reachable database; the effect of each statement,
  failing ones included. Events: delivery in order and exactly once, bounded cascades, the cycle
  search; a cascade raised by a handler locks the system itself. Intents: audit trail and approvals
  record the history. Graphs: traversals find exactly the reachable nodes. The codecs, the cache,
  the index and the CRC have their own theorems. The end of this theory goes from SQL text through
  the lexer to values of the engine.

  \<^bold>\<open>Not modelled.\<close> \<open>include/dbx4/query_executor.h\<close> and \<open>include/dbx4/sql_engine.h\<close> declare methods
  that no file defines, and so does the class \<open>SQLParser\<close> of \<open>include/sql_parser.h\<close>: there is no
  code to model beyond their data, constructors and inline members. Progress messages on the console
  are left out, as are the programs under \<open>tests/\<close>, which call the modelled code on concrete inputs.
  The data race of the buffer pool on its counters and access times under the shared lock, and
  \<open>flush_all\<close> with other callers between its steps (its iterator may then dangle), are undefined in
  C++ and not modelled.
\<close>

section \<open>From SQL text to values\<close>

lemma show_nat_hd_nonzero: "0 < n \<Longrightarrow> hd (show_nat n) \<noteq> CHR ''0''"
proof (induction n rule: show_nat.induct)
  case (1 n)
  show ?case
  proof (cases "n < 10")
    case True
    have "char_of (48 + n) \<noteq> CHR ''0''"
    proof
      assume "char_of (48 + n) = CHR ''0''"
      then have "of_char (char_of (48 + n) :: char) = (of_char (CHR ''0'') :: nat)" by (rule arg_cong)
      with True 1(2) show False by (simp add: digit_char)
    qed
    with True show ?thesis by (simp add: show_nat.simps [of n])
  next
    case False
    with 1 show_nat_digits [of "n div 10"] show ?thesis by (simp add: show_nat.simps [of n])
  qed
qed

lemma number_text_show_nat: "number_text (show_nat n)"
proof -
  have digits: "list_all is_digit (show_nat n)" "show_nat n \<noteq> []" using show_nat_digits by auto
  then have "CHR ''.'' \<notin> set (show_nat n)" by (auto simp: list_all_iff dest: digit_not_dot)
  moreover have "length (show_nat n) = 1 \<or> hd (show_nat n) \<noteq> CHR ''0''"
    using show_nat_hd_nonzero [of n] by (cases "n = 0") (simp_all add: show_nat.simps [of 0])
  ultimately show ?thesis
    using digits show_nat_hd [of n] by (auto simp: number_text_def list_all_iff count_list_0_iff)
qed

text \<open>
  C40. Integers in SQL text. A decimal integer of at most 63 bits is read by the lexer as one number
  token; the conversion of its text to the type \<open>BIGINT\<close> is that integer, and the engine
  prints the integer as that text again.
\<close>

theorem integer_text:
  assumes "n < 2 ^ 63"
  shows "\<exists>t e. tokenize (show_nat n @ '' '') = Inr [t, e] \<and> tk_type t = T_NUMBER \<and>
    convert_to_type D (STRING_VAL (tk_value t)) T_BIGINT = Inr (INT_VAL (int n)) \<and>
    to_string D (INT_VAL (int n)) = Inr (tk_value t)"
proof -
  obtain ts where ts: "tokenize (show_nat n @ '' '') = Inr ts"
      "map (\<lambda>t. (tk_type t, tk_value t)) ts = [(T_NUMBER, show_nat n), (T_EOF_TOKEN, [])]"
    using tokenize_loop_print [of "lexer_new (show_nat n @ '' '')" "[]" "[(Number (show_nat n), '' '')]" "[]"]
    by (auto simp: tokenize_def rest_def lexer_new_def print_lexemes_def number_text_show_nat blank_def is_space_def)
  then obtain t e where te: "ts = [t, e]" "tk_type t = T_NUMBER" "tk_value t = show_nat n"
    by (auto simp: map_eq_Cons_conv)
  have "fits_i64 (int n)" using assms by (simp add: fits_i64_def)
  from stoll_show_int [OF this] have "stoll (show_nat n) = Some (int n)" by (simp add: show_int_def)
  with ts te show ?thesis by (simp add: convert_to_type_def show_int_def)
qed

theorem integer_text_witness:
  "\<exists>t e. tokenize (show_nat 1042 @ '' '') = Inr [t, e] \<and>
    convert_to_type whole (STRING_VAL (tk_value t)) T_BIGINT = Inr (INT_VAL 1042)"
  using integer_text [of 1042 whole] by auto

text \<open>
  SQL text reaches the engine nowhere: the parser returns an empty query for every text, which the
  engine refuses without touching the database, and the public entry point reports success.
\<close>

lemma parsed_text_refused:
  "execute D (Select (parseSQL sql)) db =
     Some (empty_result\<lparr>qr_success := False,
       qr_error_message := ''SQL Validation Error: '' @ ''SELECT requires FROM clause''\<rparr>, db)"
  by (simp add: execute_def parseSQL_def Query_Engine.execute_select_def error_text_def)

end
